(* ===== verification/Prelude.thy ===== *)
theory Prelude
  imports Complex_Main "HOL-Library.Word" "HOL-Library.AList"
begin

text \<open>
  What every component of the development shares: the ways an operation of the C++ program can
  fail to return a value, the sequencing of operations that may fail, the collections of rewrite
  rules, and facts on lists, association lists and 64-bit words.
\<close>

section \<open>Collections\<close>

named_theorems result_simps \<open>rewriting of operations that may fail\<close>
named_theorems frame_simps \<open>fields that an operation leaves unchanged\<close>
named_theorems inv_intros \<open>preservation of the invariants\<close>

section \<open>Faults\<close>

text \<open>
  An operation of the program either returns or does one of three things: it throws (the only
  exception thrown under \<open>include/\<close> is \<open>std::runtime_error\<close>), it executes something that the C++
  standard leaves undefined, or it never returns. Each is a value of type \<open>fault\<close>, so that
  every branch of the code is a branch of the model. The kinds of undefined behaviour that the
  program can reach are told apart.
\<close>

datatype undefined_behaviour =
    DanglingPointer   \<comment> \<open>a pointer into storage that has been released\<close>
  | OutOfRange        \<comment> \<open>\<open>operator[]\<close> of a vector past its end\<close>
  | EndIterator       \<comment> \<open>dereferencing or erasing the end iterator, or an iterator whose node is gone\<close>
  | UnorderedKey      \<comment> \<open>a NaN key in a map ordered by \<open>std::less\<close> or \<open>std::greater\<close>\<close>
  | DivisionByZero    \<comment> \<open>integer \<open>/\<close> or \<open>%\<close> by zero\<close>

datatype fault = RuntimeError string | Undefined undefined_behaviour | Diverges

type_synonym 'a result = "fault + 'a"

definition rbind :: "'a result \<Rightarrow> ('a \<Rightarrow> 'b result) \<Rightarrow> 'b result" where
  "rbind m f = (case m of Inl e \<Rightarrow> Inl e | Inr x \<Rightarrow> f x)"

definition assert_or :: "bool \<Rightarrow> undefined_behaviour \<Rightarrow> unit result" where
  "assert_or b u = (if b then Inr () else Inl (Undefined u))"

lemma rbind_Inl [simp, result_simps]: "rbind (Inl e) f = Inl e"
  by (simp add: rbind_def)

lemma rbind_Inr [simp, result_simps]: "rbind (Inr x) f = f x"
  by (simp add: rbind_def)

lemma rbind_eq_Inr: "rbind m f = Inr y \<longleftrightarrow> (\<exists>x. m = Inr x \<and> f x = Inr y)"
  by (cases m) auto

lemma rbind_eq_Inl: "rbind m f = Inl e \<longleftrightarrow> m = Inl e \<or> (\<exists>x. m = Inr x \<and> f x = Inl e)"
  by (cases m) auto

lemma rbind_assoc: "rbind (rbind m f) g = rbind m (\<lambda>x. rbind (f x) g)"
  by (cases m) auto

lemma assert_or_True [simp, result_simps]: "b \<Longrightarrow> assert_or b u = Inr ()"
  by (simp add: assert_or_def)

lemma assert_or_eq [simp]:
  "assert_or b u = Inr x \<longleftrightarrow> b"
  "assert_or b u = Inl e \<longleftrightarrow> \<not> b \<and> e = Undefined u"
  by (auto simp: assert_or_def)

text \<open>The fault of a result, which can be evaluated where the value cannot be compared.\<close>

definition fault_of :: "'a result \<Rightarrow> fault option" where
  "fault_of r = (case r of Inl e \<Rightarrow> Some e | Inr _ \<Rightarrow> None)"

lemma fault_of_Inl: "fault_of r = Some e \<longleftrightarrow> r = Inl e"
  by (cases r) (auto simp: fault_of_def)

lemma rbindE:
  assumes "rbind m f = Inr y"
  obtains x where "m = Inr x" "f x = Inr y"
  using assms by (auto simp: rbind_eq_Inr)

section \<open>Lists\<close>

lemma nth_append_single: "i < length xs + 1 \<Longrightarrow> (xs @ [x]) ! i = (if i = length xs then x else xs ! i)"
  by (auto simp: nth_append)

lemma filter_map_update_drop:
  assumes "i < length xs" "P (xs ! i)" "\<not> P y"
  shows "filter P (xs[i := y]) = filter P (take i xs) @ filter P (drop (Suc i) xs)"
  using assms by (simp add: upd_conv_take_nth_drop)

lemma filter_split_at:
  assumes "i < length xs" "P (xs ! i)"
  shows "filter P xs = filter P (take i xs) @ xs ! i # filter P (drop (Suc i) xs)"
  using assms by (subst id_take_nth_drop [of i xs]) auto

lemma filter_drop_prefix:
  assumes "\<And>i. i < n \<Longrightarrow> i < length xs \<Longrightarrow> \<not> P (xs ! i)"
  shows "filter P (drop n xs) = filter P xs"
proof -
  have "filter P (take n xs) = []"
    using assms by (auto simp: filter_empty_conv in_set_conv_nth)
  then show ?thesis by (metis append_Nil append_take_drop_id filter_append)
qed

lemma remove1_middle: "x \<notin> set xs \<Longrightarrow> remove1 x (xs @ x # ys) = xs @ ys"
  by (induction xs) auto

lemma distinct_remove1_filter: "distinct xs \<Longrightarrow> remove1 x xs = filter (\<lambda>y. y \<noteq> x) xs"
  by (induction xs) (auto intro!: filter_True [symmetric])

lemma distinct_singleton:
  assumes "distinct xs" "x \<in> set xs" "\<And>y. y \<in> set xs \<Longrightarrow> y = x"
  shows "xs = [x]"
proof -
  obtain y ys where xs: "xs = y # ys" using assms(2) by (cases xs) auto
  then have y: "y = x" using assms(3) by simp
  moreover have "ys = []"
  proof (cases ys)
    case (Cons z zs)
    then have "z = x" using assms(3) [of z] xs by simp
    then show ?thesis using assms(1) xs y Cons by simp
  qed
  ultimately show ?thesis using xs by simp
qed

lemma distinct_map_eq_nth:
  "distinct (map f xs) \<Longrightarrow> i < length xs \<Longrightarrow> j < length xs \<Longrightarrow> f (xs ! i) = f (xs ! j) \<Longrightarrow> i = j"
  by (metis distinct_conv_nth length_map nth_map)

section \<open>Association lists as hash maps\<close>

text \<open>
  \<open>boost::unordered_flat_map\<close> and \<open>std::unordered_map\<close> are association lists with distinct keys:
  \<open>AList.update\<close> is \<open>m[k] = v\<close>, \<open>AList.delete\<close> is \<open>erase\<close>, \<open>map_of\<close> is \<open>find\<close>, the
  length is \<open>size()\<close>. Nothing in the program depends on their iteration order but the order of
  the lines that \<open>Worker::run\<close> prints at the end.
\<close>

lemma update_fresh: "k \<notin> fst ` set al \<Longrightarrow> AList.update k v al = al @ [(k, v)]"
  by (induction al) auto

lemma map_of_update_other: "y \<noteq> k \<Longrightarrow> map_of (AList.update k v al) y = map_of al y"
  by (simp add: update_conv')

lemma length_update_new: "k \<notin> fst ` set al \<Longrightarrow> length (AList.update k v al) = Suc (length al)"
  by (induction al) auto

lemma length_delete_present:
  "distinct (map fst al) \<Longrightarrow> k \<in> fst ` set al \<Longrightarrow> Suc (length (AList.delete k al)) = length al"
proof (induction al)
  case Nil
  then show ?case by simp
next
  case (Cons a al)
  show ?case
  proof (cases "fst a = k")
    case True
    with Cons.prems have "k \<notin> fst ` set al" by auto
    with True show ?thesis by simp
  next
    case False
    with Cons show ?thesis by auto
  qed
qed

lemma map_of_None_iff: "map_of al k = None \<longleftrightarrow> k \<notin> fst ` set al"
  by (rule map_of_eq_None_iff)

section \<open>64-bit words\<close>

text \<open>
  The guard of \<open>Order::match\<close> adds two 64-bit values; these facts say when the sum is exact.
\<close>

lemma unat_add_exact:
  "unat (a :: 64 word) + unat b < 2 ^ 64 \<Longrightarrow> unat (a + b) = unat a + unat b"
  by (simp add: unat_plus_if')

lemma unat_diff_exact: "b \<le> a \<Longrightarrow> unat ((a :: 64 word) - b) = unat a - unat b"
  by (simp add: unat_sub)

lemma unat64_bound: "unat (a :: 64 word) < 2 ^ 64"
  using unsigned_less [of a] by simp

lemma next_below:
  assumes "(i :: 64 word) < b"
  shows "i < i + 1" "i + 1 \<le> b"
proof -
  have "unat i < unat b" using assms by (simp add: word_less_nat_alt)
  moreover have "unat (i + 1) = unat i + unat (1 :: 64 word)"
    using calculation unat64_bound [of b] by (intro unat_add_exact) simp
  ultimately show "i < i + 1" "i + 1 \<le> b" by (simp_all add: word_less_nat_alt word_le_nat_alt)
qed

lemma unat_min: "unat (min a b :: 64 word) = min (unat a) (unat b)"
  by (simp add: min_def word_le_nat_alt)

lemma add_diff_fill:
  assumes "f \<le> (q :: 64 word)" "x \<le> q - f"
  shows "unat (f + x) = unat f + unat x" "f + x \<le> q" "f + x = q \<longleftrightarrow> x = q - f"
proof -
  have le: "unat x \<le> unat q - unat f" using assms by (simp add: word_le_nat_alt unat_sub)
  have fq: "unat f \<le> unat q" using assms(1) by (simp add: word_le_nat_alt)
  show 1: "unat (f + x) = unat f + unat x"
    using le fq unat64_bound [of q] by (simp add: unat_add_exact)
  show "f + x \<le> q" using 1 le fq by (simp add: word_le_nat_alt)
  show "f + x = q \<longleftrightarrow> x = q - f" by (metis add.commute add_diff_cancel_right' diff_add_cancel)
qed

end
