(* ===== verification/Core.thy ===== *)
theory Core
  imports Prelude
begin

text \<open>
  \<open>include/core.h\<close>: the scalar types and the constants. \<open>Price\<close> is a C++ \<open>double\<close>, kept here as
  its 64 bits in the IEEE 754 binary64 format. The program only compares prices, and stores
  them; the comparisons are defined on the bits, and a lemma shows that on the numbers (neither
  infinite nor NaN) they are the comparisons of the real values that the bits stand for.
\<close>

section \<open>IEEE 754 doubles\<close>

datatype double = Double (dbl_bits: "64 word")

definition dbl_negative :: "double \<Rightarrow> bool" where
  "dbl_negative d \<longleftrightarrow> 0x8000000000000000 \<le> uint (dbl_bits d)"

definition dbl_magnitude :: "double \<Rightarrow> int" where
  "dbl_magnitude d = uint (dbl_bits d) mod 0x8000000000000000"

text \<open>A magnitude is a biased exponent of 11 bits followed by a fraction of 52 bits.\<close>

definition dbl_exponent :: "double \<Rightarrow> int" where
  "dbl_exponent d = dbl_magnitude d div 0x10000000000000"

definition dbl_fraction :: "double \<Rightarrow> int" where
  "dbl_fraction d = dbl_magnitude d mod 0x10000000000000"

definition is_nan :: "double \<Rightarrow> bool" where
  "is_nan d \<longleftrightarrow> dbl_exponent d = 2047 \<and> dbl_fraction d \<noteq> 0"

definition dbl_finite :: "double \<Rightarrow> bool" where
  "dbl_finite d \<longleftrightarrow> dbl_exponent d < 2047"

definition dbl_key :: "double \<Rightarrow> int" where
  "dbl_key d = (if dbl_negative d then - dbl_magnitude d else dbl_magnitude d)"

text \<open>
  \<open><\<close> and \<open>\<le>\<close> are C++'s on doubles: false as soon as one side is NaN, and the two zeros are
  neither above nor below each other.
\<close>

instantiation double :: ord
begin

definition less_double :: "double \<Rightarrow> double \<Rightarrow> bool" where
  "less_double a b \<longleftrightarrow> \<not> is_nan a \<and> \<not> is_nan b \<and> dbl_key a < dbl_key b"

definition less_eq_double :: "double \<Rightarrow> double \<Rightarrow> bool" where
  "less_eq_double a b \<longleftrightarrow> \<not> is_nan a \<and> \<not> is_nan b \<and> dbl_key a \<le> dbl_key b"

instance ..

end

instantiation double :: zero
begin

definition zero_double :: double where
  "zero_double = Double 0"

instance ..

end

text \<open>C++'s \<open>==\<close> on doubles, which is not equality of the bits.\<close>

definition dbl_eq :: "double \<Rightarrow> double \<Rightarrow> bool" where
  "dbl_eq a b \<longleftrightarrow> \<not> is_nan a \<and> \<not> is_nan b \<and> dbl_key a = dbl_key b"

text \<open>The value \<open>-1.0\<close> that the best-price queries return for an empty side.\<close>

definition minus_one :: double where
  "minus_one = Double 0xBFF0000000000000"

section \<open>The comparisons are those of the real values\<close>

text \<open>The significand scaled by \<open>2 ^ 1074\<close>, a natural number for every finite double.\<close>

definition mag_value :: "nat \<Rightarrow> nat" where
  "mag_value m =
     (if m div 2 ^ 52 = 0 then m mod 2 ^ 52
      else (2 ^ 52 + m mod 2 ^ 52) * 2 ^ (m div 2 ^ 52 - 1))"

definition dbl_value :: "double \<Rightarrow> real" where
  "dbl_value d =
     (if dbl_negative d then - 1 else 1) * real (mag_value (nat (dbl_magnitude d))) / 2 ^ 1074"

lemma mag_value_Suc: "mag_value m < mag_value (Suc m)"
proof (cases "Suc (m mod 2 ^ 52) = 2 ^ 52")
  case True
  then have d: "Suc m div 2 ^ 52 = Suc (m div 2 ^ 52)" and r: "Suc m mod 2 ^ 52 = 0"
    by (simp_all add: div_Suc mod_Suc)
  show ?thesis
  proof (cases "m div 2 ^ 52")
    case 0
    then show ?thesis using d r True by (simp add: mag_value_def)
  next
    case (Suc e)
    have "2 ^ 52 + m mod 2 ^ 52 < (2 ^ 52 * 2 :: nat)" using True by simp
    then have "(2 ^ 52 + m mod 2 ^ 52) * 2 ^ e < (2 ^ 52 * 2) * (2 ^ e :: nat)" by simp
    then show ?thesis using d r Suc by (simp add: mag_value_def algebra_simps)
  qed
next
  case False
  then have "Suc m div 2 ^ 52 = m div 2 ^ 52" and "Suc m mod 2 ^ 52 = Suc (m mod 2 ^ 52)"
    by (simp_all add: div_Suc mod_Suc)
  then show ?thesis by (simp add: mag_value_def)
qed

lemma mag_value_less_iff: "mag_value m < mag_value n \<longleftrightarrow> m < n"
  by (rule strict_mono_less) (simp add: strict_mono_Suc_iff mag_value_Suc)

lemma mag_value_0 [simp]: "mag_value 0 = 0"
  by (simp add: mag_value_def)

lemma mag_value_eq_iff: "mag_value m = mag_value n \<longleftrightarrow> m = n"
  by (metis linorder_neq_iff mag_value_less_iff)

lemma dbl_value_less_iff: "dbl_value a < dbl_value b \<longleftrightarrow> dbl_key a < dbl_key b"
proof -
  let ?m = "\<lambda>d. nat (dbl_magnitude d)"
  let ?v = "\<lambda>d. (if dbl_negative d then - 1 else 1) * int (mag_value (?m d))"
  have pos: "0 \<le> dbl_magnitude d" for d by (simp add: dbl_magnitude_def)
  have val: "dbl_value d = real_of_int (?v d) / 2 ^ 1074" for d
    by (simp add: dbl_value_def)
  have "dbl_value a < dbl_value b \<longleftrightarrow> ?v a < ?v b"
    unfolding val by (simp add: divide_less_cancel del: of_int_mult)
  also have "\<dots> \<longleftrightarrow> dbl_key a < dbl_key b"
    using mag_value_less_iff [of "?m a" "?m b"] mag_value_less_iff [of "?m b" "?m a"]
      mag_value_less_iff [of 0 "?m a"] mag_value_less_iff [of 0 "?m b"] pos [of a] pos [of b]
    by (auto simp: dbl_key_def)
  finally show ?thesis .
qed

lemma dbl_finite_not_nan [simp]: "dbl_finite d \<Longrightarrow> \<not> is_nan d"
  by (simp add: dbl_finite_def is_nan_def)

lemma less_double_value:
  "dbl_finite a \<Longrightarrow> dbl_finite b \<Longrightarrow> a < b \<longleftrightarrow> dbl_value a < dbl_value b"
  by (simp add: less_double_def dbl_value_less_iff)

lemma less_eq_double_value:
  "dbl_finite a \<Longrightarrow> dbl_finite b \<Longrightarrow> a \<le> b \<longleftrightarrow> dbl_value a \<le> dbl_value b"
  by (metis dbl_finite_not_nan dbl_value_less_iff less_eq_double_def linorder_not_less)

lemmas double_ord_defs = less_double_def less_eq_double_def dbl_eq_def

lemma is_nan_zero [simp]: "\<not> is_nan 0"
  by (simp add: zero_double_def is_nan_def dbl_exponent_def dbl_fraction_def dbl_magnitude_def)

section \<open>The scalar types and constants\<close>

type_synonym instrument = string
type_synonym order_id = "64 word"
type_synonym price = double
type_synonym quantity = "64 word"

definition DEFAULT_ORDER_ID :: order_id where
  "DEFAULT_ORDER_ID = 0"

definition FIRST_ORDER_ID :: order_id where
  "FIRST_ORDER_ID = 1"

definition INVALID_ORDER_ID :: order_id where
  "INVALID_ORDER_ID = - 1"

definition SPACE_RESERVE :: nat where
  "SPACE_RESERVE = 100000"

end
