(* ===== verification/Order.thy ===== *)
theory Order
  imports Core
begin

text \<open>
  \<open>include/order.h\<close>: the \<open>Order\<close> class with its constructors, its fill and cancel operations and
  its setters, and the \<open>OrderCommand\<close> that travels through the queues. A reading of the system
  clock is an argument \<open>t\<close> of each operation that makes one. The invariant \<open>order_wf\<close> says that
  the status of an order always agrees with its quantities.
\<close>

section \<open>Data\<close>

datatype order_side = BUY | SELL

datatype order_status = NEW | PARTIALLY_FILLED | FULLY_FILLED | CANCELLED

text \<open>A \<open>std::chrono::time_point\<close> of the system clock: a count of clock periods.\<close>

type_synonym time_point = int

text \<open>
  The system clock is the sequence of its readings and the number of them made so far: nothing
  is assumed of two readings, since the system clock may be set back.
\<close>

record clock =
  clk_reading :: "nat \<Rightarrow> time_point"
  clk_ticks :: nat

definition now :: "clock \<Rightarrow> time_point" where
  "now c = clk_reading c (clk_ticks c)"

definition later :: "nat \<Rightarrow> clock \<Rightarrow> clock" where
  "later n c = c\<lparr>clk_ticks := clk_ticks c + n\<rparr>"

record order =
  ord_instrument :: instrument
  ord_side :: order_side
  ord_price :: price
  ord_quantity :: quantity
  ord_id :: order_id
  ord_quantity_filled :: quantity
  ord_status :: order_status
  ord_time_submitted :: time_point
  ord_updated_time :: time_point

datatype command_type = ADD | MODIFY | CANCEL | SHUTDOWN

record order_command =
  cmd_type :: command_type
  cmd_order :: order

section \<open>Constructors\<close>

definition default_order :: "time_point \<Rightarrow> order" where
  "default_order t =
     \<lparr>ord_instrument = [], ord_side = BUY, ord_price = 0, ord_quantity = 0,
      ord_id = DEFAULT_ORDER_ID, ord_quantity_filled = 0, ord_status = NEW,
      ord_time_submitted = t, ord_updated_time = t\<rparr>"

definition instrument_order :: "time_point \<Rightarrow> instrument \<Rightarrow> order" where
  "instrument_order t instr =
     \<lparr>ord_instrument = instr, ord_side = BUY, ord_price = 0, ord_quantity = 0,
      ord_id = DEFAULT_ORDER_ID, ord_quantity_filled = 0, ord_status = NEW,
      ord_time_submitted = t, ord_updated_time = t\<rparr>"

definition client_order ::
    "time_point \<Rightarrow> instrument \<Rightarrow> order_side \<Rightarrow> price \<Rightarrow> quantity \<Rightarrow> order" where
  "client_order t instr side price quantity =
     \<lparr>ord_instrument = instr, ord_side = side, ord_price = price, ord_quantity = quantity,
      ord_id = DEFAULT_ORDER_ID, ord_quantity_filled = 0, ord_status = NEW,
      ord_time_submitted = t, ord_updated_time = t\<rparr>"

definition exchange_order :: "order \<Rightarrow> order_id \<Rightarrow> order" where
  "exchange_order client allocated_id =
     \<lparr>ord_instrument = ord_instrument client, ord_side = ord_side client,
      ord_price = ord_price client, ord_quantity = ord_quantity client,
      ord_id = allocated_id, ord_quantity_filled = 0, ord_status = NEW,
      ord_time_submitted = ord_time_submitted client,
      ord_updated_time = ord_updated_time client\<rparr>"

text \<open>
  The move leaves the client's instrument string in a valid but unspecified state. \<open>mv\<close> stands
  for the string that a moved-from string holds; no code of the program reads it.
\<close>

definition moved_from :: "(instrument \<Rightarrow> instrument) \<Rightarrow> order \<Rightarrow> order" where
  "moved_from mv client = client\<lparr>ord_instrument := mv (ord_instrument client)\<rparr>"

definition copy_from_client :: "order \<Rightarrow> order \<Rightarrow> order_id \<Rightarrow> order" where
  "copy_from_client self client allocated_id =
     self\<lparr>ord_instrument := ord_instrument client, ord_side := ord_side client,
          ord_price := ord_price client, ord_quantity := ord_quantity client,
          ord_id := allocated_id\<rparr>"

definition default_command :: "time_point \<Rightarrow> order_command" where
  "default_command t = \<lparr>cmd_type = ADD, cmd_order = default_order t\<rparr>"

definition order_command_of :: "command_type \<Rightarrow> order \<Rightarrow> order_command" where
  "order_command_of ty ord = \<lparr>cmd_type = ty, cmd_order = ord\<rparr>"

section \<open>Operations\<close>

definition match_error :: string where
  "match_error = ''Unable to carry add fill quantity due to it exceeds the order quantity amount''"

text \<open>\<open>Order::match\<close>. The guard is computed in 64 bits, as the code does.\<close>

definition match_order :: "time_point \<Rightarrow> quantity \<Rightarrow> order \<Rightarrow> order result" where
  "match_order t fill_qty ord =
     (if ord_quantity_filled ord + fill_qty > ord_quantity ord
      then Inl (RuntimeError match_error)
      else
        let ord1 = ord\<lparr>ord_quantity_filled := ord_quantity_filled ord + fill_qty,
                       ord_updated_time := t\<rparr>
        in if ord_quantity_filled ord1 = ord_quantity ord1
           then Inr (ord1\<lparr>ord_status := FULLY_FILLED\<rparr>)
           else Inr (ord1\<lparr>ord_status := PARTIALLY_FILLED\<rparr>))"

definition cancel :: "time_point \<Rightarrow> order \<Rightarrow> bool \<times> order" where
  "cancel t ord =
     (if ord_status ord = FULLY_FILLED \<or> ord_status ord = CANCELLED then (False, ord)
      else (True, ord\<lparr>ord_updated_time := t, ord_status := CANCELLED\<rparr>))"

definition set_price :: "time_point \<Rightarrow> price \<Rightarrow> order \<Rightarrow> order" where
  "set_price t new_price ord = ord\<lparr>ord_updated_time := t, ord_price := new_price\<rparr>"

definition set_quantity :: "quantity \<Rightarrow> order \<Rightarrow> order" where
  "set_quantity qty ord = ord\<lparr>ord_quantity := qty\<rparr>"

text \<open>\<open>Order::get_updated_time\<close> returns the submission time.\<close>

definition get_updated_time :: "order \<Rightarrow> time_point" where
  "get_updated_time ord = ord_time_submitted ord"

text \<open>What is left to fill, as the code computes it (\<open>get_quantity() - get_quantity_filled()\<close>).\<close>

definition available :: "order \<Rightarrow> quantity" where
  "available ord = ord_quantity ord - ord_quantity_filled ord"

section \<open>The invariant of an order\<close>

definition active :: "order \<Rightarrow> bool" where
  "active ord \<longleftrightarrow> ord_status ord = NEW \<or> ord_status ord = PARTIALLY_FILLED"

definition order_wf :: "order \<Rightarrow> bool" where
  "order_wf ord \<longleftrightarrow>
     ord_quantity_filled ord \<le> ord_quantity ord \<and>
     (ord_status ord = NEW \<longrightarrow> ord_quantity_filled ord = 0) \<and>
     (ord_status ord = PARTIALLY_FILLED \<longrightarrow> ord_quantity_filled ord < ord_quantity ord) \<and>
     (ord_status ord = FULLY_FILLED \<longrightarrow> ord_quantity_filled ord = ord_quantity ord)"

lemma order_wf_default [simp]: "order_wf (default_order t)"
  by (simp add: order_wf_def default_order_def)

lemma order_wf_client [simp]: "order_wf (client_order t instr side price quantity)"
  by (simp add: order_wf_def client_order_def)

lemma order_wf_exchange [simp]: "order_wf (exchange_order client i)"
  by (simp add: order_wf_def exchange_order_def)

lemma order_wf_filled_le: "order_wf ord \<Longrightarrow> ord_quantity_filled ord \<le> ord_quantity ord"
  by (simp add: order_wf_def)

lemma active_iff_cancellable:
  "active ord \<longleftrightarrow> \<not> (ord_status ord = FULLY_FILLED \<or> ord_status ord = CANCELLED)"
  by (cases "ord_status ord") (auto simp: active_def)

subsection \<open>Filling\<close>

definition filled_by :: "time_point \<Rightarrow> quantity \<Rightarrow> order \<Rightarrow> order" where
  "filled_by t q ord =
     ord\<lparr>ord_quantity_filled := ord_quantity_filled ord + q, ord_updated_time := t,
         ord_status := (if q = available ord then FULLY_FILLED else PARTIALLY_FILLED)\<rparr>"

lemma match_order_ok:
  assumes "ord_quantity_filled ord \<le> ord_quantity ord" "q \<le> available ord"
  shows "match_order t q ord = Inr (filled_by t q ord)"
  using assms add_diff_fill [of "ord_quantity_filled ord" "ord_quantity ord" q]
  by (auto simp: match_order_def filled_by_def available_def Let_def not_less)

lemma match_order_Inl: "match_order t q ord = Inl e \<Longrightarrow> e = RuntimeError match_error"
  by (auto simp: match_order_def Let_def split: if_splits)

lemma filled_by_simps [simp, frame_simps]:
  "ord_id (filled_by t q ord) = ord_id ord"
  "ord_side (filled_by t q ord) = ord_side ord"
  "ord_price (filled_by t q ord) = ord_price ord"
  "ord_quantity (filled_by t q ord) = ord_quantity ord"
  "ord_instrument (filled_by t q ord) = ord_instrument ord"
  "ord_time_submitted (filled_by t q ord) = ord_time_submitted ord"
  by (simp_all add: filled_by_def)

lemma available_filled_by:
  assumes "ord_quantity_filled ord \<le> ord_quantity ord" "q \<le> available ord"
  shows "available (filled_by t q ord) = available ord - q"
  using assms by (simp add: filled_by_def available_def)

lemma status_filled_by:
  "ord_status (filled_by t q ord) = (if q = available ord then FULLY_FILLED else PARTIALLY_FILLED)"
  by (simp add: filled_by_def)

lemma order_wf_filled_by:
  assumes "order_wf ord" "q \<le> available ord"
  shows "order_wf (filled_by t q ord)"
proof -
  have le: "ord_quantity_filled ord \<le> ord_quantity ord" using assms by (simp add: order_wf_def)
  note fill = add_diff_fill [OF le assms(2) [unfolded available_def]]
  have "ord_quantity_filled ord + q = ord_quantity ord \<longleftrightarrow> q = available ord"
    using fill(3) by (simp add: available_def)
  then show ?thesis using fill(2) by (auto simp: order_wf_def filled_by_def)
qed

lemma active_filled_by: "active (filled_by t q ord) \<longleftrightarrow> q \<noteq> available ord"
  by (simp add: active_def status_filled_by)

subsection \<open>Cancelling and changing\<close>

lemma order_wf_cancel: "order_wf ord \<Longrightarrow> order_wf (snd (cancel t ord))"
  by (simp add: order_wf_def cancel_def)

lemma cancel_frame [simp, frame_simps]:
  "ord_id (snd (cancel t ord)) = ord_id ord"
  "ord_side (snd (cancel t ord)) = ord_side ord"
  "ord_price (snd (cancel t ord)) = ord_price ord"
  "ord_quantity (snd (cancel t ord)) = ord_quantity ord"
  "ord_quantity_filled (snd (cancel t ord)) = ord_quantity_filled ord"
  "ord_instrument (snd (cancel t ord)) = ord_instrument ord"
  by (simp_all add: cancel_def)

lemma fst_cancel: "fst (cancel t ord) \<longleftrightarrow> active ord"
  by (simp add: cancel_def active_iff_cancellable)

lemma setters_frame [simp, frame_simps]:
  "ord_id (set_price t p ord) = ord_id ord"
  "ord_side (set_price t p ord) = ord_side ord"
  "ord_price (set_price t p ord) = p"
  "ord_quantity (set_price t p ord) = ord_quantity ord"
  "ord_quantity_filled (set_price t p ord) = ord_quantity_filled ord"
  "ord_status (set_price t p ord) = ord_status ord"
  "ord_id (set_quantity q ord) = ord_id ord"
  "ord_side (set_quantity q ord) = ord_side ord"
  "ord_price (set_quantity q ord) = ord_price ord"
  "ord_quantity (set_quantity q ord) = q"
  "ord_quantity_filled (set_quantity q ord) = ord_quantity_filled ord"
  "ord_status (set_quantity q ord) = ord_status ord"
  by (simp_all add: set_price_def set_quantity_def)

lemma order_wf_setters:
  "order_wf ord \<Longrightarrow> order_wf (set_price t p ord)"
  "order_wf ord \<Longrightarrow> active ord \<Longrightarrow> ord_quantity_filled ord < q \<Longrightarrow> order_wf (set_quantity q ord)"
  by (auto simp: order_wf_def active_def)

lemma active_setters [simp]:
  "active (set_price t p ord) = active ord"
  "active (set_quantity q ord) = active ord"
  by (simp_all add: active_def)

section \<open>Properties\<close>

text \<open>
  C34: a fill of at most what is available succeeds, adds exactly that quantity, keeps the order's
  identity and its status consistent, and completes the order exactly when nothing is left.
\<close>

theorem match_fills_exactly:
  assumes "order_wf ord" "q \<le> available ord"
  shows "\<exists>ord'. match_order t q ord = Inr ord' \<and> order_wf ord' \<and>
    unat (ord_quantity_filled ord') = unat (ord_quantity_filled ord) + unat q \<and>
    unat (available ord') = unat (available ord) - unat q \<and>
    (ord_status ord' = FULLY_FILLED \<longleftrightarrow> q = available ord) \<and>
    (ord_status ord' = PARTIALLY_FILLED \<longleftrightarrow> q < available ord) \<and>
    ord_id ord' = ord_id ord \<and> ord_price ord' = ord_price ord \<and>
    ord_quantity ord' = ord_quantity ord \<and> ord_updated_time ord' = t"
proof -
  have le: "ord_quantity_filled ord \<le> ord_quantity ord" using assms(1) by (rule order_wf_filled_le)
  have "unat (ord_quantity_filled (filled_by t q ord)) = unat (ord_quantity_filled ord) + unat q"
    using add_diff_fill(1) [OF le] assms(2) by (simp add: filled_by_def available_def)
  moreover have "unat (available ord - q) = unat (available ord) - unat q"
    using assms(2) by (rule unat_diff_exact)
  moreover have "ord_updated_time (filled_by t q ord) = t" by (simp add: filled_by_def)
  ultimately show ?thesis
    using match_order_ok [OF le assms(2)] order_wf_filled_by [OF assms] assms(2)
    by (auto simp: status_filled_by available_filled_by [OF le assms(2)])
qed

theorem match_fills_exactly_witness:
  "\<exists>ord'. match_order 7 30 (client_order 0 ''SPY'' BUY (Double 0x4059000000000000) 100) = Inr ord' \<and>
     unat (ord_quantity_filled ord') = 30"
proof -
  let ?o = "client_order 0 ''SPY'' BUY (Double 0x4059000000000000) 100"
  have "order_wf ?o" "30 \<le> available ?o" by code_simp+
  from match_fills_exactly [OF this, of 7] show ?thesis by (auto simp: client_order_def)
qed

text \<open>
  A fill that exceeds the order is refused with the runtime error of the code, whenever the sum
  that the guard computes does not leave 64 bits.
\<close>

theorem match_rejects_overfill:
  assumes "unat (ord_quantity ord) < unat (ord_quantity_filled ord) + unat q"
    "unat (ord_quantity_filled ord) + unat q < 2 ^ 64"
  shows "match_order t q ord = Inl (RuntimeError match_error)"
  using assms by (simp add: match_order_def word_less_nat_alt unat_add_exact)

theorem match_rejects_overfill_witness:
  "match_order 7 101 (client_order 0 ''SPY'' BUY (Double 0x4059000000000000) 100) =
     Inl (RuntimeError match_error)"
  by (rule match_rejects_overfill) (simp_all add: client_order_def)

text \<open>
  The guard of \<open>match\<close> adds in 64 bits, and a fill that makes the sum wrap around is accepted:
  a consistent order can be \<open>filled\<close> with more than it has left, and its filled quantity falls.
\<close>

theorem match_guard_wraps:
  "\<exists>ord q ord'. order_wf ord \<and> active ord \<and> available ord < q \<and>
     match_order t q ord = Inr ord' \<and> ord_quantity_filled ord' < ord_quantity_filled ord"
proof -
  let ?o = "(client_order 0 ''SPY'' BUY (Double 0x4059000000000000) 100)
              \<lparr>ord_quantity_filled := 10, ord_status := PARTIALLY_FILLED\<rparr>"
  have "order_wf ?o" "active ?o" by code_simp+
  moreover have "available ?o < - 5" by code_simp
  moreover have "\<exists>ord'. match_order t (- 5) ?o = Inr ord' \<and> ord_quantity_filled ord' < ord_quantity_filled ?o"
    by (auto simp: match_order_def client_order_def Let_def)
  ultimately show ?thesis by blast
qed

text \<open>
  The lifecycle of an order under cancellation: an active order is cancelled once, keeping what
  was filled; after that, as on a filled order, \<open>cancel\<close> returns false and changes nothing.
\<close>

theorem cancel_lifecycle:
  "(fst (cancel t ord) \<longleftrightarrow> active ord) \<and>
   (\<not> active (snd (cancel t ord))) \<and>
   ord_quantity_filled (snd (cancel t ord)) = ord_quantity_filled ord \<and>
   cancel t' (snd (cancel t ord)) = (False, snd (cancel t ord))"
  by (cases "ord_status ord") (simp_all add: cancel_def active_def)

text \<open>\<open>get_updated_time\<close> does not see a fill: it returns the time of submission.\<close>

theorem updated_time_is_submission_time:
  assumes "match_order t q ord = Inr ord'"
  shows "get_updated_time ord' = ord_time_submitted ord \<and> ord_updated_time ord' = t"
  using assms by (auto simp: match_order_def get_updated_time_def Let_def split: if_splits)

theorem updated_time_is_submission_time_witness:
  "\<exists>ord'. match_order 7 30 (client_order 0 ''SPY'' BUY (Double 0x4059000000000000) 100) = Inr ord' \<and>
     get_updated_time ord' = 0 \<and> ord_updated_time ord' = 7"
proof -
  let ?o = "client_order 0 ''SPY'' BUY (Double 0x4059000000000000) 100"
  have m: "match_order 7 30 ?o = Inr (filled_by 7 30 ?o)"
    by (rule match_order_ok) code_simp+
  from updated_time_is_submission_time [OF m] m show ?thesis by (simp add: client_order_def)
qed

end
