(* ===== verification/Order_Pool.thy ===== *)
theory Order_Pool
  imports Order
begin

text \<open>
  \<open>include/order_pool.h\<close>: the pool that owns every order of a book. Orders are reached through
  pointers into the pool's vector, from the registry and from the price levels, so the vector's
  storage is explicit: a pointer names the block of storage it was taken from and an index, and
  growing the vector moves the orders to a new block. The old pointers then dangle. A pointer is
  followed through the store that the pool gives (\<open>pool_store\<close>), a partial map on pointers.
\<close>

section \<open>Pointers and stores\<close>

datatype order_ptr = Slot (ptr_block: nat) (ptr_index: nat)

type_synonym order_store = "order_ptr \<Rightarrow> order option"

definition deref :: "order_store \<Rightarrow> order_ptr \<Rightarrow> order result" where
  "deref h p = (case h p of None \<Rightarrow> Inl (Undefined DanglingPointer) | Some ord \<Rightarrow> Inr ord)"

lemma deref_Some [simp, result_simps]: "h p = Some ord \<Longrightarrow> deref h p = Inr ord"
  by (simp add: deref_def)

lemma deref_None [simp, result_simps]: "h p = None \<Longrightarrow> deref h p = Inl (Undefined DanglingPointer)"
  by (simp add: deref_def)

lemma deref_eq [simp]:
  "deref h p = Inr ord \<longleftrightarrow> h p = Some ord"
  "deref h p = Inl e \<longleftrightarrow> h p = None \<and> e = Undefined DanglingPointer"
  by (auto simp: deref_def split: option.splits)

section \<open>The pool\<close>

text \<open>
  \<open>pool_block\<close> and \<open>pool_capacity\<close> describe the storage of the vector \<open>_orders\<close>:
  \<open>reserve(n)\<close> moves the elements to a new block of capacity \<open>n\<close> when \<open>n\<close> is above the capacity,
  and does nothing otherwise. The standard only asks for a capacity of at least \<open>n\<close>; exactly \<open>n\<close> is what
  libstdc++ gives, and what the theorems on pools that grow (\<open>full_pool_dangles\<close>, \<open>match20_trades_a_fifth\<close>,
  \<open>match20_pool_dangles\<close>) are about.
\<close>

record order_pool =
  pool_next_free_index :: nat
  pool_orders :: "order list"
  pool_block :: nat
  pool_capacity :: nat

definition default_orders :: "clock \<Rightarrow> nat \<Rightarrow> order list" where
  "default_orders c n = map (\<lambda>i. default_order (clk_reading c (clk_ticks c + i))) [0..<n]"

definition new_order_pool :: "clock \<Rightarrow> nat \<Rightarrow> order_pool \<times> clock" where
  "new_order_pool c reserve_size =
     (\<lparr>pool_next_free_index = 0, pool_orders = default_orders c reserve_size,
       pool_block = 0, pool_capacity = reserve_size\<rparr>, later reserve_size c)"

definition vector_reserve :: "nat \<Rightarrow> order_pool \<Rightarrow> order_pool" where
  "vector_reserve n pool =
     (if n > pool_capacity pool
      then pool\<lparr>pool_block := Suc (pool_block pool), pool_capacity := n\<rparr> else pool)"

definition reserve_more :: "clock \<Rightarrow> order_pool \<Rightarrow> order_pool \<times> clock" where
  "reserve_more c pool =
     (let old_size = length (pool_orders pool);
          pool1 = vector_reserve (old_size * 2) pool
      in (pool1\<lparr>pool_orders := pool_orders pool1 @ default_orders c old_size\<rparr>, later old_size c))"

definition allocate :: "clock \<Rightarrow> order_pool \<Rightarrow> (order_ptr \<times> order_pool \<times> clock) result" where
  "allocate c pool =
     (let (pool1, c1) =
            (if pool_next_free_index pool \<ge> length (pool_orders pool) then reserve_more c pool
             else (pool, c))
      in rbind (assert_or (pool_next_free_index pool1 < length (pool_orders pool1)) OutOfRange)
           (\<lambda>_. Inr (Slot (pool_block pool1) (pool_next_free_index pool1),
                     pool1\<lparr>pool_next_free_index := Suc (pool_next_free_index pool1)\<rparr>, c1)))"

definition pool_store :: "order_pool \<Rightarrow> order_store" where
  "pool_store pool p =
     (if ptr_block p = pool_block pool \<and> ptr_index p < length (pool_orders pool)
      then Some (pool_orders pool ! ptr_index p) else None)"

text \<open>A write through a pointer that has been followed before.\<close>

definition pool_write :: "order_ptr \<Rightarrow> order \<Rightarrow> order_pool \<Rightarrow> order_pool" where
  "pool_write p ord pool = pool\<lparr>pool_orders := (pool_orders pool)[ptr_index p := ord]\<rparr>"

section \<open>Lemmas\<close>

lemma pool_store_write:
  "pool_store pool p = Some old \<Longrightarrow>
     pool_store (pool_write p ord pool) = (pool_store pool)(p \<mapsto> ord)"
proof (rule ext)
  fix x
  assume "pool_store pool p = Some old"
  then show "pool_store (pool_write p ord pool) x = ((pool_store pool)(p \<mapsto> ord)) x"
    by (cases p; cases x) (auto simp: pool_store_def pool_write_def split: if_splits)
qed

lemma pool_write_frame [simp, frame_simps]:
  "pool_next_free_index (pool_write p ord pool) = pool_next_free_index pool"
  "pool_block (pool_write p ord pool) = pool_block pool"
  "pool_capacity (pool_write p ord pool) = pool_capacity pool"
  "length (pool_orders (pool_write p ord pool)) = length (pool_orders pool)"
  by (simp_all add: pool_write_def)

lemma length_default_orders [simp]: "length (default_orders c n) = n"
  by (simp add: default_orders_def)

lemma nth_default_orders [simp]:
  "i < n \<Longrightarrow> default_orders c n ! i = default_order (clk_reading c (clk_ticks c + i))"
  by (simp add: default_orders_def)

text \<open>While there is room, an allocation gives the next slot and leaves every order in place.\<close>

definition pool_room :: "order_pool \<Rightarrow> bool" where
  "pool_room pool \<longleftrightarrow> pool_next_free_index pool < length (pool_orders pool)"

lemma allocate_room:
  "pool_room pool \<Longrightarrow>
     allocate c pool =
       Inr (Slot (pool_block pool) (pool_next_free_index pool),
            pool\<lparr>pool_next_free_index := Suc (pool_next_free_index pool)\<rparr>, c)"
  by (simp add: allocate_def pool_room_def)

lemma pool_store_next [simp, frame_simps]:
  "pool_store (pool\<lparr>pool_next_free_index := n\<rparr>) = pool_store pool"
  by (rule ext) (simp add: pool_store_def)

lemma pool_store_slot [simp]:
  "pool_store pool (Slot b i) =
     (if b = pool_block pool \<and> i < length (pool_orders pool) then Some (pool_orders pool ! i) else None)"
  by (simp add: pool_store_def)

text \<open>
  When the pool is full and its vector has no spare capacity, the allocation moves the orders,
  and every pointer handed out before is left dangling.
\<close>

lemma allocate_full:
  assumes "pool_next_free_index pool = length (pool_orders pool)" "pool_orders pool \<noteq> []"
    "pool_capacity pool = length (pool_orders pool)"
  obtains pool' where
    "allocate c pool = Inr (Slot (Suc (pool_block pool)) (length (pool_orders pool)), pool',
       later (length (pool_orders pool)) c)"
    "pool_block pool' = Suc (pool_block pool)"
    "length (pool_orders pool') = 2 * length (pool_orders pool)"
    "take (length (pool_orders pool)) (pool_orders pool') = pool_orders pool"
  using assms
  by (auto simp: allocate_def reserve_more_def vector_reserve_def Let_def assert_or_def)

end
