(* ===== verification/Order_Queue.thy ===== *)
theory Order_Queue
  imports Order_Pool
begin

text \<open>
  The interface of a price level towards the order book: a first-in first-out queue of pointers
  to orders, from which an order can also be removed by its id. Both implementations in the
  repository, \<open>price_level_v2.h\<close> (an array with tombstones) and \<open>price_level.h\<close> (a linked list),
  are interpretations of the locale \<open>order_queue\<close>; only the first is one of \<open>matching_queue\<close>, whose
  further operation drops the front order once it is filled.

  \<open>inv h l\<close> is the implementation's invariant under the store \<open>h\<close>, \<open>live l\<close> the queued orders from
  front to back, and \<open>ready l\<close> says that an order may be appended.
\<close>

definition ids_of :: "order_store \<Rightarrow> order_ptr list \<Rightarrow> order_id list" where
  "ids_of h ps = map (\<lambda>p. ord_id (the (h p))) ps"

definition allocated :: "order_store \<Rightarrow> order_ptr list \<Rightarrow> bool" where
  "allocated h ps \<longleftrightarrow> (\<forall>p \<in> set ps. h p \<noteq> None)"

text \<open>A later store still has the orders of a queue, with the ids that they had.\<close>

definition same_ids :: "order_store \<Rightarrow> order_store \<Rightarrow> order_ptr list \<Rightarrow> bool" where
  "same_ids h h' ps \<longleftrightarrow>
     (\<forall>p \<in> set ps. \<forall>ord. h p = Some ord \<longrightarrow>
        (\<exists>ord'. h' p = Some ord' \<and> ord_id ord' = ord_id ord))"

lemma same_ids_refl [simp]: "same_ids h h ps"
  by (simp add: same_ids_def)

lemma same_ids_upd:
  "h p = Some old \<Longrightarrow> ord_id ord = ord_id old \<Longrightarrow> same_ids h (h(p \<mapsto> ord)) ps"
  by (simp add: same_ids_def)

lemma same_ids_trans: "same_ids h h' ps \<Longrightarrow> same_ids h' h'' ps \<Longrightarrow> same_ids h h'' ps"
  by (fastforce simp: same_ids_def)

lemma ids_of_same: "allocated h ps \<Longrightarrow> same_ids h h' ps \<Longrightarrow> ids_of h' ps = ids_of h ps"
  by (fastforce simp: ids_of_def allocated_def same_ids_def)

lemma allocated_same: "allocated h ps \<Longrightarrow> same_ids h h' ps \<Longrightarrow> allocated h' ps"
  by (fastforce simp: allocated_def same_ids_def)

lemma ids_of_simps [simp]:
  "ids_of h [] = []" "ids_of h (p # ps) = ord_id (the (h p)) # ids_of h ps"
  "ids_of h (ps @ qs) = ids_of h ps @ ids_of h qs"
  by (simp_all add: ids_of_def)

lemma ids_of_mem: "p \<in> set ps \<Longrightarrow> h p = Some ord \<Longrightarrow> ord_id ord \<in> set (ids_of h ps)"
  by (force simp: ids_of_def)

lemma distinct_ids_of: "distinct (ids_of h ps) \<Longrightarrow> distinct ps"
  by (simp add: ids_of_def distinct_map)

text \<open>A sequence of additions and removals, and what it does to the queue and answers.\<close>

datatype queue_op = AddOp order_ptr | RemoveOp order_id

fun queue_spec :: "order_store \<Rightarrow> queue_op list \<Rightarrow> order_ptr list \<Rightarrow> bool list \<times> order_ptr list" where
  "queue_spec h [] ps = ([], ps)"
| "queue_spec h (AddOp p # ops) ps = queue_spec h ops (ps @ [p])"
| "queue_spec h (RemoveOp i # ops) ps =
     (let (bs, qs) = queue_spec h ops (filter (\<lambda>p. ord_id (the (h p)) \<noteq> i) ps)
      in ((i \<in> set (ids_of h ps)) # bs, qs))"

text \<open>Only orders with new ids are added, and never to a queue that has become empty.\<close>

fun queue_ops_ok :: "order_store \<Rightarrow> queue_op list \<Rightarrow> order_ptr list \<Rightarrow> bool" where
  "queue_ops_ok h [] ps \<longleftrightarrow> True"
| "queue_ops_ok h (AddOp p # ops) ps \<longleftrightarrow> ps \<noteq> [] \<and> h p \<noteq> None \<and> ord_id (the (h p)) \<notin> set (ids_of h ps) \<and>
     queue_ops_ok h ops (ps @ [p])"
| "queue_ops_ok h (RemoveOp i # ops) ps \<longleftrightarrow> queue_ops_ok h ops (filter (\<lambda>p. ord_id (the (h p)) \<noteq> i) ps)"

lemma remove1_id:
  assumes "distinct (ids_of h ps)" "p \<in> set ps"
  shows "remove1 p ps = filter (\<lambda>q. ord_id (the (h q)) \<noteq> ord_id (the (h p))) ps"
proof -
  have "distinct ps" by (rule distinct_ids_of [OF assms(1)])
  moreover have "q \<noteq> p \<longleftrightarrow> ord_id (the (h q)) \<noteq> ord_id (the (h p))" if "q \<in> set ps" for q
    using assms that by (auto simp: ids_of_def distinct_map inj_on_def)
  ultimately show ?thesis by (simp add: distinct_remove1_filter cong: filter_cong)
qed

locale order_queue =
  fixes inv :: "order_store \<Rightarrow> 'l \<Rightarrow> bool"
    and ready :: "'l \<Rightarrow> bool"
    and live :: "'l \<Rightarrow> order_ptr list"
    and add :: "order_store \<Rightarrow> order_ptr \<Rightarrow> 'l \<Rightarrow> 'l result"
    and remove :: "order_id \<Rightarrow> 'l \<Rightarrow> (bool \<times> 'l) result"
    and front :: "'l \<Rightarrow> order_ptr result"
    and size :: "'l \<Rightarrow> nat"
  assumes inv_allocated: "inv h l \<Longrightarrow> allocated h (live l)"
    and inv_distinct: "inv h l \<Longrightarrow> distinct (ids_of h (live l))"
    and inv_same_ids: "inv h l \<Longrightarrow> same_ids h h' (live l) \<Longrightarrow> inv h' l"
    and nonempty_ready: "inv h l \<Longrightarrow> live l \<noteq> [] \<Longrightarrow> ready l"
    and add_law: "inv h l \<Longrightarrow> ready l \<Longrightarrow> h p = Some ord \<Longrightarrow> ord_id ord \<notin> set (ids_of h (live l)) \<Longrightarrow>
      \<exists>l'. add h p l = Inr l' \<and> inv h l' \<and> live l' = live l @ [p]"
    and remove_law: "inv h l \<Longrightarrow> p \<in> set (live l) \<Longrightarrow> h p = Some ord \<Longrightarrow>
      \<exists>l'. remove (ord_id ord) l = Inr (True, l') \<and> inv h l' \<and> live l' = remove1 p (live l)"
    and remove_absent: "inv h l \<Longrightarrow> i \<notin> set (ids_of h (live l)) \<Longrightarrow> remove i l = Inr (False, l)"
    and front_law: "inv h l \<Longrightarrow> live l \<noteq> [] \<Longrightarrow> front l = Inr (hd (live l))"
    and size_law: "inv h l \<Longrightarrow> size l = length (live l)"
begin

lemma live_distinct: "inv h l \<Longrightarrow> distinct (live l)"
  using inv_distinct distinct_ids_of by blast

lemma live_allocated: "inv h l \<Longrightarrow> p \<in> set (live l) \<Longrightarrow> \<exists>ord. h p = Some ord"
  using inv_allocated by (fastforce simp: allocated_def)

text \<open>A removal answers whether the id was queued, and leaves the other orders in their places.\<close>

lemma remove_any:
  assumes inv: "inv h l"
  shows "\<exists>l1. remove i l = Inr (i \<in> set (ids_of h (live l)), l1) \<and> inv h l1 \<and>
    live l1 = filter (\<lambda>p. ord_id (the (h p)) \<noteq> i) (live l)"
proof (cases "i \<in> set (ids_of h (live l))")
  case True
  then obtain p ord where p: "p \<in> set (live l)" "h p = Some ord" "ord_id ord = i"
    using live_allocated inv by (fastforce simp: ids_of_def)
  then show ?thesis using remove_law [OF inv p(1,2)] True remove1_id [OF inv_distinct [OF inv] p(1)] by auto
next
  case False
  then have "filter (\<lambda>p. ord_id (the (h p)) \<noteq> i) (live l) = live l" by (intro filter_True) (auto simp: ids_of_def)
  then show ?thesis using remove_absent [OF inv False] False inv by simp
qed

fun run_ops :: "order_store \<Rightarrow> queue_op list \<Rightarrow> 'l \<Rightarrow> (bool list \<times> 'l) result" where
  "run_ops h [] l = Inr ([], l)"
| "run_ops h (AddOp p # ops) l = rbind (add h p l) (run_ops h ops)"
| "run_ops h (RemoveOp i # ops) l =
     rbind (remove i l) (\<lambda>(b, l1). rbind (run_ops h ops l1) (\<lambda>(bs, l2). Inr (b # bs, l2)))"

lemma run_ops_spec:
  "inv h l \<Longrightarrow> queue_ops_ok h ops (live l) \<Longrightarrow>
     \<exists>l'. run_ops h ops l = Inr (fst (queue_spec h ops (live l)), l') \<and> inv h l' \<and>
       live l' = snd (queue_spec h ops (live l))"
proof (induction ops arbitrary: l)
  case Nil
  then show ?case by simp
next
  case (Cons op ops)
  show ?case
  proof (cases op)
    case (AddOp p)
    then obtain ord where "h p = Some ord" "ord_id ord \<notin> set (ids_of h (live l))" "live l \<noteq> []"
      using Cons.prems(2) by auto
    then obtain l1 where l1: "add h p l = Inr l1" "inv h l1" "live l1 = live l @ [p]"
      using add_law nonempty_ready Cons.prems(1) by blast
    then show ?thesis using Cons.IH [OF l1(2)] Cons.prems(2) AddOp by simp
  next
    case (RemoveOp i)
    let ?ps = "filter (\<lambda>p. ord_id (the (h p)) \<noteq> i) (live l)"
    obtain l1 where l1: "remove i l = Inr (i \<in> set (ids_of h (live l)), l1)" "inv h l1" "live l1 = ?ps"
      using remove_any [OF Cons.prems(1)] by blast
    then show ?thesis using Cons.IH [OF l1(2)] Cons.prems(2) RemoveOp by (auto simp: split_beta)
  qed
qed

text \<open>Removing an order of a queue that has another, and appending it again: it loses its turn.\<close>

lemma requeue:
  assumes "inv h l" "p \<in> set (live l)" "h p = Some ord" "live l \<noteq> [p]"
  shows "\<exists>l1 l2. remove (ord_id ord) l = Inr (True, l1) \<and> add h p l1 = Inr l2 \<and> inv h l2 \<and>
    live l2 = remove1 p (live l) @ [p]"
proof -
  obtain l1 where l1: "remove (ord_id ord) l = Inr (True, l1)" "inv h l1"
      "live l1 = remove1 p (live l)"
    using remove_law assms(1-3) by blast
  obtain xs ys where l: "live l = xs @ p # ys" "p \<notin> set xs"
    using split_list_first [OF assms(2)] by blast
  have "live l1 \<noteq> []" using l l1(3) assms(4) by (auto simp: remove1_middle)
  then have "ready l1" using nonempty_ready l1(2) by blast
  moreover have "ord_id ord \<notin> set (ids_of h (live l1))"
    using inv_distinct [OF assms(1)] assms(3) l l1(3) by (auto simp: remove1_middle)
  ultimately show ?thesis using add_law l1 assms(3) by metis
qed

end

locale matching_queue = order_queue +
  fixes pop :: "order_store \<Rightarrow> 'a \<Rightarrow> 'a result"
  assumes pop_filled: "inv h l \<Longrightarrow> live l = p # ps \<Longrightarrow> h p = Some ord \<Longrightarrow>
      ord_status ord = FULLY_FILLED \<Longrightarrow> \<exists>l'. pop h l = Inr l' \<and> inv h l' \<and> live l' = ps"
    and pop_unfilled: "inv h l \<Longrightarrow> live l = p # ps \<Longrightarrow> h p = Some ord \<Longrightarrow>
      ord_status ord \<noteq> FULLY_FILLED \<Longrightarrow> pop h l = Inr l"
    and pop_empty: "inv h l \<Longrightarrow> live l = [] \<Longrightarrow> pop h l = Inr l"
begin

text \<open>Popping never faults, and never drops an order that is not filled.\<close>

lemma pop_total:
  assumes "inv h l"
  shows "\<exists>l'. pop h l = Inr l' \<and> inv h l' \<and>
    live l' = (case live l of [] \<Rightarrow> []
               | p # ps \<Rightarrow> if ord_status (the (h p)) = FULLY_FILLED then ps else p # ps)"
proof (cases "live l")
  case Nil
  then show ?thesis using pop_empty assms by simp
next
  case (Cons p ps)
  then obtain ord where "h p = Some ord" using live_allocated assms by fastforce
  then show ?thesis
    using pop_filled [OF assms Cons] pop_unfilled [OF assms Cons] Cons assms
    by (cases "ord_status ord = FULLY_FILLED") auto
qed

end

end
