(* ===== verification/Price_Level_V2.thy ===== *)
theory Price_Level_V2
  imports Order_Queue
begin

text \<open>
  \<open>include/price_level_v2.h\<close>: the price level that the order book uses. The orders of a level are
  the entries of a vector in order of arrival; a removal marks its entry invalid and moves the
  head index past invalid entries, and a hash map gives the index of each queued id. The locale
  \<open>matching_queue\<close> is interpreted here: a level is a first-in first-out queue of the orders at its
  valid entries, as long as its head index is at the first of them.
\<close>

section \<open>State and operations\<close>

record order_entry =
  ent_is_valid :: bool
  ent_order :: order_ptr

definition new_order_entry :: "order_ptr \<Rightarrow> order_entry" where
  "new_order_entry p = \<lparr>ent_is_valid = True, ent_order = p\<rparr>"

record price_level =
  lvl_price :: price
  lvl_order_entries :: "order_entry list"
  lvl_queue_head_index :: nat
  lvl_orders_map :: "(order_id \<times> nat) list"

text \<open>The constructor; the sizes that it reserves have no effect on the contents.\<close>

definition new_price_level :: "price \<Rightarrow> price_level" where
  "new_price_level price =
     \<lparr>lvl_price = price, lvl_order_entries = [], lvl_queue_head_index = 0, lvl_orders_map = []\<rparr>"

definition level_add_order :: "order_store \<Rightarrow> order_ptr \<Rightarrow> price_level \<Rightarrow> price_level result" where
  "level_add_order h p lv =
     rbind (deref h p) (\<lambda>ord.
       let order_id = ord_id ord;
           entries = lvl_order_entries lv @ [new_order_entry p]
       in Inr (lv\<lparr>lvl_order_entries := entries,
                  lvl_orders_map := AList.update order_id (length entries - 1) (lvl_orders_map lv)\<rparr>))"

definition level_size :: "price_level \<Rightarrow> nat" where
  "level_size lv = length (lvl_orders_map lv)"

definition level_empty :: "price_level \<Rightarrow> bool" where
  "level_empty lv \<longleftrightarrow> lvl_orders_map lv = []"

text \<open>The loop of \<open>increment_to_valid\<close>; it leaves the vector when no entry is valid.\<close>

function skip_invalid :: "order_entry list \<Rightarrow> nat \<Rightarrow> nat result" where
  "skip_invalid es i =
     (if i \<ge> length es then Inl (Undefined OutOfRange)
      else if \<not> ent_is_valid (es ! i) then skip_invalid es (Suc i)
      else Inr i)"
  by pat_completeness auto
termination
  by (relation "measure (\<lambda>(es, i). length es - i)") auto

declare skip_invalid.simps [simp del]

definition increment_to_valid :: "price_level \<Rightarrow> price_level result" where
  "increment_to_valid lv =
     (if level_empty lv then Inr lv
      else rbind (skip_invalid (lvl_order_entries lv) (lvl_queue_head_index lv))
        (\<lambda>i. Inr (lv\<lparr>lvl_queue_head_index := i\<rparr>)))"

definition level_remove_order :: "order_id \<Rightarrow> price_level \<Rightarrow> (bool \<times> price_level) result" where
  "level_remove_order order_id lv =
     (case map_of (lvl_orders_map lv) order_id of
        None \<Rightarrow> Inr (False, lv)
      | Some i \<Rightarrow>
          rbind (assert_or (i < length (lvl_order_entries lv)) OutOfRange) (\<lambda>_.
          rbind (increment_to_valid
                  (lv\<lparr>lvl_order_entries :=
                        (lvl_order_entries lv)[i := (lvl_order_entries lv ! i)\<lparr>ent_is_valid := False\<rparr>],
                      lvl_orders_map := AList.delete order_id (lvl_orders_map lv)\<rparr>))
            (\<lambda>lv'. Inr (True, lv'))))"

definition level_front :: "price_level \<Rightarrow> order_ptr result" where
  "level_front lv =
     rbind (assert_or (lvl_queue_head_index lv < length (lvl_order_entries lv)) OutOfRange)
       (\<lambda>_. Inr (ent_order (lvl_order_entries lv ! lvl_queue_head_index lv)))"

text \<open>
  The erase goes through an iterator that \<open>find\<close> returns: when the id is not in the map this is
  \<open>end()\<close>, which must not be erased.
\<close>

definition pop_front_order_if_filled :: "order_store \<Rightarrow> price_level \<Rightarrow> price_level result" where
  "pop_front_order_if_filled h lv =
     (if level_empty lv then Inr lv
      else
        rbind (assert_or (lvl_queue_head_index lv < length (lvl_order_entries lv)) OutOfRange) (\<lambda>_.
        let i = lvl_queue_head_index lv; entry = lvl_order_entries lv ! i in
        rbind (deref h (ent_order entry)) (\<lambda>ord.
        if ord_status ord = FULLY_FILLED then
          rbind (assert_or (map_of (lvl_orders_map lv) (ord_id ord) \<noteq> None) EndIterator) (\<lambda>_.
          increment_to_valid
            (lv\<lparr>lvl_orders_map := AList.delete (ord_id ord) (lvl_orders_map lv),
                lvl_order_entries := (lvl_order_entries lv)[i := entry\<lparr>ent_is_valid := False\<rparr>]\<rparr>))
        else Inr lv)))"

text \<open>\<open>total_qty\<close> adds up, in 64 bits, what the valid entries have left to fill.\<close>

fun sum_available :: "order_store \<Rightarrow> order_entry list \<Rightarrow> quantity \<Rightarrow> quantity result" where
  "sum_available h [] qty = Inr qty"
| "sum_available h (e # es) qty =
     (if \<not> ent_is_valid e then sum_available h es qty
      else rbind (deref h (ent_order e)) (\<lambda>ord. sum_available h es (qty + available ord)))"

definition total_qty :: "order_store \<Rightarrow> price_level \<Rightarrow> quantity result" where
  "total_qty h lv = sum_available h (lvl_order_entries lv) 0"

section \<open>The invariant\<close>

definition live :: "price_level \<Rightarrow> order_ptr list" where
  "live lv = map ent_order (filter ent_is_valid (lvl_order_entries lv))"

text \<open>The hash map holds exactly the indices of the valid entries, each under its order's id.\<close>

definition index_ok :: "order_store \<Rightarrow> order_entry list \<Rightarrow> (order_id \<times> nat) list \<Rightarrow> bool" where
  "index_ok h es m \<longleftrightarrow>
     distinct (map fst m) \<and>
     (\<forall>k i. (k, i) \<in> set m \<longleftrightarrow>
        i < length es \<and> ent_is_valid (es ! i) \<and> map_option ord_id (h (ent_order (es ! i))) = Some k) \<and>
     (\<forall>i < length es. ent_is_valid (es ! i) \<longrightarrow> h (ent_order (es ! i)) \<noteq> None)"

definition head_ok :: "price_level \<Rightarrow> bool" where
  "head_ok lv \<longleftrightarrow>
     lvl_queue_head_index lv \<le> length (lvl_order_entries lv) \<and>
     (\<forall>i < lvl_queue_head_index lv. \<not> ent_is_valid (lvl_order_entries lv ! i)) \<and>
     (\<not> level_empty lv \<longrightarrow>
        lvl_queue_head_index lv < length (lvl_order_entries lv) \<and>
        ent_is_valid (lvl_order_entries lv ! lvl_queue_head_index lv))"

definition level_inv :: "order_store \<Rightarrow> price_level \<Rightarrow> bool" where
  "level_inv h lv \<longleftrightarrow> index_ok h (lvl_order_entries lv) (lvl_orders_map lv) \<and> head_ok lv"

definition level_ready :: "price_level \<Rightarrow> bool" where
  "level_ready lv \<longleftrightarrow>
     \<not> level_empty lv \<or> lvl_queue_head_index lv = length (lvl_order_entries lv)"

lemma new_price_level_inv [simp]:
  "level_inv h (new_price_level p)" "level_ready (new_price_level p)" "live (new_price_level p) = []"
  by (simp_all add: level_inv_def index_ok_def head_ok_def level_ready_def new_price_level_def
      level_empty_def live_def)

lemma index_ok_iff:
  "index_ok h es m \<Longrightarrow> (k, i) \<in> set m \<longleftrightarrow>
     i < length es \<and> ent_is_valid (es ! i) \<and> (\<exists>ord. h (ent_order (es ! i)) = Some ord \<and> ord_id ord = k)"
  by (auto simp: index_ok_def)

lemma index_okD:
  assumes "index_ok h es m" "i < length es" "ent_is_valid (es ! i)"
  obtains ord where "h (ent_order (es ! i)) = Some ord" "(ord_id ord, i) \<in> set m"
    "map_of m (ord_id ord) = Some i"
proof -
  obtain ord where h: "h (ent_order (es ! i)) = Some ord" using assms by (auto simp: index_ok_def)
  then have "(ord_id ord, i) \<in> set m" using assms by (auto simp: index_ok_iff)
  moreover have "distinct (map fst m)" using assms by (simp add: index_ok_def)
  ultimately show ?thesis using h that by (auto simp: map_of_is_SomeI)
qed

lemma index_ok_inj:
  assumes "index_ok h es m" "i < length es" "j < length es" "ent_is_valid (es ! i)" "ent_is_valid (es ! j)"
    "map_option ord_id (h (ent_order (es ! i))) = map_option ord_id (h (ent_order (es ! j)))"
  shows "i = j"
proof -
  obtain a where a: "h (ent_order (es ! i)) = Some a" "map_of m (ord_id a) = Some i"
    using index_okD assms by blast
  obtain b where b: "h (ent_order (es ! j)) = Some b" "map_of m (ord_id b) = Some j"
    using index_okD assms by blast
  show ?thesis using a b assms(6) by simp
qed

lemma index_ok_length:
  assumes "index_ok h es m"
  shows "length m = length (filter ent_is_valid es)"
proof -
  let ?V = "{i. i < length es \<and> ent_is_valid (es ! i)}"
  have "bij_betw snd (set m) ?V"
  proof (rule bij_betw_imageI)
    show "inj_on snd (set m)"
      using assms by (auto simp: inj_on_def index_ok_iff)
    show "snd ` set m = ?V"
    proof (intro set_eqI iffI)
      fix i
      assume "i \<in> snd ` set m"
      then obtain k where "(k, i) \<in> set m" by auto
      then show "i \<in> ?V" using index_ok_iff [OF assms, of k i] by simp
    next
      fix i
      assume "i \<in> ?V"
      then have "i < length es" "ent_is_valid (es ! i)" by simp_all
      then obtain ord where "h (ent_order (es ! i)) = Some ord" "(ord_id ord, i) \<in> set m"
        "map_of m (ord_id ord) = Some i" by (rule index_okD [OF assms])
      then show "i \<in> snd ` set m" using image_eqI [of i snd "(ord_id ord, i)" "set m"] by simp
    qed
  qed
  then have "card (set m) = card ?V" by (rule bij_betw_same_card)
  moreover have "card (set m) = length m"
    using assms distinct_card [of m] by (auto simp: index_ok_def distinct_map)
  ultimately show ?thesis by (simp add: length_filter_conv_card)
qed

lemma level_size_live: "level_inv h lv \<Longrightarrow> level_size lv = length (live lv)"
  using index_ok_length [of h "lvl_order_entries lv" "lvl_orders_map lv"]
  by (simp add: level_size_def live_def level_inv_def)

lemma level_empty_live: "level_inv h lv \<Longrightarrow> level_empty lv \<longleftrightarrow> live lv = []"
  using level_size_live [of h lv] by (auto simp: level_size_def level_empty_def)


section \<open>Every operation keeps the invariant\<close>

lemma skip_invalid_finds:
  assumes "i \<le> j" "j < length es" "ent_is_valid (es ! j)"
  shows "\<exists>k. skip_invalid es i = Inr k \<and> i \<le> k \<and> k < length es \<and> ent_is_valid (es ! k) \<and>
    (\<forall>n. i \<le> n \<and> n < k \<longrightarrow> \<not> ent_is_valid (es ! n))"
  using assms
proof (induction es i rule: skip_invalid.induct)
  case (1 es i)
  show ?case
  proof (cases "ent_is_valid (es ! i)")
    case True
    then show ?thesis using "1.prems" by (auto simp: skip_invalid.simps [of es i])
  next
    case False
    then have "i \<noteq> j" using "1.prems" by auto
    then have le: "\<not> length es \<le> i" "Suc i \<le> j" using "1.prems" by simp_all
    obtain k where k: "skip_invalid es (Suc i) = Inr k" "Suc i \<le> k" "k < length es"
        "ent_is_valid (es ! k)" "\<forall>n. Suc i \<le> n \<and> n < k \<longrightarrow> \<not> ent_is_valid (es ! n)"
      using "1.IH" [OF le(1) False le(2) "1.prems"(2,3)] by blast
    have "\<not> ent_is_valid (es ! n)" if "i \<le> n" "n < k" for n
      using that k(5) False by (cases "n = i") auto
    then show ?thesis using k False "1.prems" by (auto simp: skip_invalid.simps [of es i])
  qed
qed

text \<open>From entries and map that agree, and a head not past a valid entry, the loop restores the head.\<close>

lemma increment_restores:
  assumes ok: "index_ok h (lvl_order_entries lv) (lvl_orders_map lv)"
    and le: "lvl_queue_head_index lv \<le> length (lvl_order_entries lv)"
    and before: "\<And>i. i < lvl_queue_head_index lv \<Longrightarrow> \<not> ent_is_valid (lvl_order_entries lv ! i)"
  shows "\<exists>n. increment_to_valid lv = Inr (lv\<lparr>lvl_queue_head_index := n\<rparr>) \<and>
    level_inv h (lv\<lparr>lvl_queue_head_index := n\<rparr>)"
proof (cases "level_empty lv")
  case True
  then show ?thesis using assms
    by (intro exI [of _ "lvl_queue_head_index lv"])
      (auto simp: increment_to_valid_def level_inv_def head_ok_def level_empty_def)
next
  case False
  then obtain k j where "(k, j) \<in> set (lvl_orders_map lv)"
    by (metis level_empty_def list.set_intros(1) neq_Nil_conv surj_pair)
  then have j: "j < length (lvl_order_entries lv)" "ent_is_valid (lvl_order_entries lv ! j)"
    using ok by (auto simp: index_ok_iff)
  then have "lvl_queue_head_index lv \<le> j" using before not_less by blast
  from skip_invalid_finds [OF this j] obtain n where n:
      "skip_invalid (lvl_order_entries lv) (lvl_queue_head_index lv) = Inr n"
      "n < length (lvl_order_entries lv)" "ent_is_valid (lvl_order_entries lv ! n)"
      "\<And>i. lvl_queue_head_index lv \<le> i \<Longrightarrow> i < n \<Longrightarrow> \<not> ent_is_valid (lvl_order_entries lv ! i)"
    by blast
  then have "\<not> ent_is_valid (lvl_order_entries lv ! i)" if "i < n" for i
    using that before not_less by blast
  then show ?thesis using n ok False
    by (intro exI [of _ n])
      (auto simp: increment_to_valid_def level_inv_def head_ok_def level_empty_def)
qed

text \<open>Dropping the entry at a valid index, as a removal and a pop both do.\<close>

definition drop_entry :: "order_id \<Rightarrow> nat \<Rightarrow> price_level \<Rightarrow> price_level" where
  "drop_entry k i lv =
     lv\<lparr>lvl_order_entries :=
          (lvl_order_entries lv)[i := (lvl_order_entries lv ! i)\<lparr>ent_is_valid := False\<rparr>],
        lvl_orders_map := AList.delete k (lvl_orders_map lv)\<rparr>"

lemma index_ok_drop:
  assumes "index_ok h es m" "(k, i) \<in> set m"
  shows "index_ok h (es[i := (es ! i)\<lparr>ent_is_valid := False\<rparr>]) (AList.delete k m)"
proof -
  have d: "distinct (map fst m)" using assms(1) by (simp add: index_ok_def)
  have "(k', j) \<in> set (AList.delete k m) \<longleftrightarrow> (k', j) \<in> set m \<and> j \<noteq> i" for k' j
  proof -
    have "k' = k \<longleftrightarrow> j = i" if "(k', j) \<in> set m"
      using that assms d eq_key_imp_eq_value [of m k j i] index_ok_iff [OF assms(1)] by auto
    then show ?thesis by (auto simp: AList.delete_eq)
  qed
  then show ?thesis
    using assms distinct_delete [OF d]
    by (auto simp: index_ok_def nth_list_update)
qed

lemma live_split:
  assumes "index_ok h (lvl_order_entries lv) (lvl_orders_map lv)" "i < length (lvl_order_entries lv)"
    "ent_is_valid (lvl_order_entries lv ! i)"
  obtains xs ys where "live lv = xs @ ent_order (lvl_order_entries lv ! i) # ys"
    "live (drop_entry k i lv) = xs @ ys"
proof
  let ?es = "lvl_order_entries lv"
  let ?xs = "map ent_order (filter ent_is_valid (take i ?es))"
  let ?ys = "map ent_order (filter ent_is_valid (drop (Suc i) ?es))"
  show "live lv = ?xs @ ent_order (?es ! i) # ?ys"
    using filter_split_at [of i ?es ent_is_valid] assms by (simp add: live_def)
  show "live (drop_entry k i lv) = ?xs @ ?ys"
    using filter_map_update_drop [of i ?es ent_is_valid] assms
    by (simp add: live_def drop_entry_def)
qed

lemma drop_entry_increment:
  assumes inv: "level_inv h lv" and mem: "(k, i) \<in> set (lvl_orders_map lv)"
  shows "\<exists>lv'. increment_to_valid (drop_entry k i lv) = Inr lv' \<and> level_inv h lv' \<and>
    live lv' = live (drop_entry k i lv)"
proof -
  have ok: "index_ok h (lvl_order_entries lv) (lvl_orders_map lv)" and hd: "head_ok lv"
    using inv by (simp_all add: level_inv_def)
  have "\<exists>n. increment_to_valid (drop_entry k i lv) = Inr ((drop_entry k i lv)\<lparr>lvl_queue_head_index := n\<rparr>) \<and>
      level_inv h ((drop_entry k i lv)\<lparr>lvl_queue_head_index := n\<rparr>)"
  proof (rule increment_restores)
    show "index_ok h (lvl_order_entries (drop_entry k i lv)) (lvl_orders_map (drop_entry k i lv))"
      using index_ok_drop [OF ok mem] by (simp add: drop_entry_def)
    show "lvl_queue_head_index (drop_entry k i lv) \<le> length (lvl_order_entries (drop_entry k i lv))"
      using hd by (simp add: drop_entry_def head_ok_def)
    show "\<not> ent_is_valid (lvl_order_entries (drop_entry k i lv) ! j)"
      if "j < lvl_queue_head_index (drop_entry k i lv)" for j
      using that hd by (cases "j = i") (auto simp: drop_entry_def head_ok_def nth_list_update)
  qed
  then show ?thesis by (auto simp: live_def)
qed


section \<open>A level is a first-in first-out queue\<close>

lemma live_mem:
  "p \<in> set (live lv) \<longleftrightarrow>
     (\<exists>i < length (lvl_order_entries lv). ent_is_valid (lvl_order_entries lv ! i) \<and>
        p = ent_order (lvl_order_entries lv ! i))"
  by (auto simp: live_def in_set_conv_nth)

lemma level_allocated: "level_inv h lv \<Longrightarrow> allocated h (live lv)"
  by (auto simp: allocated_def live_mem level_inv_def index_ok_def)

lemma set_ids_of_live:
  assumes "level_inv h lv"
  shows "set (ids_of h (live lv)) = fst ` set (lvl_orders_map lv)"
proof -
  have ok: "index_ok h (lvl_order_entries lv) (lvl_orders_map lv)"
    using assms by (simp add: level_inv_def)
  show ?thesis
  proof (intro set_eqI iffI)
    fix k
    assume "k \<in> set (ids_of h (live lv))"
    then obtain i where i: "i < length (lvl_order_entries lv)" "ent_is_valid (lvl_order_entries lv ! i)"
        "k = ord_id (the (h (ent_order (lvl_order_entries lv ! i))))"
      by (auto simp: ids_of_def live_mem)
    then obtain ord where "h (ent_order (lvl_order_entries lv ! i)) = Some ord"
      "(ord_id ord, i) \<in> set (lvl_orders_map lv)" using index_okD [OF ok] by metis
    then show "k \<in> fst ` set (lvl_orders_map lv)" using i(3) by force
  next
    fix k
    assume "k \<in> fst ` set (lvl_orders_map lv)"
    then obtain i where "(k, i) \<in> set (lvl_orders_map lv)" by auto
    then have i: "i < length (lvl_order_entries lv)" "ent_is_valid (lvl_order_entries lv ! i)"
      "\<exists>ord. h (ent_order (lvl_order_entries lv ! i)) = Some ord \<and> ord_id ord = k"
      by (simp_all add: index_ok_iff [OF ok])
    then have "ent_order (lvl_order_entries lv ! i) \<in> set (live lv)" by (auto simp: live_mem)
    then show "k \<in> set (ids_of h (live lv))" using i(3) ids_of_mem by blast
  qed
qed

lemma level_ids_distinct:
  assumes "level_inv h lv"
  shows "distinct (ids_of h (live lv))"
proof (rule card_distinct)
  have "card (set (ids_of h (live lv))) = length (map fst (lvl_orders_map lv))"
    using assms distinct_card [of "map fst (lvl_orders_map lv)"]
    by (simp add: set_ids_of_live level_inv_def index_ok_def)
  then show "card (set (ids_of h (live lv))) = length (ids_of h (live lv))"
    using level_size_live [OF assms] by (simp add: level_size_def ids_of_def)
qed

lemma level_same_ids:
  assumes "level_inv h lv" "same_ids h h' (live lv)"
  shows "level_inv h' lv"
proof -
  let ?es = "lvl_order_entries lv"
  have "map_option ord_id (h' (ent_order (?es ! i))) = map_option ord_id (h (ent_order (?es ! i)))"
    "h' (ent_order (?es ! i)) \<noteq> None"
    if "i < length ?es" "ent_is_valid (?es ! i)" for i
  proof -
    have "ent_order (?es ! i) \<in> set (live lv)" using that by (auto simp: live_mem)
    moreover obtain ord where "h (ent_order (?es ! i)) = Some ord"
      using level_allocated [OF assms(1)] calculation by (auto simp: allocated_def)
    ultimately show "map_option ord_id (h' (ent_order (?es ! i))) = map_option ord_id (h (ent_order (?es ! i)))"
      "h' (ent_order (?es ! i)) \<noteq> None"
      using assms(2) by (auto simp: same_ids_def)
  qed
  then show ?thesis using assms(1) by (simp add: level_inv_def index_ok_def cong: conj_cong)
qed

lemma level_nonempty_ready: "level_inv h lv \<Longrightarrow> live lv \<noteq> [] \<Longrightarrow> level_ready lv"
  by (simp add: level_ready_def level_empty_live)

lemma level_add_law:
  assumes inv: "level_inv h lv" and ready: "level_ready lv"
    and p: "h p = Some ord" and new: "ord_id ord \<notin> set (ids_of h (live lv))"
  shows "\<exists>lv'. level_add_order h p lv = Inr lv' \<and> level_inv h lv' \<and> live lv' = live lv @ [p]"
proof -
  let ?es = "lvl_order_entries lv" and ?m = "lvl_orders_map lv"
  let ?lv = "lv\<lparr>lvl_order_entries := ?es @ [new_order_entry p],
                lvl_orders_map := ?m @ [(ord_id ord, length ?es)]\<rparr>"
  have ok: "index_ok h ?es ?m" and hd: "head_ok lv" using inv by (simp_all add: level_inv_def)
  have fresh: "ord_id ord \<notin> fst ` set ?m" using new by (simp add: set_ids_of_live [OF inv])
  have add: "level_add_order h p lv = Inr ?lv"
    using p by (simp add: level_add_order_def update_fresh [OF fresh])
  have "index_ok h (?es @ [new_order_entry p]) (?m @ [(ord_id ord, length ?es)])"
    using ok fresh p by (auto simp: index_ok_def nth_append new_order_entry_def less_Suc_eq)
  moreover have "head_ok ?lv"
    using hd ready by (auto simp: head_ok_def level_ready_def level_empty_def nth_append new_order_entry_def)
  ultimately have "level_inv h ?lv" by (simp add: level_inv_def)
  then show ?thesis using add by (auto simp: live_def new_order_entry_def)
qed

lemma drop_live:
  assumes inv: "level_inv h lv" and i: "i < length (lvl_order_entries lv)"
    "ent_is_valid (lvl_order_entries lv ! i)"
  shows "live (drop_entry k i lv) = remove1 (ent_order (lvl_order_entries lv ! i)) (live lv)"
proof -
  have "index_ok h (lvl_order_entries lv) (lvl_orders_map lv)" using inv by (simp add: level_inv_def)
  then obtain xs ys where l: "live lv = xs @ ent_order (lvl_order_entries lv ! i) # ys"
      "live (drop_entry k i lv) = xs @ ys"
    using live_split i by blast
  moreover have "distinct (live lv)" using distinct_ids_of level_ids_distinct inv by blast
  ultimately show ?thesis by (simp add: remove1_middle)
qed

lemma level_remove_law:
  assumes inv: "level_inv h lv" and p: "p \<in> set (live lv)" "h p = Some ord"
  shows "\<exists>lv'. level_remove_order (ord_id ord) lv = Inr (True, lv') \<and> level_inv h lv' \<and>
    live lv' = remove1 p (live lv)"
proof -
  have ok: "index_ok h (lvl_order_entries lv) (lvl_orders_map lv)" using inv by (simp add: level_inv_def)
  obtain i where i: "i < length (lvl_order_entries lv)" "ent_is_valid (lvl_order_entries lv ! i)"
      "p = ent_order (lvl_order_entries lv ! i)"
    using p(1) by (auto simp: live_mem)
  then have m: "(ord_id ord, i) \<in> set (lvl_orders_map lv)" "map_of (lvl_orders_map lv) (ord_id ord) = Some i"
    using index_okD [OF ok i(1,2)] p(2) by auto
  obtain lv' where "increment_to_valid (drop_entry (ord_id ord) i lv) = Inr lv'" "level_inv h lv'"
      "live lv' = live (drop_entry (ord_id ord) i lv)"
    using drop_entry_increment [OF inv m(1)] by blast
  then show ?thesis
    using m(2) i drop_live [OF inv i(1,2), of "ord_id ord"]
    by (simp add: level_remove_order_def drop_entry_def [symmetric])
qed

lemma level_remove_absent:
  "level_inv h lv \<Longrightarrow> k \<notin> set (ids_of h (live lv)) \<Longrightarrow> level_remove_order k lv = Inr (False, lv)"
  by (simp add: level_remove_order_def set_ids_of_live map_of_None_iff split: option.split)
    (metis map_of_None_iff option.distinct(1))

text \<open>The entry at the head is the first valid one.\<close>

lemma head_is_front:
  assumes "level_inv h lv" "live lv \<noteq> []"
  shows "lvl_queue_head_index lv < length (lvl_order_entries lv)"
    "ent_is_valid (lvl_order_entries lv ! lvl_queue_head_index lv)"
    "hd (live lv) = ent_order (lvl_order_entries lv ! lvl_queue_head_index lv)"
proof -
  let ?n = "lvl_queue_head_index lv" and ?es = "lvl_order_entries lv"
  have hd: "head_ok lv" and ne: "\<not> level_empty lv"
    using assms by (auto simp: level_inv_def level_empty_live [OF assms(1)])
  then show 1: "?n < length ?es" "ent_is_valid (?es ! ?n)" by (simp_all add: head_ok_def)
  have "filter ent_is_valid (take ?n ?es) = []"
    using hd by (auto simp: head_ok_def filter_empty_conv in_set_conv_nth)
  then show "hd (live lv) = ent_order (?es ! ?n)"
    using filter_split_at [of ?n ?es ent_is_valid] 1 by (simp add: live_def)
qed

lemma level_front_law: "level_inv h lv \<Longrightarrow> live lv \<noteq> [] \<Longrightarrow> level_front lv = Inr (hd (live lv))"
  using head_is_front by (simp add: level_front_def)

lemma level_pop_filled:
  assumes inv: "level_inv h lv" and l: "live lv = p # ps" and p: "h p = Some ord"
    and full: "ord_status ord = FULLY_FILLED"
  shows "\<exists>lv'. pop_front_order_if_filled h lv = Inr lv' \<and> level_inv h lv' \<and> live lv' = ps"
proof -
  let ?n = "lvl_queue_head_index lv"
  have ok: "index_ok h (lvl_order_entries lv) (lvl_orders_map lv)" using inv by (simp add: level_inv_def)
  note hd = head_is_front [OF inv]
  have n: "?n < length (lvl_order_entries lv)" "ent_is_valid (lvl_order_entries lv ! ?n)"
      "p = ent_order (lvl_order_entries lv ! ?n)"
    using hd l by auto
  have m: "(ord_id ord, ?n) \<in> set (lvl_orders_map lv)" "map_of (lvl_orders_map lv) (ord_id ord) = Some ?n"
    using index_okD [OF ok n(1,2)] n(3) p by auto
  obtain lv' where lv': "increment_to_valid (drop_entry (ord_id ord) ?n lv) = Inr lv'" "level_inv h lv'"
      "live lv' = live (drop_entry (ord_id ord) ?n lv)"
    using drop_entry_increment [OF inv m(1)] by blast
  have eq: "drop_entry (ord_id ord) ?n lv =
      lv\<lparr>lvl_orders_map := AList.delete (ord_id ord) (lvl_orders_map lv),
         lvl_order_entries := (lvl_order_entries lv)[?n := (lvl_order_entries lv ! ?n)\<lparr>ent_is_valid := False\<rparr>]\<rparr>"
    by (simp add: drop_entry_def)
  have ne: "\<not> level_empty lv" using l level_empty_live [OF inv] by simp
  have "pop_front_order_if_filled h lv = Inr lv'"
    using n p full m(2) lv'(1) ne by (simp add: pop_front_order_if_filled_def eq)
  then show ?thesis using lv' drop_live [OF inv n(1,2), of "ord_id ord"] n(3) l by simp
qed

lemma level_pop_unfilled:
  assumes inv: "level_inv h lv" and l: "live lv = p # ps" and p: "h p = Some ord"
    and "ord_status ord \<noteq> FULLY_FILLED"
  shows "pop_front_order_if_filled h lv = Inr lv"
  using head_is_front [OF inv] assms by (simp add: pop_front_order_if_filled_def)

lemma level_pop_empty: "level_inv h lv \<Longrightarrow> live lv = [] \<Longrightarrow> pop_front_order_if_filled h lv = Inr lv"
  by (simp add: pop_front_order_if_filled_def level_empty_live)

interpretation lv2: matching_queue
  level_inv level_ready live level_add_order level_remove_order level_front level_size
  pop_front_order_if_filled
  by unfold_locales
    (fact level_allocated level_ids_distinct level_same_ids level_nonempty_ready level_add_law
      level_remove_law level_remove_absent level_front_law level_size_live level_pop_filled
      level_pop_unfilled level_pop_empty)+

text \<open>
  Removing the only order of a level and appending it again breaks the level: with no order left the
  removal does not move the head index, which then stays at an invalid entry. That entry points at the
  same order as the valid one that was appended, with only invalid entries between the two.
\<close>

definition dead_head :: "order_ptr \<Rightarrow> order_id \<Rightarrow> price_level \<Rightarrow> bool" where
  "dead_head p i lv \<longleftrightarrow> i \<in> fst ` set (lvl_orders_map lv) \<and>
     (\<exists>m < length (lvl_order_entries lv). lvl_queue_head_index lv < m \<and>
        ent_order (lvl_order_entries lv ! lvl_queue_head_index lv) = p \<and>
        lvl_order_entries lv ! m = new_order_entry p \<and>
        (\<forall>j. lvl_queue_head_index lv \<le> j \<and> j < m \<longrightarrow> \<not> ent_is_valid (lvl_order_entries lv ! j)))"

lemma requeue_lone:
  assumes inv: "level_inv h lv" and l: "live lv = [p]" and p: "h p = Some ord"
    and h': "h' p = Some ord'" "ord_id ord' = ord_id ord"
  shows "\<exists>lv1 lv2. level_remove_order (ord_id ord) lv = Inr (True, lv1) \<and>
    level_add_order h' p lv1 = Inr lv2 \<and> \<not> level_empty lv2 \<and> \<not> level_inv h'' lv2 \<and> dead_head p (ord_id ord) lv2"
proof -
  let ?n = "lvl_queue_head_index lv" and ?es = "lvl_order_entries lv"
  have ok: "index_ok h ?es (lvl_orders_map lv)" using inv by (simp add: level_inv_def)
  have n: "?n < length ?es" "ent_is_valid (?es ! ?n)" "p = ent_order (?es ! ?n)"
    using head_is_front [OF inv] l by auto
  have m: "(ord_id ord, ?n) \<in> set (lvl_orders_map lv)" "map_of (lvl_orders_map lv) (ord_id ord) = Some ?n"
    using index_okD [OF ok n(1,2)] n(3) p by auto
  have "length (lvl_orders_map lv) = 1" using level_size_live [OF inv] l by (simp add: level_size_def)
  then have one: "lvl_orders_map lv = [(ord_id ord, ?n)]" using m(1) by (cases "lvl_orders_map lv") auto
  let ?lv1 = "drop_entry (ord_id ord) ?n lv"
  have lv1: "lvl_orders_map ?lv1 = []" "lvl_queue_head_index ?lv1 = ?n"
    "lvl_order_entries ?lv1 = ?es[?n := (?es ! ?n)\<lparr>ent_is_valid := False\<rparr>]"
    using one by (simp_all add: drop_entry_def)
  have "increment_to_valid ?lv1 = Inr ?lv1" using lv1 by (simp add: increment_to_valid_def level_empty_def)
  then have rem: "level_remove_order (ord_id ord) lv = Inr (True, ?lv1)"
    using m(2) n(1) by (simp add: level_remove_order_def drop_entry_def [symmetric])
  obtain lv2 where lv2: "level_add_order h' p ?lv1 = Inr lv2" "lvl_queue_head_index lv2 = ?n"
      "lvl_order_entries lv2 = lvl_order_entries ?lv1 @ [new_order_entry p]" "\<not> level_empty lv2"
      "lvl_orders_map lv2 = [(ord_id ord, length ?es)]"
    using h' lv1 by (simp add: level_add_order_def level_empty_def)
  have "\<not> head_ok lv2"
    using lv2(2,4) n(1) by (auto simp: head_ok_def lv2(3) lv1(3) nth_append)
  moreover have "\<not> ent_is_valid (?es ! j)" if "j < length ?es" "j \<noteq> ?n" for j
    using index_okD [OF ok that(1)] that(2) one by auto
  then have "dead_head p (ord_id ord) lv2"
    using n unfolding dead_head_def lv2(2,3,5) lv1(3)
    by (intro conjI exI [of _ "length ?es"]) (auto simp: nth_append nth_list_update)
  ultimately show ?thesis using rem lv2(1,4) by (auto simp: level_inv_def)
qed

section \<open>The quantity waiting at a level\<close>

definition waiting :: "order_store \<Rightarrow> order_ptr list \<Rightarrow> quantity" where
  "waiting h ps = sum_list (map (\<lambda>p. available (the (h p))) ps)"

lemma sum_available_live:
  "allocated h (map ent_order (filter ent_is_valid es)) \<Longrightarrow>
     sum_available h es qty = Inr (qty + waiting h (map ent_order (filter ent_is_valid es)))"
  by (induction es arbitrary: qty) (auto simp: waiting_def allocated_def add.assoc)

lemma total_qty_live: "level_inv h lv \<Longrightarrow> total_qty h lv = Inr (waiting h (live lv))"
  using sum_available_live [of h "lvl_order_entries lv" 0] level_allocated [of h lv]
  by (simp add: total_qty_def live_def)

end
