(* ===== verification/Ordered_Map.thy ===== *)
theory Ordered_Map
  imports Core
begin

text \<open>
  What the order book uses of \<open>std::map\<close>: a map ordered by a comparison \<open>lt\<close> is the list of its
  nodes in iteration order, so that \<open>begin()\<close> is the head. An iterator is the key stored in its
  node. The contract of \<open>std::map\<close> is that the comparison is a strict weak ordering on the keys;
  \<open>std::less<double>\<close> and \<open>std::greater<double>\<close> are one only away from NaN, so the operations are
  undefined on a NaN key (the predicate \<open>ok\<close> of a key). The locale states the contract, its
  lemmas are what the book relies on, and the two interpretations at the end are the two sides.
\<close>

section \<open>Operations\<close>

fun map_find :: "('k \<Rightarrow> 'k \<Rightarrow> bool) \<Rightarrow> 'k \<Rightarrow> ('k \<times> 'v) list \<Rightarrow> ('k \<times> 'v) option" where
  "map_find lt k [] = None"
| "map_find lt k ((k', v) # m) =
     (if lt k' k then map_find lt k m else if lt k k' then None else Some (k', v))"

text \<open>
  \<open>try_emplace\<close> returns whether it inserted, and the map. The node it returns an iterator to is
  then found at the key.
\<close>

fun map_try_emplace ::
    "('k \<Rightarrow> 'k \<Rightarrow> bool) \<Rightarrow> 'k \<Rightarrow> 'v \<Rightarrow> ('k \<times> 'v) list \<Rightarrow> bool \<times> ('k \<times> 'v) list" where
  "map_try_emplace lt k v [] = (True, [(k, v)])"
| "map_try_emplace lt k v ((k', v') # m) =
     (if lt k' k then (let (inserted, m') = map_try_emplace lt k v m in (inserted, (k', v') # m'))
      else if lt k k' then (True, (k, v) # (k', v') # m)
      else (False, (k', v') # m))"

text \<open>A write through the reference \<open>it->second\<close>, and \<open>erase(it)\<close>.\<close>

fun map_write :: "('k \<Rightarrow> 'k \<Rightarrow> bool) \<Rightarrow> 'k \<Rightarrow> 'v \<Rightarrow> ('k \<times> 'v) list \<Rightarrow> ('k \<times> 'v) list" where
  "map_write lt k w [] = []"
| "map_write lt k w ((k', v) # m) =
     (if lt k' k \<or> lt k k' then (k', v) # map_write lt k w m else (k', w) # m)"

fun map_erase :: "('k \<Rightarrow> 'k \<Rightarrow> bool) \<Rightarrow> 'k \<Rightarrow> ('k \<times> 'v) list \<Rightarrow> ('k \<times> 'v) list" where
  "map_erase lt k [] = []"
| "map_erase lt k ((k', v) # m) =
     (if lt k' k \<or> lt k k' then (k', v) # map_erase lt k m else m)"

abbreviation equivalent :: "('k \<Rightarrow> 'k \<Rightarrow> bool) \<Rightarrow> 'k \<Rightarrow> 'k \<Rightarrow> bool" where
  "equivalent lt a b \<equiv> \<not> lt a b \<and> \<not> lt b a"

definition map_sorted :: "('k \<Rightarrow> 'k \<Rightarrow> bool) \<Rightarrow> ('k \<times> 'v) list \<Rightarrow> bool" where
  "map_sorted lt m \<longleftrightarrow> sorted_wrt (\<lambda>x y. lt (fst x) (fst y)) m"

section \<open>The contract of the comparison\<close>

locale strict_weak_order =
  fixes lt :: "'k \<Rightarrow> 'k \<Rightarrow> bool"
    and ok :: "'k \<Rightarrow> bool"
  assumes lt_asym: "ok a \<Longrightarrow> ok b \<Longrightarrow> lt a b \<Longrightarrow> \<not> lt b a"
    and lt_negtrans: "ok a \<Longrightarrow> ok b \<Longrightarrow> ok c \<Longrightarrow> \<not> lt a b \<Longrightarrow> \<not> lt b c \<Longrightarrow> \<not> lt a c"
begin

lemma lt_irrefl: "ok a \<Longrightarrow> \<not> lt a a"
  using lt_asym by blast

lemma lt_trans: "ok a \<Longrightarrow> ok b \<Longrightarrow> ok c \<Longrightarrow> lt a b \<Longrightarrow> lt b c \<Longrightarrow> lt a c"
  using lt_asym lt_negtrans by blast

lemma lt_equiv_left: "ok a \<Longrightarrow> ok b \<Longrightarrow> ok c \<Longrightarrow> equivalent lt a b \<Longrightarrow> lt a c = lt b c"
  using lt_negtrans by blast

lemma lt_equiv_right: "ok a \<Longrightarrow> ok b \<Longrightarrow> ok c \<Longrightarrow> equivalent lt a b \<Longrightarrow> lt c a = lt c b"
  using lt_negtrans by blast

text \<open>A key that is found splits the map at its node, and the other operations act there.\<close>

lemma find_split:
  assumes "map_find lt k m = Some (k', v)" "map_sorted lt m"
    "ok k" "\<And>x. x \<in> fst ` set m \<Longrightarrow> ok x"
  obtains m1 m2 where "m = m1 @ (k', v) # m2" "equivalent lt k' k"
    "\<And>w. map_write lt k w m = m1 @ (k', w) # m2" "map_erase lt k m = m1 @ m2"
    "\<And>w. map_try_emplace lt k w m = (False, m)"
proof -
  from assms have "\<exists>m1 m2. m = m1 @ (k', v) # m2 \<and> equivalent lt k' k \<and>
      (\<forall>w. map_write lt k w m = m1 @ (k', w) # m2) \<and> map_erase lt k m = m1 @ m2 \<and>
      (\<forall>w. map_try_emplace lt k w m = (False, m))"
  proof (induction m)
    case Nil
    then show ?case by simp
  next
    case (Cons x m)
    obtain a b where x: "x = (a, b)" by (cases x)
    show ?case
    proof (cases "lt a k")
      case True
      then have "map_find lt k m = Some (k', v)" using Cons.prems(1) x by simp
      moreover have "map_sorted lt m" using Cons.prems(2) by (simp add: map_sorted_def)
      moreover have "\<And>x. x \<in> fst ` set m \<Longrightarrow> ok x" using Cons.prems(4) by simp
      ultimately obtain m1 m2 where "m = m1 @ (k', v) # m2" "equivalent lt k' k"
          "\<forall>w. map_write lt k w m = m1 @ (k', w) # m2" "map_erase lt k m = m1 @ m2"
          "\<forall>w. map_try_emplace lt k w m = (False, m)"
        using Cons.IH Cons.prems(3) by blast
      then show ?thesis using True x by (intro exI [of _ "x # m1"] exI [of _ m2]) simp
    next
      case False
      with Cons.prems(1) x have "\<not> lt k a" "k' = a" "v = b" by (auto split: if_splits)
      then show ?thesis using False x by (intro exI [of _ "[]"] exI [of _ m]) simp
    qed
  qed
  then show ?thesis using that by blast
qed

lemma find_middle:
  assumes "map_sorted lt (m1 @ (k', v) # m2)" "ok k" "ok k'" "equivalent lt k' k"
    "\<And>x. x \<in> fst ` set m1 \<Longrightarrow> ok x"
  shows "map_find lt k (m1 @ (k', v) # m2) = Some (k', v)"
    and "map_write lt k w (m1 @ (k', v) # m2) = m1 @ (k', w) # m2"
    and "map_erase lt k (m1 @ (k', v) # m2) = m1 @ m2"
proof -
  have before: "lt x k" if "x \<in> fst ` set m1" for x
    using that assms lt_equiv_right [of k' k x] by (auto simp: map_sorted_def sorted_wrt_append)
  then show "map_find lt k (m1 @ (k', v) # m2) = Some (k', v)"
    using assms(4) by (induction m1) auto
  from before show "map_write lt k w (m1 @ (k', v) # m2) = m1 @ (k', w) # m2"
    using assms(4) by (induction m1) auto
  from before show "map_erase lt k (m1 @ (k', v) # m2) = m1 @ m2"
    using assms(4) by (induction m1) auto
qed

text \<open>A key that is not found has a place between the smaller and the larger keys.\<close>

lemma emplace_split:
  assumes "map_find lt k m = None" "map_sorted lt m" "ok k" "\<And>x. x \<in> fst ` set m \<Longrightarrow> ok x"
  obtains m1 m2 where "m = m1 @ m2" "\<And>v. map_try_emplace lt k v m = (True, m1 @ (k, v) # m2)"
    "\<And>v. map_sorted lt (m1 @ (k, v) # m2)"
proof -
  from assms have "\<exists>m1 m2. m = m1 @ m2 \<and>
      (\<forall>v. map_try_emplace lt k v m = (True, m1 @ (k, v) # m2)) \<and>
      (\<forall>v. map_sorted lt (m1 @ (k, v) # m2))"
  proof (induction m)
    case Nil
    then show ?case by (simp add: map_sorted_def)
  next
    case (Cons x m)
    obtain a b where x: "x = (a, b)" by (cases x)
    have oka: "ok a" and okm: "\<And>x. x \<in> fst ` set m \<Longrightarrow> ok x" using Cons.prems(4) x by auto
    show ?case
    proof (cases "lt a k")
      case True
      then have "map_find lt k m = None" using Cons.prems(1) x by simp
      moreover have "map_sorted lt m" using Cons.prems(2) by (simp add: map_sorted_def)
      ultimately obtain m1 m2 where m: "m = m1 @ m2"
          "\<forall>v. map_try_emplace lt k v m = (True, m1 @ (k, v) # m2)"
          "\<forall>v. map_sorted lt (m1 @ (k, v) # m2)"
        using Cons.IH Cons.prems(3) okm by blast
      then show ?thesis using True x Cons.prems(2)
        by (intro exI [of _ "x # m1"] exI [of _ m2]) (auto simp: map_sorted_def)
    next
      case False
      with Cons.prems(1) x have ka: "lt k a" by (auto split: if_splits)
      have "lt k y" if "y \<in> fst ` set m" for y
        using that ka oka okm Cons.prems(2,3) x lt_trans [of k a y]
        by (auto simp: map_sorted_def)
      then show ?thesis using False x ka Cons.prems(2)
        by (intro exI [of _ "[]"] exI [of _ "x # m"]) (auto simp: map_sorted_def)
    qed
  qed
  then show ?thesis using that by blast
qed

lemma find_emplaced:
  assumes "map_sorted lt (m1 @ (k, v) # m2)" "ok k" "\<And>x. x \<in> fst ` set m1 \<Longrightarrow> ok x"
  shows "map_find lt k (m1 @ (k, v) # m2) = Some (k, v)"
    and "map_write lt k w (m1 @ (k, v) # m2) = m1 @ (k, w) # m2"
    and "map_erase lt k (m1 @ (k, v) # m2) = m1 @ m2"
  using find_middle [OF assms(1,2,2)] assms lt_irrefl by blast+

lemma find_head:
  assumes "ok k"
  shows "map_find lt k ((k, v) # m) = Some (k, v)"
    and "map_write lt k w ((k, v) # m) = (k, w) # m"
    and "map_erase lt k ((k, v) # m) = m"
  using lt_irrefl [OF assms] by simp_all

lemma find_Some_iff:
  assumes "map_sorted lt m" "ok k" "\<And>x. x \<in> fst ` set m \<Longrightarrow> ok x"
  shows "map_find lt k m = Some (k', v) \<longleftrightarrow> (k', v) \<in> set m \<and> equivalent lt k' k"
proof
  assume "map_find lt k m = Some (k', v)"
  then show "(k', v) \<in> set m \<and> equivalent lt k' k"
    by (rule find_split [OF _ assms]) (simp_all add: assms)
next
  assume R: "(k', v) \<in> set m \<and> equivalent lt k' k"
  then obtain m1 m2 where m: "m = m1 @ (k', v) # m2" by (meson split_list)
  show "map_find lt k m = Some (k', v)"
    unfolding m by (rule find_middle(1)) (use assms m R in auto)
qed

lemma sorted_write:
  "map_sorted lt (m1 @ (k, v) # m2) \<Longrightarrow> map_sorted lt (m1 @ (k, w) # m2)"
  by (simp add: map_sorted_def sorted_wrt_append)

lemma sorted_erase:
  "map_sorted lt (m1 @ (k, v) # m2) \<Longrightarrow> map_sorted lt (m1 @ m2)"
  by (simp add: map_sorted_def sorted_wrt_append)

end

section \<open>The two sides of a book\<close>

text \<open>\<open>std::less<double>\<close> orders the asks, \<open>std::greater<double>\<close> the bids.\<close>

definition std_less :: "price \<Rightarrow> price \<Rightarrow> bool" where
  "std_less a b \<longleftrightarrow> a < b"

definition std_greater :: "price \<Rightarrow> price \<Rightarrow> bool" where
  "std_greater a b \<longleftrightarrow> b < a"

interpretation ask_map: strict_weak_order std_less "\<lambda>p. \<not> is_nan p"
  by unfold_locales (auto simp: std_less_def less_double_def)

interpretation bid_map: strict_weak_order std_greater "\<lambda>p. \<not> is_nan p"
  by unfold_locales (auto simp: std_greater_def less_double_def)

lemma equivalent_std_less: "equivalent std_less a b \<longleftrightarrow> is_nan a \<or> is_nan b \<or> dbl_eq a b"
  by (auto simp: std_less_def double_ord_defs)

lemma equivalent_std_greater: "equivalent std_greater a b \<longleftrightarrow> is_nan a \<or> is_nan b \<or> dbl_eq a b"
  by (auto simp: std_greater_def double_ord_defs)

end
