(* ===== verification/Id_Allocator.thy ===== *)
theory Id_Allocator
  imports Order
begin

text \<open>
  \<open>include/id_allocator.h\<close>: the allocator that hands out blocks of order ids to the books of all
  workers. Its counter is atomic, so calls from several threads are a sequence of calls in some
  order; the counter is a 64-bit word and wraps around.
\<close>

record order_id_block =
  blk_start :: order_id
  blk_end :: order_id

record id_allocator =
  ida_block_size :: order_id
  ida_global_counter :: order_id

definition DEFAULT_BLOCK_SIZE :: order_id where
  "DEFAULT_BLOCK_SIZE = 1000000"

definition new_id_allocator :: "order_id \<Rightarrow> id_allocator" where
  "new_id_allocator block_size =
     \<lparr>ida_block_size = block_size, ida_global_counter = FIRST_ORDER_ID\<rparr>"

definition default_id_allocator :: id_allocator where
  "default_id_allocator = new_id_allocator DEFAULT_BLOCK_SIZE"

text \<open>\<open>fetch_add\<close> returns the counter before the addition.\<close>

definition get_next_id_block :: "id_allocator \<Rightarrow> order_id_block \<times> id_allocator" where
  "get_next_id_block ida =
     (let local_start = ida_global_counter ida;
          local_end = local_start + ida_block_size ida
      in (\<lparr>blk_start = local_start, blk_end = local_end\<rparr>,
          ida\<lparr>ida_global_counter := ida_global_counter ida + ida_block_size ida\<rparr>))"

section \<open>Successive blocks\<close>

fun take_blocks :: "nat \<Rightarrow> id_allocator \<Rightarrow> order_id_block list \<times> id_allocator" where
  "take_blocks 0 ida = ([], ida)"
| "take_blocks (Suc n) ida =
     (let (b, ida1) = get_next_id_block ida; (bs, ida2) = take_blocks n ida1 in (b # bs, ida2))"

definition block_ids :: "order_id_block \<Rightarrow> order_id set" where
  "block_ids b = {i. blk_start b \<le> i \<and> i < blk_end b}"

text \<open>The counter still has room for \<open>n\<close> more blocks.\<close>

definition ids_left :: "nat \<Rightarrow> id_allocator \<Rightarrow> bool" where
  "ids_left n ida \<longleftrightarrow> unat (ida_global_counter ida) + n * unat (ida_block_size ida) < 2 ^ 64"

text \<open>For the next block alone, in the words that the code adds: the sum has not wrapped around.\<close>

definition block_left :: "id_allocator \<Rightarrow> bool" where
  "block_left ida \<longleftrightarrow> ida_global_counter ida \<le> ida_global_counter ida + ida_block_size ida"

lemma block_left_ids: "block_left ida \<longleftrightarrow> ids_left (Suc 0) ida"
  by (simp add: block_left_def ids_left_def no_olen_add_nat)

lemma ids_left_Suc:
  assumes "ids_left (Suc n) ida"
  shows "ids_left n (snd (get_next_id_block ida))"
    "unat (ida_global_counter ida + ida_block_size ida) =
       unat (ida_global_counter ida) + unat (ida_block_size ida)"
proof -
  have "unat (ida_global_counter ida) + unat (ida_block_size ida) < 2 ^ 64"
    using assms by (simp add: ids_left_def)
  then show 1: "unat (ida_global_counter ida + ida_block_size ida) =
      unat (ida_global_counter ida) + unat (ida_block_size ida)"
    by (rule unat_add_exact)
  show "ids_left n (snd (get_next_id_block ida))"
    using assms 1 by (simp add: ids_left_def get_next_id_block_def Let_def)
qed

lemma next_block_simps [simp]:
  "fst (get_next_id_block ida) =
     \<lparr>blk_start = ida_global_counter ida, blk_end = ida_global_counter ida + ida_block_size ida\<rparr>"
  "ida_global_counter (snd (get_next_id_block ida)) = ida_global_counter ida + ida_block_size ida"
  "ida_block_size (snd (get_next_id_block ida)) = ida_block_size ida"
  by (simp_all add: get_next_id_block_def Let_def)

lemma take_blocks_Suc:
  "b \<in> set (fst (take_blocks (Suc n) ida)) \<longleftrightarrow>
     b = fst (get_next_id_block ida) \<or> b \<in> set (fst (take_blocks n (snd (get_next_id_block ida))))"
  by (simp add: split_beta)

declare take_blocks.simps(2) [simp del]

lemma counter_grows:
  "ids_left (Suc n) ida \<Longrightarrow> ida_global_counter ida \<le> ida_global_counter ida + ida_block_size ida"
  using ids_left_Suc(2) [of n ida] by (simp only: word_le_nat_alt le_add1)

lemma take_blocks_above:
  assumes "ids_left n ida" "b \<in> set (fst (take_blocks n ida))"
  shows "ida_global_counter ida \<le> blk_start b \<and>
    unat (blk_end b) = unat (blk_start b) + unat (ida_block_size ida)"
  using assms
proof (induction n arbitrary: ida)
  case 0
  then show ?case by simp
next
  case (Suc n)
  let ?ida = "snd (get_next_id_block ida)"
  note left = ids_left_Suc [OF Suc.prems(1)]
  consider (first) "b = fst (get_next_id_block ida)" | (later) "b \<in> set (fst (take_blocks n ?ida))"
    using Suc.prems(2) by (auto simp only: take_blocks_Suc)
  then show ?case
  proof cases
    case first
    then show ?thesis using left(2) by simp
  next
    case later
    then show ?thesis using Suc.IH [OF left(1)] counter_grows [OF Suc.prems(1)]
      by (metis next_block_simps(2,3) order_trans)
  qed
qed

lemma take_blocks_ends:
  "ids_left n ida \<Longrightarrow> b \<in> set (fst (take_blocks n ida)) \<Longrightarrow> blk_start b \<le> blk_end b"
  using take_blocks_above [of n ida b] by (simp add: word_le_nat_alt)

text \<open>Blocks handed out one after the other share no id, until the counter wraps around.\<close>

lemma take_blocks_disjoint:
  assumes "ids_left n ida"
  shows "sorted_wrt (\<lambda>a b. blk_end a \<le> blk_start b) (fst (take_blocks n ida))"
  using assms
proof (induction n arbitrary: ida)
  case 0
  then show ?case by simp
next
  case (Suc n)
  let ?ida = "snd (get_next_id_block ida)"
  note left = ids_left_Suc [OF Suc.prems]
  have "blk_end (fst (get_next_id_block ida)) \<le> blk_start b" if "b \<in> set (fst (take_blocks n ?ida))" for b
    using take_blocks_above [OF left(1) that] by simp
  then show ?case using Suc.IH [OF left(1)] by (simp add: take_blocks.simps split_beta)
qed

end
