(* ===== verification/Order_Book.thy ===== *)
theory Order_Book
  imports Price_Level_V2 Ordered_Map Id_Allocator
begin

text \<open>
  \<open>include/orderbook.h\<close>: the matching engine of one instrument. A side is a map from prices to
  price levels, the bids from the highest price down and the asks from the lowest up. The
  templates over the map type of a side are functions of the side (\<open>order_side\<close>), which selects
  the map and its comparison. Pointers to orders are followed in the store of the book's pool.
\<close>

section \<open>State\<close>

type_synonym side_levels = "(price \<times> price_level) list"

record orderbook =
  ob_instrument :: instrument
  ob_bids :: side_levels
  ob_asks :: side_levels
  ob_order_registry :: "(order_id \<times> order_ptr) list"
  ob_order_pool :: order_pool
  ob_order_id_block :: order_id_block
  ob_next_available_order_id :: order_id
  ob_trades_completed :: "64 word"
  ob_space_reserve_price_level :: nat
  ob_try_match_flag :: bool

text \<open>What a book shares with its surroundings: the clock and, by reference, the id allocator.\<close>

record world =
  wd_clock :: clock
  wd_ids :: id_allocator

definition wnow :: "world \<Rightarrow> time_point" where
  "wnow w = now (wd_clock w)"

definition wtick :: "world \<Rightarrow> world" where
  "wtick w = w\<lparr>wd_clock := later 1 (wd_clock w)\<rparr>"

primrec side_lt :: "order_side \<Rightarrow> price \<Rightarrow> price \<Rightarrow> bool" where
  "side_lt BUY = std_greater"
| "side_lt SELL = std_less"

primrec levels_of :: "order_side \<Rightarrow> orderbook \<Rightarrow> side_levels" where
  "levels_of BUY ob = ob_bids ob"
| "levels_of SELL ob = ob_asks ob"

primrec set_levels :: "order_side \<Rightarrow> side_levels \<Rightarrow> orderbook \<Rightarrow> orderbook" where
  "set_levels BUY ls ob = ob\<lparr>ob_bids := ls\<rparr>"
| "set_levels SELL ls ob = ob\<lparr>ob_asks := ls\<rparr>"

abbreviation store :: "orderbook \<Rightarrow> order_store" where
  "store ob \<equiv> pool_store (ob_order_pool ob)"

definition write_order :: "order_ptr \<Rightarrow> order \<Rightarrow> orderbook \<Rightarrow> orderbook" where
  "write_order p ord ob = ob\<lparr>ob_order_pool := pool_write p ord (ob_order_pool ob)\<rparr>"

text \<open>
  The constructor. The pool is reserved for \<open>SPACE_RESERVE\<close> orders whatever the space asked for;
  the size is an argument of \<open>new_orderbook_sized\<close> so that small books can be evaluated.
\<close>

definition new_orderbook_sized :: "nat \<Rightarrow> instrument \<Rightarrow> nat \<Rightarrow> world \<Rightarrow> orderbook \<times> world" where
  "new_orderbook_sized pool_size instr space_reserve_per_instrument w =
     (let (block, ids) = get_next_id_block (wd_ids w);
          (pool, clk) = new_order_pool (wd_clock w) pool_size
      in (\<lparr>ob_instrument = instr, ob_bids = [], ob_asks = [], ob_order_registry = [],
           ob_order_pool = pool, ob_order_id_block = block,
           ob_next_available_order_id = blk_start block, ob_trades_completed = 0,
           ob_space_reserve_price_level = space_reserve_per_instrument,
           ob_try_match_flag = False\<rparr>,
          w\<lparr>wd_clock := clk, wd_ids := ids\<rparr>))"

definition new_orderbook :: "instrument \<Rightarrow> nat \<Rightarrow> world \<Rightarrow> orderbook \<times> world" where
  "new_orderbook = new_orderbook_sized SPACE_RESERVE"

section \<open>Levels of a side\<close>

text \<open>The level that \<open>find\<close> or \<open>try_emplace\<close> gives an iterator to, which the code dereferences.\<close>

definition level_at :: "order_side \<Rightarrow> price \<Rightarrow> side_levels \<Rightarrow> (price \<times> price_level) result" where
  "level_at sd p ls =
     rbind (assert_or (\<not> is_nan p) UnorderedKey) (\<lambda>_.
       case map_find (side_lt sd) p ls of
         None \<Rightarrow> Inl (Undefined EndIterator)
       | Some (k, lv) \<Rightarrow> Inr (k, lv))"

text \<open>
  \<open>try_emplace(p, ...)\<close>. With a NaN among its arguments the comparison is no strict weak order, as the map
  asks for, and a NaN as key is taken to be undefined whatever the map holds; the model makes no exception
  for a map with at most one other key, on which the comparison still would be one.
\<close>

definition emplace_level :: "order_side \<Rightarrow> price \<Rightarrow> side_levels \<Rightarrow> (bool \<times> side_levels) result" where
  "emplace_level sd p ls =
     rbind (assert_or (\<not> is_nan p) UnorderedKey) (\<lambda>_.
       Inr (map_try_emplace (side_lt sd) p (new_price_level p) ls))"

definition remove_price_level_if_empty :: "order_side \<Rightarrow> price \<Rightarrow> side_levels \<Rightarrow> side_levels result" where
  "remove_price_level_if_empty sd k ls =
     rbind (level_at sd k ls) (\<lambda>(k', lv).
       if \<not> level_empty lv then Inr ls else Inr (map_erase (side_lt sd) k' ls))"

section \<open>Adding an order\<close>

definition get_order_id :: "world \<Rightarrow> orderbook \<Rightarrow> order_id \<times> world \<times> orderbook" where
  "get_order_id w ob =
     (let (w1, ob1) =
        (if ob_next_available_order_id ob = blk_end (ob_order_id_block ob) then
           let (block, ids) = get_next_id_block (wd_ids w)
           in (w\<lparr>wd_ids := ids\<rparr>,
               ob\<lparr>ob_order_id_block := block, ob_next_available_order_id := blk_start block\<rparr>)
         else (w, ob))
      in (ob_next_available_order_id ob1, w1,
          ob1\<lparr>ob_next_available_order_id := ob_next_available_order_id ob1 + 1\<rparr>))"

definition add_order_dispatcher :: "order_side \<Rightarrow> order_ptr \<Rightarrow> orderbook \<Rightarrow> orderbook result" where
  "add_order_dispatcher sd p ob =
     rbind (deref (store ob) p) (\<lambda>ord.
     rbind (emplace_level sd (ord_price ord) (levels_of sd ob)) (\<lambda>(inserted, ls1).
     rbind (level_at sd (ord_price ord) ls1) (\<lambda>(k, lv).
     rbind (level_add_order (store ob) p lv) (\<lambda>lv'.
       Inr ((set_levels sd (map_write (side_lt sd) k lv' ls1) ob)
             \<lparr>ob_try_match_flag := inserted,
              ob_order_registry := AList.update (ord_id ord) p (ob_order_registry ob)\<rparr>)))))"

section \<open>Matching\<close>

text \<open>\<open>order->match(qty)\<close> through a pointer.\<close>

definition match_at :: "order_ptr \<Rightarrow> quantity \<Rightarrow> world \<times> orderbook \<Rightarrow> (world \<times> orderbook) result" where
  "match_at p qty = (\<lambda>(w, ob).
     rbind (deref (store ob) p) (\<lambda>ord.
     rbind (match_order (wnow w) qty ord) (\<lambda>ord'.
       Inr (wtick w, write_order p ord' ob))))"

definition match_orders ::
    "order_ptr \<Rightarrow> order_ptr \<Rightarrow> world \<times> orderbook \<Rightarrow> (world \<times> orderbook) result" where
  "match_orders bid_order ask_order = (\<lambda>(w, ob).
     rbind (deref (store ob) bid_order) (\<lambda>bid.
     rbind (deref (store ob) ask_order) (\<lambda>ask.
       let match_qty = min (available bid) (available ask)
       in rbind (match_at bid_order match_qty (w, ob)) (match_at ask_order match_qty))))"

text \<open>
  One turn of the loop of \<open>try_match\<close>: it stops, with the book as it leaves it, or goes on.
\<close>

datatype 'a loop_step = Stop 'a | Continue 'a

definition try_match_step :: "world \<times> orderbook \<Rightarrow> (world \<times> orderbook) loop_step result" where
  "try_match_step = (\<lambda>(w, ob).
     case (ob_bids ob, ob_asks ob) of
       ((bid_price, bid_level) # _, (ask_price, ask_level) # _) \<Rightarrow>
         if \<not> (bid_price \<ge> ask_price) then Inr (Stop (w, ob\<lparr>ob_try_match_flag := False\<rparr>))
         else
           rbind (level_front bid_level) (\<lambda>bid_order.
           rbind (level_front ask_level) (\<lambda>ask_order.
           rbind (match_orders bid_order ask_order
                   (w, ob\<lparr>ob_trades_completed := ob_trades_completed ob + 1\<rparr>)) (\<lambda>(w1, ob1).
           rbind (pop_front_order_if_filled (store ob1) bid_level) (\<lambda>bid_level'.
           rbind (pop_front_order_if_filled (store ob1) ask_level) (\<lambda>ask_level'.
           rbind (remove_price_level_if_empty BUY bid_price
                   (map_write std_greater bid_price bid_level' (ob_bids ob1))) (\<lambda>bids'.
           rbind (remove_price_level_if_empty SELL ask_price
                   (map_write std_less ask_price ask_level' (ob_asks ob1))) (\<lambda>asks'.
             Inr (Continue (w1, ob1\<lparr>ob_bids := bids', ob_asks := asks'\<rparr>)))))))))
     | _ \<Rightarrow> Inr (Stop (w, ob)))"

partial_function (option) try_match_loop ::
    "bool \<Rightarrow> world \<times> orderbook \<Rightarrow> (bool \<times> world \<times> orderbook) result option" where
  "try_match_loop order_matched s =
     (case try_match_step s of
        Inl e \<Rightarrow> Some (Inl e)
      | Inr (Stop s') \<Rightarrow> Some (Inr (order_matched, s'))
      | Inr (Continue s') \<Rightarrow> try_match_loop True s')"

declare try_match_loop.simps [code]

definition try_match :: "world \<times> orderbook \<Rightarrow> (bool \<times> world \<times> orderbook) result" where
  "try_match s =
     (if \<not> ob_try_match_flag (snd s) then Inr (False, s)
      else case try_match_loop False s of None \<Rightarrow> Inl Diverges | Some r \<Rightarrow> r)"

text \<open>
  \<open>add_order\<close>. The id is drawn before the order is written. The book is left in the result; the
  caller's \<open>client_order\<close> is afterwards \<open>moved_from mv client\<close>.
\<close>

definition add_order :: "order \<Rightarrow> world \<times> orderbook \<Rightarrow> (order_id \<times> world \<times> orderbook) result" where
  "add_order client = (\<lambda>(w, ob).
     rbind (allocate (wd_clock w) (ob_order_pool ob)) (\<lambda>(p, pool, clk).
     let (i, w1, ob1) = get_order_id (w\<lparr>wd_clock := clk\<rparr>) (ob\<lparr>ob_order_pool := pool\<rparr>) in
     rbind (deref (store ob1) p) (\<lambda>slot.
     let ord = copy_from_client slot client i; ob2 = write_order p ord ob1 in
     rbind (add_order_dispatcher (ord_side ord) p ob2) (\<lambda>ob3.
     rbind (try_match (w1, ob3)) (\<lambda>(_, w2, ob4).
       Inr (i, w2, ob4))))))"

section \<open>Cancelling an order\<close>

definition cancel_order_dispatcher :: "order_side \<Rightarrow> order_ptr \<Rightarrow> orderbook \<Rightarrow> orderbook result" where
  "cancel_order_dispatcher sd p ob =
     rbind (deref (store ob) p) (\<lambda>ord.
     rbind (level_at sd (ord_price ord) (levels_of sd ob)) (\<lambda>(k, lv).
     rbind (level_remove_order (ord_id ord) lv) (\<lambda>(_, lv').
     rbind (remove_price_level_if_empty sd k (map_write (side_lt sd) k lv' (levels_of sd ob))) (\<lambda>ls.
       Inr (set_levels sd ls ob)))))"

text \<open>
  The \<open>catch\<close> clauses print the exception, and the function goes on to return true; nothing in
  the dispatcher throws (\<open>cancel_dispatcher_no_throw\<close> below), so the book they leave is the one
  that entered the dispatcher.
\<close>

definition cancel_order :: "order_id \<Rightarrow> world \<times> orderbook \<Rightarrow> (bool \<times> world \<times> orderbook) result" where
  "cancel_order order_id = (\<lambda>(w, ob).
     case map_of (ob_order_registry ob) order_id of
       None \<Rightarrow> Inr (False, w, ob)
     | Some p \<Rightarrow>
         rbind (deref (store ob) p) (\<lambda>ord.
         let (cancel_success, ord') = cancel (wnow w) ord in
         if \<not> cancel_success then Inr (False, w, ob)
         else
           let ob1 = write_order p ord' ob in
           (case cancel_order_dispatcher (ord_side ord') p ob1 of
              Inl (RuntimeError _) \<Rightarrow> Inr (True, wtick w, ob1)
            | Inl e \<Rightarrow> Inl e
            | Inr ob2 \<Rightarrow> Inr (True, wtick w, ob2))))"

section \<open>Modifying an order\<close>

definition validate_modify_order :: "order \<Rightarrow> price \<Rightarrow> quantity \<Rightarrow> bool" where
  "validate_modify_order ord new_price new_qty \<longleftrightarrow>
     \<not> (new_price \<le> 0 \<or> new_qty \<le> ord_quantity_filled ord)"

text \<open>The branch that moves the order to the level of its new price.\<close>

definition move_to_price ::
    "order_side \<Rightarrow> order_ptr \<Rightarrow> price \<Rightarrow> price \<Rightarrow> world \<times> orderbook \<Rightarrow> (world \<times> orderbook) result" where
  "move_to_price sd p old_key new_price = (\<lambda>(w, ob).
     rbind (deref (store ob) p) (\<lambda>ord.
     rbind (level_at sd old_key (levels_of sd ob)) (\<lambda>(_, old_level).
     rbind (level_remove_order (ord_id ord) old_level) (\<lambda>(_, old_level').
     let ob1 = write_order p (set_price (wnow w) new_price ord) ob;
         ls1 = map_write (side_lt sd) old_key old_level' (levels_of sd ob1) in
     rbind (emplace_level sd new_price ls1) (\<lambda>(inserted, ls2).
     rbind (level_at sd new_price ls2) (\<lambda>(k, new_level).
     rbind (level_add_order (store ob1) p new_level) (\<lambda>new_level'.
       Inr (wtick w, (set_levels sd (map_write (side_lt sd) k new_level' ls2) ob1)
                       \<lparr>ob_try_match_flag := inserted\<rparr>))))))))"

text \<open>The branch that sets the quantity; an increase at an unchanged price goes to the back.\<close>

definition change_quantity ::
    "order_side \<Rightarrow> order_ptr \<Rightarrow> price \<Rightarrow> bool \<Rightarrow> quantity \<Rightarrow> orderbook \<Rightarrow> orderbook result" where
  "change_quantity sd p old_key price_changed new_qty ob =
     rbind (deref (store ob) p) (\<lambda>ord.
     let quantity_increased = new_qty > ord_quantity ord;
         ob1 = write_order p (set_quantity new_qty ord) ob in
     if quantity_increased \<and> \<not> price_changed then
       rbind (level_at sd old_key (levels_of sd ob1)) (\<lambda>(_, old_level).
       rbind (level_remove_order (ord_id ord) old_level) (\<lambda>(_, lv1).
       rbind (level_add_order (store ob1) p lv1) (\<lambda>lv2.
         Inr (set_levels sd (map_write (side_lt sd) old_key lv2 (levels_of sd ob1)) ob1))))
     else Inr ob1)"

definition modify_order_dispatcher ::
    "order_side \<Rightarrow> order_ptr \<Rightarrow> price \<Rightarrow> quantity \<Rightarrow> world \<times> orderbook \<Rightarrow>
       (bool \<times> world \<times> orderbook) result" where
  "modify_order_dispatcher sd p new_price new_qty = (\<lambda>(w, ob).
     rbind (deref (store ob) p) (\<lambda>ord.
     if \<not> validate_modify_order ord new_price new_qty then Inr (False, w, ob)
     else
       rbind (level_at sd (ord_price ord) (levels_of sd ob)) (\<lambda>(old_key, _).
       let price_changed = \<not> dbl_eq (ord_price ord) new_price;
           quantity_changed = (ord_quantity ord \<noteq> new_qty) in
       rbind (if price_changed then move_to_price sd p old_key new_price (w, ob) else Inr (w, ob))
         (\<lambda>(w1, ob1).
       rbind (if quantity_changed then change_quantity sd p old_key price_changed new_qty ob1
              else Inr ob1) (\<lambda>ob2.
       rbind (remove_price_level_if_empty sd old_key (levels_of sd ob2)) (\<lambda>ls.
         Inr (price_changed \<or> quantity_changed, w1, set_levels sd ls ob2)))))))"

text \<open>
  \<open>modify_order\<close> returns from inside its \<open>try\<close> block, so the \<open>try_match()\<close> after it runs only
  when the dispatcher throws.
\<close>

definition modify_order ::
    "order_id \<Rightarrow> price \<Rightarrow> quantity \<Rightarrow> world \<times> orderbook \<Rightarrow> (bool \<times> world \<times> orderbook) result" where
  "modify_order order_id price quantity = (\<lambda>(w, ob).
     case map_of (ob_order_registry ob) order_id of
       None \<Rightarrow> Inr (False, w, ob)
     | Some p \<Rightarrow>
         rbind (deref (store ob) p) (\<lambda>ord.
         if ord_status ord = CANCELLED \<or> ord_status ord = FULLY_FILLED then Inr (False, w, ob)
         else
           (case modify_order_dispatcher (ord_side ord) p price quantity (w, ob) of
              Inl (RuntimeError _) \<Rightarrow> rbind (try_match (w, ob)) (\<lambda>(_, s). Inr (False, s))
            | r \<Rightarrow> r)))"

section \<open>Queries\<close>

definition get_best_bid :: "orderbook \<Rightarrow> price" where
  "get_best_bid ob = (case ob_bids ob of [] \<Rightarrow> minus_one | (p, _) # _ \<Rightarrow> p)"

definition get_best_ask :: "orderbook \<Rightarrow> price" where
  "get_best_ask ob = (case ob_asks ob of [] \<Rightarrow> minus_one | (p, _) # _ \<Rightarrow> p)"

definition get_total_bid_orders :: "orderbook \<Rightarrow> nat" where
  "get_total_bid_orders ob = sum_list (map (\<lambda>(_, lv). level_size lv) (ob_bids ob))"

definition get_total_ask_orders :: "orderbook \<Rightarrow> nat" where
  "get_total_ask_orders ob = sum_list (map (\<lambda>(_, lv). level_size lv) (ob_asks ob))"

end
