(* ===== verification/Book_Side.thy ===== *)
theory Book_Side
  imports Order_Book
begin

text \<open>
  One side of a book and its invariant under the store \<open>h\<close> of the orders handed out: the levels
  are sorted by price, none is empty, each is a first-in first-out queue of orders at its price,
  and together they queue exactly the active orders of the side. Every lemma is stated once for
  both sides; the comparison of the side is a strict weak order by interpretation.
\<close>

interpretation side_map: strict_weak_order "side_lt sd" "\<lambda>p. \<not> is_nan p" for sd
  by (cases sd) (simp_all add: ask_map.strict_weak_order_axioms bid_map.strict_weak_order_axioms)

section \<open>The invariant of a side\<close>

definition side_ptrs :: "side_levels \<Rightarrow> order_ptr list" where
  "side_ptrs ls = concat (map (\<lambda>(k, lv). live lv) ls)"

text \<open>
  Between the removal of an order and the pruning of its level a level may be empty: \<open>E\<close> holds the
  keys of the levels that may.
\<close>

definition level_ok :: "price set \<Rightarrow> order_store \<Rightarrow> price \<times> price_level \<Rightarrow> bool" where
  "level_ok E h x \<longleftrightarrow>
     \<not> is_nan (fst x) \<and> level_inv h (snd x) \<and> (live (snd x) \<noteq> [] \<or> fst x \<in> E) \<and>
     (\<forall>p \<in> set (live (snd x)). dbl_eq (ord_price (the (h p))) (fst x))"

definition resting_set :: "order_side \<Rightarrow> order_store \<Rightarrow> order_ptr set" where
  "resting_set sd h = {p. \<exists>ord. h p = Some ord \<and> active ord \<and> ord_side ord = sd}"

definition side_inv_except :: "price set \<Rightarrow> order_side \<Rightarrow> order_store \<Rightarrow> side_levels \<Rightarrow> bool" where
  "side_inv_except E sd h ls \<longleftrightarrow>
     map_sorted (side_lt sd) ls \<and> (\<forall>x \<in> set ls. level_ok E h x) \<and>
     set (side_ptrs ls) = resting_set sd h"

abbreviation side_inv :: "order_side \<Rightarrow> order_store \<Rightarrow> side_levels \<Rightarrow> bool" where
  "side_inv \<equiv> side_inv_except {}"

lemma side_inv_mono: "side_inv_except E sd h ls \<Longrightarrow> E \<subseteq> E' \<Longrightarrow> side_inv_except E' sd h ls"
  by (fastforce simp: side_inv_except_def level_ok_def)

lemma side_ptrs_simps [simp]:
  "side_ptrs [] = []" "side_ptrs ((k, lv) # ls) = live lv @ side_ptrs ls"
  "side_ptrs (ls @ ls') = side_ptrs ls @ side_ptrs ls'"
  by (simp_all add: side_ptrs_def)

lemma side_ptrs_mem: "p \<in> set (side_ptrs ls) \<longleftrightarrow> (\<exists>k lv. (k, lv) \<in> set ls \<and> p \<in> set (live lv))"
  by (force simp: side_ptrs_def)

lemma side_inv_keys: "side_inv_except E sd h ls \<Longrightarrow> k \<in> fst ` set ls \<Longrightarrow> \<not> is_nan k"
  by (auto simp: side_inv_except_def level_ok_def)

lemma side_inv_nil: "(\<And>p. h p = None) \<Longrightarrow> side_inv_except E sd h []"
  by (simp add: side_inv_except_def map_sorted_def resting_set_def)

lemma dbl_eq_simps:
  "dbl_eq a b \<Longrightarrow> \<not> is_nan a" "dbl_eq a b \<Longrightarrow> \<not> is_nan b" "dbl_eq a b \<Longrightarrow> dbl_eq b a"
  "dbl_eq a b \<Longrightarrow> dbl_eq b c \<Longrightarrow> dbl_eq a c"
  "\<not> is_nan a \<Longrightarrow> dbl_eq a a"
  by (auto simp: dbl_eq_def)

lemma equivalent_side_lt:
  "\<not> is_nan a \<Longrightarrow> \<not> is_nan b \<Longrightarrow> equivalent (side_lt sd) a b \<longleftrightarrow> dbl_eq a b"
  by (cases sd) (simp_all add: equivalent_std_less equivalent_std_greater)

text \<open>Orders of different levels are different orders: their prices differ.\<close>

lemma level_unique:
  assumes "side_inv_except E sd h (ls1 @ (k, lv) # ls2)" "p \<in> set (live lv)"
  shows "p \<notin> set (side_ptrs ls1)" "p \<notin> set (side_ptrs ls2)"
proof -
  have s: "map_sorted (side_lt sd) (ls1 @ (k, lv) # ls2)"
    and ok: "\<And>x. x \<in> set (ls1 @ (k, lv) # ls2) \<Longrightarrow> level_ok E h x"
    using assms by (auto simp: side_inv_except_def)
  have "dbl_eq (ord_price (the (h p))) k" using ok [of "(k, lv)"] assms(2) by (simp add: level_ok_def)
  then have eqv: "equivalent (side_lt sd) k k'"
    if "(k', lv') \<in> set (ls1 @ ls2)" "p \<in> set (live lv')" for k' lv'
  proof -
    assume pk: "dbl_eq (ord_price (the (h p))) k"
    have "level_ok E h (k', lv')" using that(1) ok by auto
    then have pk': "dbl_eq (ord_price (the (h p))) k'" using that(2) by (simp add: level_ok_def)
    have "dbl_eq k k'" using pk pk' dbl_eq_simps(3,4) by blast
    then show ?thesis using equivalent_side_lt dbl_eq_simps(1,2) by blast
  qed
  have lt: "side_lt sd k' k" if "(k', lv') \<in> set ls1" for k' lv'
    using s that by (auto simp: map_sorted_def sorted_wrt_append)
  have gt: "side_lt sd k k'" if "(k', lv') \<in> set ls2" for k' lv'
    using s that by (auto simp: map_sorted_def sorted_wrt_append)
  show "p \<notin> set (side_ptrs ls1)"
  proof
    assume "p \<in> set (side_ptrs ls1)"
    then obtain k' lv' where "(k', lv') \<in> set ls1" "p \<in> set (live lv')" by (auto simp: side_ptrs_mem)
    then show False using eqv [of k' lv'] lt [of k' lv'] by simp
  qed
  show "p \<notin> set (side_ptrs ls2)"
  proof
    assume "p \<in> set (side_ptrs ls2)"
    then obtain k' lv' where "(k', lv') \<in> set ls2" "p \<in> set (live lv')" by (auto simp: side_ptrs_mem)
    then show False using eqv [of k' lv'] gt [of k' lv'] by simp
  qed
qed

lemma side_ptrs_split:
  assumes "side_inv_except E sd h (ls1 @ (k, lv) # ls2)" "p \<in> set (live lv)"
  shows "remove1 p (side_ptrs (ls1 @ (k, lv) # ls2)) = side_ptrs ls1 @ remove1 p (live lv) @ side_ptrs ls2"
  using level_unique [OF assms] assms(2) by (simp add: remove1_append)

lemma level_ptr:
  "level_ok E h (k, lv) \<Longrightarrow> p \<in> set (live lv) \<Longrightarrow> \<exists>ord. h p = Some ord \<and> dbl_eq (ord_price ord) k"
  using lv2.live_allocated [of h lv p] by (auto simp: level_ok_def)

lemma side_ptr:
  "side_inv_except E sd h ls \<Longrightarrow> p \<in> set (side_ptrs ls) \<Longrightarrow>
     \<exists>ord. h p = Some ord \<and> active ord \<and> ord_side ord = sd"
  by (auto simp: side_inv_except_def resting_set_def)

lemma side_ptrs_distinct:
  assumes "side_inv_except E sd h ls"
  shows "distinct (side_ptrs ls)"
proof -
  have "distinct (side_ptrs (map id ls2))" if "ls = ls1 @ ls2" for ls1 ls2
    using that
  proof (induction ls2 arbitrary: ls1)
    case Nil
    then show ?case by simp
  next
    case (Cons x ls2)
    obtain k lv where x: "x = (k, lv)" by (cases x)
    have inv: "side_inv_except E sd h (ls1 @ (k, lv) # ls2)" using assms Cons.prems x by simp
    then have "level_inv h lv" by (auto simp: side_inv_except_def level_ok_def)
    then have "distinct (live lv)" by (rule lv2.live_distinct)
    moreover have "distinct (side_ptrs ls2)" using Cons.IH [of "ls1 @ [x]"] Cons.prems by simp
    ultimately show ?case using level_unique(2) [OF inv] x by auto
  qed
  from this [of "[]" ls] show ?thesis by simp
qed

section \<open>Finding the level of an order\<close>

lemma level_at_key:
  assumes "side_inv_except E sd h (ls1 @ (k, lv) # ls2)" "dbl_eq p k"
  shows "level_at sd p (ls1 @ (k, lv) # ls2) = Inr (k, lv)"
    "map_write (side_lt sd) p w (ls1 @ (k, lv) # ls2) = ls1 @ (k, w) # ls2"
proof -
  have "map_sorted (side_lt sd) (ls1 @ (k, lv) # ls2)" using assms(1) by (simp add: side_inv_except_def)
  moreover have "\<not> is_nan p" "\<not> is_nan k" "equivalent (side_lt sd) k p"
    using assms(2) equivalent_side_lt dbl_eq_simps by blast+
  moreover have "\<And>x. x \<in> fst ` set ls1 \<Longrightarrow> \<not> is_nan x" using side_inv_keys [OF assms(1)] by auto
  ultimately show "level_at sd p (ls1 @ (k, lv) # ls2) = Inr (k, lv)"
    "map_write (side_lt sd) p w (ls1 @ (k, lv) # ls2) = ls1 @ (k, w) # ls2"
    using side_map.find_middle(1,2) [of sd ls1 k _ ls2 p] by (simp_all add: level_at_def)
qed

lemma level_of_order:
  assumes inv: "side_inv_except E sd h ls" and p: "p \<in> set (side_ptrs ls)" "h p = Some ord"
  obtains ls1 k lv ls2 where "ls = ls1 @ (k, lv) # ls2" "p \<in> set (live lv)" "level_ok E h (k, lv)"
    "dbl_eq (ord_price ord) k" "level_at sd (ord_price ord) ls = Inr (k, lv)"
    "level_at sd k ls = Inr (k, lv)"
    "\<And>w. map_write (side_lt sd) k w ls = ls1 @ (k, w) # ls2"
proof -
  obtain k lv where m: "(k, lv) \<in> set ls" "p \<in> set (live lv)" using p(1) by (auto simp: side_ptrs_mem)
  then obtain ls1 ls2 where ls: "ls = ls1 @ (k, lv) # ls2" by (meson split_list)
  have ok: "level_ok E h (k, lv)" using inv m(1) by (auto simp: side_inv_except_def)
  then have eq: "dbl_eq (ord_price ord) k" using level_ptr [OF ok m(2)] p(2) by simp
  have "dbl_eq k k" using eq dbl_eq_simps by blast
  then show ?thesis
    using that [OF ls m(2) ok eq] level_at_key inv eq unfolding ls by blast
qed

lemma prune_level:
  assumes "map_sorted (side_lt sd) (ls1 @ (k, lv) # ls2)"
    "\<And>x. x \<in> fst ` set ls1 \<Longrightarrow> \<not> is_nan x" "\<not> is_nan k"
  shows "remove_price_level_if_empty sd k (ls1 @ (k, lv) # ls2) =
    Inr (if level_empty lv then ls1 @ ls2 else ls1 @ (k, lv) # ls2)"
  using side_map.find_emplaced(1,3) [OF assms(1,3,2)] assms(3)
  by (simp add: remove_price_level_if_empty_def level_at_def)

lemma prune_noop:
  assumes inv: "side_inv sd h (ls1 @ (k, lv) # ls2)"
  shows "remove_price_level_if_empty sd k (ls1 @ (k, lv) # ls2) = Inr (ls1 @ (k, lv) # ls2)"
proof -
  have "map_sorted (side_lt sd) (ls1 @ (k, lv) # ls2)" "level_inv h lv" "live lv \<noteq> []"
    using inv by (auto simp: side_inv_except_def level_ok_def)
  moreover have "\<And>x. x \<in> fst ` set ls1 \<Longrightarrow> \<not> is_nan x" "\<not> is_nan k"
    using side_inv_keys [OF inv] by auto
  ultimately show ?thesis using prune_level [of sd ls1 k lv ls2] level_empty_live [of h lv] by simp
qed

section \<open>Changes of the store\<close>

text \<open>A side only depends on the ids and prices of its orders, and on which orders are active.\<close>

lemma side_inv_store:
  assumes inv: "side_inv_except E sd h ls" and same: "same_ids h h' (side_ptrs ls)"
    and price: "\<And>p. p \<in> set (side_ptrs ls) \<Longrightarrow> ord_price (the (h' p)) = ord_price (the (h p))"
    and rest: "resting_set sd h' = resting_set sd h"
  shows "side_inv_except E sd h' ls"
proof -
  have "level_ok E h' x" if x: "x \<in> set ls" for x
  proof -
    have sub: "p \<in> set (side_ptrs ls)" if "p \<in> set (live (snd x))" for p
      using that x by (cases x) (auto simp: side_ptrs_mem)
    then have "same_ids h h' (live (snd x))" using same by (simp add: same_ids_def)
    then show ?thesis using inv x sub price by (auto simp: side_inv_except_def level_ok_def lv2.inv_same_ids)
  qed
  then show ?thesis using inv rest by (simp add: side_inv_except_def)
qed

lemma resting_set_upd:
  "resting_set sd (h(p \<mapsto> ord)) =
     (if active ord \<and> ord_side ord = sd then insert p (resting_set sd h) else resting_set sd h - {p})"
  by (auto simp: resting_set_def)

lemma level_ok_upd_other:
  assumes "level_ok E h x" "p \<notin> set (live (snd x))"
  shows "level_ok E (h(p \<mapsto> ord)) x"
proof -
  have "same_ids h (h(p \<mapsto> ord)) (live (snd x))" using assms(2) by (auto simp: same_ids_def)
  moreover have "(h(p \<mapsto> ord)) q = h q" if "q \<in> set (live (snd x))" for q using assms(2) that by auto
  moreover have "level_inv (h(p \<mapsto> ord)) (snd x)"
    using assms(1) calculation(1) lv2.inv_same_ids unfolding level_ok_def by blast
  ultimately show ?thesis using assms(1) by (simp add: level_ok_def)
qed

text \<open>An order that keeps its id, side, price and activity may change in other ways.\<close>

lemma side_inv_update:
  assumes "side_inv_except E sd h ls" "h p = Some old"
    "ord_id ord = ord_id old" "ord_side ord = ord_side old" "ord_price ord = ord_price old"
    "active ord = active old"
  shows "side_inv_except E sd (h(p \<mapsto> ord)) ls"
proof (rule side_inv_store [OF assms(1)])
  show "same_ids h (h(p \<mapsto> ord)) (side_ptrs ls)" using assms by (intro same_ids_upd) auto
  show "resting_set sd (h(p \<mapsto> ord)) = resting_set sd h"
    using assms by (auto simp: resting_set_upd) (auto simp: resting_set_def)
qed (use assms in auto)

text \<open>An order that rests neither before nor after on the side may change, or appear, as it likes.\<close>

lemma side_inv_other:
  assumes inv: "side_inv_except E sd h ls"
    and p: "h p = None \<or> (\<exists>old. h p = Some old \<and> (ord_side old \<noteq> sd \<or> \<not> active old))"
    and ord: "ord_side ord \<noteq> sd \<or> \<not> active ord"
  shows "side_inv_except E sd (h(p \<mapsto> ord)) ls"
proof (rule side_inv_store [OF inv])
  have np: "p \<notin> set (side_ptrs ls)" using side_ptr [OF inv] p by fastforce
  then show "same_ids h (h(p \<mapsto> ord)) (side_ptrs ls)" by (auto simp: same_ids_def)
  show "resting_set sd (h(p \<mapsto> ord)) = resting_set sd h"
    using p ord by (auto simp: resting_set_upd resting_set_def)
  show "ord_price (the ((h(p \<mapsto> ord)) q)) = ord_price (the (h q))" if "q \<in> set (side_ptrs ls)" for q
    using np that by auto
qed

section \<open>Taking an order out of its level\<close>

lemma side_take:
  assumes inv: "side_inv sd h (ls1 @ (k, lv) # ls2)" and p: "p \<in> set (live lv)" "h p = Some ord"
  shows "\<exists>lv'. level_remove_order (ord_id ord) lv = Inr (True, lv') \<and>
    live lv' = remove1 p (live lv) \<and> level_inv h lv' \<and>
    side_inv_except {k} sd (h(p := None)) (ls1 @ (k, lv') # ls2)"
proof -
  have ok: "level_ok {} h (k, lv)" using inv by (auto simp: side_inv_except_def)
  then have li: "level_inv h lv" by (simp add: level_ok_def)
  then obtain lv' where lv': "level_remove_order (ord_id ord) lv = Inr (True, lv')" "level_inv h lv'"
      "live lv' = remove1 p (live lv)"
    using lv2.remove_law p by blast
  let ?h = "h(p := None)" and ?ls = "ls1 @ (k, lv') # ls2"
  note out = level_unique [OF inv p(1)]
  have np: "p \<notin> set (live lv')" using lv2.live_distinct [OF li] lv'(3) by simp
  have other: "level_ok {k} ?h x" if "x \<in> set ls1 \<union> set ls2" for x
  proof -
    have "p \<notin> set (live (snd x))" using out that by (cases x) (auto simp: side_ptrs_mem)
    moreover have "level_ok {} h x" using inv that by (auto simp: side_inv_except_def)
    ultimately show ?thesis
      by (auto simp: level_ok_def same_ids_def intro: lv2.inv_same_ids)
  qed
  have "same_ids h ?h (live lv')" using np by (auto simp: same_ids_def)
  then have "level_ok {k} ?h (k, lv')"
    using ok lv' np by (auto simp: level_ok_def intro: lv2.inv_same_ids dest: set_remove1_subset [THEN subsetD])
  moreover have "map_sorted (side_lt sd) ?ls"
    using inv side_map.sorted_write by (auto simp: side_inv_except_def)
  moreover have "set (side_ptrs ?ls) = set (remove1 p (side_ptrs (ls1 @ (k, lv) # ls2)))"
    using side_ptrs_split [OF inv p(1)] lv'(3) by simp
  moreover have "set (remove1 p (side_ptrs (ls1 @ (k, lv) # ls2))) = resting_set sd ?h"
    using inv side_ptrs_distinct [OF inv] by (auto simp: side_inv_except_def resting_set_def split: if_splits)
  ultimately have "side_inv_except {k} sd ?h ?ls"
    using other by (auto simp: side_inv_except_def)
  then show ?thesis using lv' by blast
qed

lemma side_prune:
  assumes inv: "side_inv_except {k} sd h (ls1 @ (k, lv) # ls2)"
  shows "\<exists>ls'. remove_price_level_if_empty sd k (ls1 @ (k, lv) # ls2) = Inr ls' \<and>
    side_inv sd h ls' \<and> side_ptrs ls' = side_ptrs (ls1 @ (k, lv) # ls2) \<and>
    set (map fst ls') \<subseteq> set (map fst (ls1 @ (k, lv) # ls2))"
proof -
  have s: "map_sorted (side_lt sd) (ls1 @ (k, lv) # ls2)" and ok: "level_ok {k} h (k, lv)"
    using inv by (auto simp: side_inv_except_def)
  have nan: "\<And>x. x \<in> fst ` set ls1 \<Longrightarrow> \<not> is_nan x" "\<not> is_nan k"
    using side_inv_keys [OF inv] by auto
  have keys: "k \<notin> fst ` set (ls1 @ ls2)"
    using s side_map.lt_irrefl [OF nan(2)] by (force simp: map_sorted_def sorted_wrt_append)
  have other: "level_ok {} h x" if "x \<in> set (ls1 @ ls2)" for x
  proof -
    have "fst x \<noteq> k" using that keys by force
    then show ?thesis using that inv by (auto simp: side_inv_except_def level_ok_def)
  qed
  note pr = prune_level [OF s nan]
  have le: "level_empty lv \<longleftrightarrow> live lv = []" using ok level_empty_live by (auto simp: level_ok_def)
  show ?thesis
  proof (cases "level_empty lv")
    case True
    then have "side_inv sd h (ls1 @ ls2)"
      using inv other le side_map.sorted_erase [OF s] by (auto simp: side_inv_except_def)
    then show ?thesis using pr True le by auto
  next
    case False
    then have "level_ok {} h (k, lv)" using ok le by (simp add: level_ok_def)
    then have "side_inv sd h (ls1 @ (k, lv) # ls2)"
      using inv other by (auto simp: side_inv_except_def)
    then show ?thesis using pr False by auto
  qed
qed

section \<open>Queueing an order at its price\<close>

abbreviation price_of :: "order_store \<Rightarrow> order_ptr \<Rightarrow> price" where
  "price_of h p \<equiv> ord_price (the (h p))"

lemma level_add_store:
  "h p = Some ord \<Longrightarrow> st p = Some ord \<Longrightarrow> level_add_order st p lv = level_add_order h p lv"
  by (simp add: level_add_order_def)

text \<open>A price compares with the orders of a level as it does with the key of the level.\<close>

lemma lt_level_key:
  assumes "level_ok E h (k, lv)" "q \<in> set (live lv)" "\<not> is_nan a"
  shows "side_lt sd a (price_of h q) \<longleftrightarrow> side_lt sd a k"
proof -
  have "dbl_eq (price_of h q) k" using assms by (simp add: level_ok_def)
  then have "\<not> is_nan (price_of h q)" "\<not> is_nan k" "equivalent (side_lt sd) (price_of h q) k"
    using dbl_eq_simps(1,2) equivalent_side_lt by blast+
  then show ?thesis using side_map.lt_equiv_right assms(3) by blast
qed

text \<open>
  The new order goes behind every order that it is not strictly better than, and in front of the
  others: price priority, then time priority. \<open>H\<close> is the store with the new order in it.
\<close>

definition queued_behind ::
    "order_side \<Rightarrow> order_store \<Rightarrow> price \<Rightarrow> order_ptr \<Rightarrow> order_ptr list \<Rightarrow> order_ptr list \<Rightarrow> bool" where
  "queued_behind sd h a p ps ps' \<longleftrightarrow>
     (\<exists>xs ys. ps = xs @ ys \<and> ps' = xs @ p # ys \<and>
        (\<forall>q \<in> set xs. \<not> side_lt sd a (price_of h q)) \<and> (\<forall>q \<in> set ys. side_lt sd a (price_of h q)))"

lemma level_place:
  assumes ok: "\<And>x. x \<in> set (ls1 @ ls2) \<Longrightarrow> level_ok E h x"
    and sorted: "map_sorted (side_lt sd) (ls1 @ (k, lv) # ls2)"
    and nan: "\<not> is_nan a" "\<not> is_nan k" and ak: "dbl_eq a k"
    and ps: "\<forall>q \<in> set ps. dbl_eq (price_of h q) k"
  shows "queued_behind sd h a p (side_ptrs ls1 @ ps @ side_ptrs ls2) (side_ptrs ls1 @ (ps @ [p]) @ side_ptrs ls2)"
proof -
  have eqv: "equivalent (side_lt sd) a k" using ak nan equivalent_side_lt by blast
  have before: "\<not> side_lt sd a (price_of h q)" if "q \<in> set (side_ptrs ls1)" for q
  proof -
    obtain k' lv' where m: "(k', lv') \<in> set ls1" "q \<in> set (live lv')" using \<open>q \<in> _\<close> by (auto simp: side_ptrs_mem)
    then have "side_lt sd k' k" using sorted by (auto simp: map_sorted_def sorted_wrt_append)
    moreover have okm: "level_ok E h (k', lv')" using ok m(1) by simp
    moreover have "\<not> is_nan k'" using okm by (simp add: level_ok_def)
    ultimately show ?thesis
      using lt_level_key [OF okm m(2) nan(1)] side_map.lt_equiv_left [OF nan _ eqv] side_map.lt_asym nan(2)
      by blast
  qed
  have after: "side_lt sd a (price_of h q)" if "q \<in> set (side_ptrs ls2)" for q
  proof -
    obtain k' lv' where m: "(k', lv') \<in> set ls2" "q \<in> set (live lv')" using \<open>q \<in> _\<close> by (auto simp: side_ptrs_mem)
    then have "side_lt sd k k'" using sorted by (auto simp: map_sorted_def sorted_wrt_append)
    moreover have okm: "level_ok E h (k', lv')" using ok m(1) by simp
    moreover have "\<not> is_nan k'" using okm by (simp add: level_ok_def)
    ultimately show ?thesis
      using lt_level_key [OF okm m(2) nan(1)] side_map.lt_equiv_left [OF nan _ eqv] by blast
  qed
  have same: "\<not> side_lt sd a (price_of h q)" if "q \<in> set ps" for q
  proof -
    have "dbl_eq a (price_of h q)" using ps that ak dbl_eq_simps(3,4) by blast
    then show ?thesis using equivalent_side_lt dbl_eq_simps(1,2) by blast
  qed
  show ?thesis
    unfolding queued_behind_def
    by (rule exI [of _ "side_ptrs ls1 @ ps"], rule exI [of _ "side_ptrs ls2"])
      (use before after same in auto)
qed

lemma side_add_at:
  assumes ok: "\<And>x. x \<in> set (ls1 @ ls2) \<Longrightarrow> level_ok E h x"
    and sorted: "map_sorted (side_lt sd) (ls1 @ (k, lv) # ls2)"
    and lv: "level_ok {k} H (k, lv)" "live lv = ps @ [p]" "\<forall>q \<in> set ps. dbl_eq (price_of h q) k"
    and new: "h p = None" and H: "H = h(p \<mapsto> ord)" "dbl_eq (ord_price ord) k"
    and nan: "\<not> is_nan (ord_price ord)" "\<not> is_nan k"
    and rest: "insert p (set (side_ptrs (ls1 @ ls2)) \<union> set ps) = resting_set sd H"
  shows "side_inv_except E sd H (ls1 @ (k, lv) # ls2) \<and>
    queued_behind sd h (ord_price ord) p (side_ptrs ls1 @ ps @ side_ptrs ls2)
      (side_ptrs (ls1 @ (k, lv) # ls2))"
proof
  have "level_ok E H x" if x: "x \<in> set (ls1 @ ls2)" for x
  proof -
    have "p \<notin> set (live (snd x))"
      using level_ptr [of E h "fst x" "snd x" p] ok [OF x] new by auto
    then show ?thesis using level_ok_upd_other ok [OF x] H(1) by blast
  qed
  moreover have "level_ok E H (k, lv)" using lv(1,2) by (simp add: level_ok_def)
  moreover have "set (side_ptrs (ls1 @ (k, lv) # ls2)) = resting_set sd H"
    using rest lv(2) by auto
  ultimately show "side_inv_except E sd H (ls1 @ (k, lv) # ls2)"
    using sorted by (auto simp: side_inv_except_def)
  show "queued_behind sd h (ord_price ord) p (side_ptrs ls1 @ ps @ side_ptrs ls2)
      (side_ptrs (ls1 @ (k, lv) # ls2))"
    using level_place [OF ok sorted nan H(2) lv(3), of p] lv(2) by simp
qed

text \<open>What the dispatcher does on a side, in one place: the level it finds or inserts, and the result.\<close>

definition side_added ::
    "order_side \<Rightarrow> order_store \<Rightarrow> order_ptr \<Rightarrow> price \<Rightarrow> side_levels \<Rightarrow> bool \<Rightarrow> side_levels \<Rightarrow> bool" where
  "side_added sd st p a ls inserted ls' \<longleftrightarrow>
     (\<exists>ls1 k lv lv'. emplace_level sd a ls = Inr (inserted, ls1) \<and> level_at sd a ls1 = Inr (k, lv) \<and>
        level_add_order st p lv = Inr lv' \<and> map_write (side_lt sd) k lv' ls1 = ls')"

lemma resting_set_new:
  assumes "active ord" "ord_side ord = sd" "set (side_ptrs ls) = resting_set sd h"
  shows "insert p (set (side_ptrs ls)) = resting_set sd (h(p \<mapsto> ord))"
  using assms by (simp add: resting_set_upd)

lemma side_add:
  assumes inv: "side_inv_except E sd h ls" and new: "h p = None" and st: "st p = Some ord"
    and ord: "active ord" "ord_side ord = sd" "\<not> is_nan (ord_price ord)"
    and fresh: "\<And>q o'. h q = Some o' \<Longrightarrow> ord_id o' \<noteq> ord_id ord"
    and E: "\<And>k. k \<in> E \<Longrightarrow> \<not> dbl_eq (ord_price ord) k"
  shows "\<exists>inserted ls'. side_added sd st p (ord_price ord) ls inserted ls' \<and>
    side_inv_except E sd (h(p \<mapsto> ord)) ls' \<and>
    queued_behind sd h (ord_price ord) p (side_ptrs ls) (side_ptrs ls') \<and>
    (\<not> inserted \<longrightarrow> map fst ls' = map fst ls) \<and>
    (\<forall>x \<in> set ls. \<not> dbl_eq (ord_price ord) (fst x) \<longrightarrow> x \<in> set ls')"
proof -
  let ?a = "ord_price ord" and ?H = "h(p \<mapsto> ord)"
  have s: "map_sorted (side_lt sd) ls" and ok: "\<And>x. x \<in> set ls \<Longrightarrow> level_ok E h x"
    and rs: "set (side_ptrs ls) = resting_set sd h"
    using inv by (auto simp: side_inv_except_def)
  have nans: "\<And>x. x \<in> fst ` set ls \<Longrightarrow> \<not> is_nan x" using side_inv_keys [OF inv] by blast
  have H: "?H p = Some ord" by simp
  have np: "p \<notin> set (live (snd x))" if "x \<in> set ls" for x
    using level_ptr [of E h "fst x" "snd x" p] ok [OF that] new by auto
  note add_st = level_add_store [of ?H p ord st, OF H st]
  note rest = resting_set_new [OF ord(1,2) rs, of p]
  show ?thesis
  proof (cases "map_find (side_lt sd) ?a ls")
    case (Some kv)
    then obtain k lv where found: "map_find (side_lt sd) ?a ls = Some (k, lv)" by (cases kv) auto
    obtain ls1 ls2 where ls: "ls = ls1 @ (k, lv) # ls2" and eqv: "equivalent (side_lt sd) k ?a"
      and emp: "\<And>w. map_try_emplace (side_lt sd) ?a w ls = (False, ls)"
      using side_map.find_split [OF found s ord(3) nans] by metis
    have kn: "\<not> is_nan k" using nans ls by simp
    have ak: "dbl_eq ?a k" using eqv equivalent_side_lt kn ord(3) dbl_eq_simps(3) by blast
    have okl: "level_ok E h (k, lv)" using ok ls by simp
    then have ne: "live lv \<noteq> []" using E ak by (auto simp: level_ok_def)
    have npl: "p \<notin> set (live lv)" using np [of "(k, lv)"] ls by simp
    then have "level_ok E ?H (k, lv)" using level_ok_upd_other [OF okl, of p ord] by simp
    then have li: "level_inv ?H lv" by (simp add: level_ok_def)
    have "ord_id (the (?H q)) \<noteq> ord_id ord" if "q \<in> set (live lv)" for q
    proof -
      obtain o' where "h q = Some o'" using level_ptr [OF okl \<open>q \<in> set (live lv)\<close>] by blast
      moreover have "q \<noteq> p" using that npl by blast
      ultimately show ?thesis using fresh by simp
    qed
    then have "ord_id ord \<notin> set (ids_of ?H (live lv))" by (force simp: ids_of_def)
    then obtain lv' where lv': "level_add_order ?H p lv = Inr lv'" "level_inv ?H lv'" "live lv' = live lv @ [p]"
      using lv2.add_law [OF li lv2.nonempty_ready [OF li ne] H] by blast
    have eqs: "\<forall>q \<in> set (live lv). dbl_eq (price_of h q) k" using okl by (simp add: level_ok_def)
    have "level_ok {k} ?H (k, lv')"
      using lv' kn eqs ak npl by (auto simp: level_ok_def)
    moreover have "map_sorted (side_lt sd) (ls1 @ (k, lv') # ls2)"
      using side_map.sorted_write [OF s [unfolded ls]] .
    moreover have "insert p (set (side_ptrs (ls1 @ ls2)) \<union> set (live lv)) = resting_set sd ?H"
      using rest ls by auto
    ultimately have res: "side_inv_except E sd ?H (ls1 @ (k, lv') # ls2) \<and>
        queued_behind sd h ?a p (side_ptrs ls1 @ live lv @ side_ptrs ls2) (side_ptrs (ls1 @ (k, lv') # ls2))"
      using side_add_at [of ls1 ls2 E h sd k lv' ?H "live lv" p ord] ok ls lv'(3) eqs new ak ord(3) kn
      by auto
    have "map_write (side_lt sd) k lv' ls = ls1 @ (k, lv') # ls2"
      unfolding ls by (rule side_map.find_emplaced(2)) (use s nans kn ls in auto)
    moreover have "emplace_level sd ?a ls = Inr (False, ls)" "level_at sd ?a ls = Inr (k, lv)"
      using emp found ord(3) by (simp_all add: emplace_level_def level_at_def)
    ultimately have "side_added sd st p ?a ls False (ls1 @ (k, lv') # ls2)"
      using lv'(1) add_st by (auto simp: side_added_def)
    then show ?thesis using res ls ak by (intro exI conjI) (assumption | auto)+
  next
    case None
    obtain ls1 ls2 where ls: "ls = ls1 @ ls2"
      and emp: "\<And>w. map_try_emplace (side_lt sd) ?a w ls = (True, ls1 @ (?a, w) # ls2)"
      and srt: "\<And>w. map_sorted (side_lt sd) (ls1 @ (?a, w) # ls2)"
      using side_map.emplace_split [OF None s ord(3) nans] by blast
    let ?lv = "new_price_level ?a"
    have nans1: "\<And>x. x \<in> fst ` set ls1 \<Longrightarrow> \<not> is_nan x" using nans ls by auto
    have aa: "dbl_eq ?a ?a" using ord(3) by (rule dbl_eq_simps(5))
    obtain lv' where lv': "level_add_order ?H p ?lv = Inr lv'" "level_inv ?H lv'" "live lv' = [p]"
      using lv2.add_law [of ?H ?lv p ord] by auto
    have "level_ok {?a} ?H (?a, lv')" using lv' ord(3) aa by (simp add: level_ok_def)
    then have res: "side_inv_except E sd ?H (ls1 @ (?a, lv') # ls2) \<and>
        queued_behind sd h ?a p (side_ptrs ls1 @ [] @ side_ptrs ls2) (side_ptrs (ls1 @ (?a, lv') # ls2))"
      using side_add_at [of ls1 ls2 E h sd ?a lv' ?H "[]" p ord] ok ls lv'(3) new aa ord(3) srt rest
      by auto
    note fe = side_map.find_emplaced [OF srt ord(3) nans1]
    have "side_added sd st p ?a ls True (ls1 @ (?a, lv') # ls2)"
      using emp fe lv'(1) add_st ord(3) by (auto simp: side_added_def emplace_level_def level_at_def)
    then show ?thesis using res ls by (intro exI conjI) (assumption | auto)+
  qed
qed

section \<open>Queueing an order again at its level\<close>

text \<open>A level may be exchanged for one that queues the same orders.\<close>

lemma side_exchange:
  assumes inv: "side_inv_except E sd h (ls1 @ (k, lv) # ls2)"
    and lv': "level_inv h lv'" "set (live lv') = set (live lv)"
  shows "side_inv_except E sd h (ls1 @ (k, lv') # ls2)"
proof -
  have "level_ok E h (k, lv)" using inv by (simp add: side_inv_except_def)
  then have "level_ok E h (k, lv')" using lv' by (auto simp: level_ok_def)
  moreover have "map_sorted (side_lt sd) (ls1 @ (k, lv') # ls2)"
    using inv side_map.sorted_write [of sd ls1 k lv ls2 lv'] by (simp add: side_inv_except_def)
  ultimately show ?thesis using inv lv'(2) by (auto simp: side_inv_except_def)
qed

lemma side_requeue:
  assumes inv: "side_inv sd h (ls1 @ (k, lv) # ls2)" and p: "p \<in> set (live lv)" "h p = Some ord"
    and other: "live lv \<noteq> [p]"
  shows "\<exists>lv1 lv2. level_remove_order (ord_id ord) lv = Inr (True, lv1) \<and>
    level_add_order h p lv1 = Inr lv2 \<and> live lv2 = remove1 p (live lv) @ [p] \<and>
    side_inv sd h (ls1 @ (k, lv2) # ls2)"
proof -
  have li: "level_inv h lv" using inv by (simp add: side_inv_except_def level_ok_def)
  obtain lv1 lv2 where lv: "level_remove_order (ord_id ord) lv = Inr (True, lv1)"
      "level_add_order h p lv1 = Inr lv2" "level_inv h lv2" "live lv2 = remove1 p (live lv) @ [p]"
    using lv2.requeue [OF li p other] by blast
  have "set (live lv2) = set (live lv)"
    using lv(4) p(1) lv2.live_distinct [OF li] by auto
  then show ?thesis using side_exchange [OF inv lv(3)] lv by blast
qed

section \<open>Matching at the head\<close>

definition after_fill :: "order \<Rightarrow> order_ptr list \<Rightarrow> order_ptr list" where
  "after_fill ord ps = (if ord_status ord = FULLY_FILLED then tl ps else ps)"

lemma level_inv_le:
  "level_inv h lv \<Longrightarrow> h \<subseteq>\<^sub>m st \<Longrightarrow> level_inv st lv"
  by (rule lv2.inv_same_ids) (auto simp: same_ids_def map_le_def dom_def)

lemma level_inv_ge:
  assumes "level_inv st lv" "h \<subseteq>\<^sub>m st" "\<And>p. p \<in> set (live lv) \<Longrightarrow> h p \<noteq> None"
  shows "level_inv h lv"
proof (rule lv2.inv_same_ids [OF assms(1)])
  have "h p = st p" if "p \<in> set (live lv)" for p
    using assms(2,3) that by (auto simp: map_le_def dom_def)
  then show "same_ids st h (live lv)" by (simp add: same_ids_def)
qed

text \<open>
  The head order of a side has become \<open>ord\<close>, filled or not, in the store \<open>H\<close>: the pop and the
  pruning leave the side with the filled order gone and everything else in its place.
\<close>

lemma side_match:
  assumes inv: "side_inv sd h ((k, lv) # rest)" and lv: "live lv = p # ps"
    and old: "h p = Some old" "active old" "ord_side old = sd"
    and ord: "ord_id ord = ord_id old" "ord_side ord = ord_side old" "ord_price ord = ord_price old"
      "active ord \<or> ord_status ord = FULLY_FILLED"
    and H: "H = h(p \<mapsto> ord)" "H \<subseteq>\<^sub>m st"
  shows "\<exists>lv' ls'. pop_front_order_if_filled st lv = Inr lv' \<and>
    remove_price_level_if_empty sd k (map_write (side_lt sd) k lv' ((k, lv) # rest)) = Inr ls' \<and>
    side_inv sd H ls' \<and> side_ptrs ls' = after_fill ord (side_ptrs ((k, lv) # rest)) \<and>
    set (map fst ls') \<subseteq> set (map fst ((k, lv) # rest))"
proof -
  have okl: "level_ok {} h (k, lv)" and s: "map_sorted (side_lt sd) ((k, lv) # rest)"
    and rs: "set (side_ptrs ((k, lv) # rest)) = resting_set sd h"
    using inv by (auto simp: side_inv_except_def)
  have kn: "\<not> is_nan k" and li: "level_inv h lv" using okl by (auto simp: level_ok_def)
  have liH: "level_inv H lv" unfolding H(1)
    by (rule lv2.inv_same_ids [OF li]) (use same_ids_upd [of h p old ord] old ord in auto)
  have Hp: "H p = Some ord" using H(1) by simp
  then have stp: "st p = Some ord" using H(2) by (auto simp: map_le_def dom_def)
  have alloc: "\<And>q. q \<in> set (live lv) \<Longrightarrow> H q \<noteq> None" using lv2.live_allocated [OF liH] by blast
  have dist: "p \<notin> set ps" using lv2.live_distinct [OF li] lv by simp
  note hd_write = side_map.find_head(2) [OF kn, of sd _ lv rest]
  show ?thesis
  proof (cases "ord_status ord = FULLY_FILLED")
    case True
    then obtain lv' where lv': "pop_front_order_if_filled st lv = Inr lv'" "level_inv st lv'" "live lv' = ps"
      using lv2.pop_filled [OF level_inv_le [OF liH H(2)] lv stp] by blast
    have li': "level_inv H lv'" using level_inv_ge [OF lv'(2) H(2)] lv'(3) alloc lv by auto
    have out: "p \<notin> set (side_ptrs rest)" using level_unique(2) [of _ _ _ "[]" k lv rest p] inv lv by simp
    have "level_ok {k} H x" if x: "x \<in> set rest" for x
    proof -
      have "p \<notin> set (live (snd x))" using x out side_ptrs_mem [of p rest] by (metis prod.collapse)
      moreover have "level_ok {} h x" using x inv by (simp add: side_inv_except_def)
      then have "level_ok {k} h x" by (auto simp: level_ok_def)
      ultimately show ?thesis unfolding H(1) by (rule level_ok_upd_other [rotated])
    qed
    moreover have "level_ok {k} H (k, lv')"
      using okl li' lv'(3) lv dist H(1) by (auto simp: level_ok_def)
    moreover have "set ps \<union> set (side_ptrs rest) = resting_set sd H"
      using rs lv dist out True unfolding H(1) resting_set_upd by (auto simp: active_def)
    ultimately have "side_inv_except {k} sd H ([] @ (k, lv') # rest)"
      using side_map.sorted_write [of sd "[]" k lv rest lv'] s lv'(3)
      by (simp add: side_inv_except_def)
    from side_prune [OF this] show ?thesis
      using lv' hd_write lv True by (auto simp: after_fill_def)
  next
    case False
    then have pop: "pop_front_order_if_filled st lv = Inr lv"
      using lv2.pop_unfilled [OF level_inv_le [OF liH H(2)] lv stp] by blast
    have "side_inv sd H ((k, lv) # rest)" unfolding H(1)
      using side_inv_update [OF inv old(1)] ord old False by blast
    then have "side_inv_except {k} sd H ([] @ (k, lv) # rest)" using side_inv_mono by fastforce
    from side_prune [OF this] show ?thesis
      using pop hd_write False by (auto simp: after_fill_def)
  qed
qed

end
