(* ===== verification/Book_Invariant.thy ===== *)
theory Book_Invariant
  imports Book_Side
begin

text \<open>
  The invariant of a whole book and its preservation by the parts of \<open>orderbook.h\<close>: allocation
  and id assignment, the dispatchers, and one turn of the matching loop. \<open>held\<close> is the store of the
  orders that the pool has handed out; the slots beyond hold default orders that nothing points to.
\<close>

section \<open>The orders of a book\<close>

definition held :: "order_pool \<Rightarrow> order_store" where
  "held pool p = (if ptr_index p < pool_next_free_index pool then pool_store pool p else None)"

abbreviation orders :: "orderbook \<Rightarrow> order_store" where
  "orders ob \<equiv> held (ob_order_pool ob)"

definition pristine :: "order_pool \<Rightarrow> bool" where
  "pristine pool \<longleftrightarrow>
     pool_next_free_index pool \<le> length (pool_orders pool) \<and>
     (\<forall>i. pool_next_free_index pool \<le> i \<and> i < length (pool_orders pool) \<longrightarrow>
        ord_quantity_filled (pool_orders pool ! i) = 0 \<and> ord_status (pool_orders pool ! i) = NEW)"

definition registry_ok :: "order_store \<Rightarrow> (order_id \<times> order_ptr) list \<Rightarrow> bool" where
  "registry_ok h reg \<longleftrightarrow>
     (\<forall>i p. map_of reg i = Some p \<longleftrightarrow> (\<exists>ord. h p = Some ord \<and> ord_id ord = i))"

definition orders_inv :: "orderbook \<Rightarrow> bool" where
  "orders_inv ob \<longleftrightarrow>
     pristine (ob_order_pool ob) \<and> registry_ok (orders ob) (ob_order_registry ob) \<and>
     (\<forall>p ord. orders ob p = Some ord \<longrightarrow> order_wf ord \<and> ord_id ord < ob_next_available_order_id ob)"

definition book_inv :: "orderbook \<Rightarrow> bool" where
  "book_inv ob \<longleftrightarrow> (\<forall>sd. side_inv sd (orders ob) (levels_of sd ob)) \<and> orders_inv ob"

text \<open>The ids that the book has left, and those that the allocator has not handed out yet.\<close>

definition ids_ok :: "world \<Rightarrow> orderbook \<Rightarrow> bool" where
  "ids_ok w ob \<longleftrightarrow>
     0 < ida_block_size (wd_ids w) \<and>
     ob_next_available_order_id ob \<le> blk_end (ob_order_id_block ob) \<and>
     blk_end (ob_order_id_block ob) \<le> ida_global_counter (wd_ids w)"

definition ids_room :: "world \<Rightarrow> orderbook \<Rightarrow> bool" where
  "ids_room w ob \<longleftrightarrow>
     (ob_next_available_order_id ob = blk_end (ob_order_id_block ob) \<longrightarrow> block_left (wd_ids w))"

text \<open>No bid is at or above an ask.\<close>

definition uncrossed :: "orderbook \<Rightarrow> bool" where
  "uncrossed ob \<longleftrightarrow> (\<forall>b \<in> set (map fst (ob_bids ob)). \<forall>a \<in> set (map fst (ob_asks ob)). \<not> b \<ge> a)"

section \<open>Frames\<close>

lemma all_order_side: "(\<forall>sd. P sd) \<longleftrightarrow> P BUY \<and> P SELL"
  by (metis order_side.exhaust)

lemma levels_of_set [simp]:
  "levels_of sd' (set_levels sd ls ob) = (if sd' = sd then ls else levels_of sd' ob)"
  by (cases sd; cases sd') simp_all

lemma set_levels_frame [simp, frame_simps]:
  "ob_order_pool (set_levels sd ls ob) = ob_order_pool ob"
  "ob_order_registry (set_levels sd ls ob) = ob_order_registry ob"
  "ob_order_id_block (set_levels sd ls ob) = ob_order_id_block ob"
  "ob_next_available_order_id (set_levels sd ls ob) = ob_next_available_order_id ob"
  "ob_trades_completed (set_levels sd ls ob) = ob_trades_completed ob"
  "ob_try_match_flag (set_levels sd ls ob) = ob_try_match_flag ob"
  "ob_instrument (set_levels sd ls ob) = ob_instrument ob"
  by (cases sd; simp)+

lemma write_order_frame [simp, frame_simps]:
  "levels_of sd (write_order p ord ob) = levels_of sd ob"
  "ob_bids (write_order p ord ob) = ob_bids ob"
  "ob_asks (write_order p ord ob) = ob_asks ob"
  "ob_order_registry (write_order p ord ob) = ob_order_registry ob"
  "ob_order_id_block (write_order p ord ob) = ob_order_id_block ob"
  "ob_next_available_order_id (write_order p ord ob) = ob_next_available_order_id ob"
  "ob_trades_completed (write_order p ord ob) = ob_trades_completed ob"
  "ob_try_match_flag (write_order p ord ob) = ob_try_match_flag ob"
  "ob_instrument (write_order p ord ob) = ob_instrument ob"
  by (cases sd; simp add: write_order_def)+

lemma levels_of_upd [simp, frame_simps]:
  "levels_of sd (ob\<lparr>ob_try_match_flag := f\<rparr>) = levels_of sd ob"
  "levels_of sd (ob\<lparr>ob_order_registry := reg\<rparr>) = levels_of sd ob"
  "levels_of sd (ob\<lparr>ob_trades_completed := n\<rparr>) = levels_of sd ob"
  "levels_of sd (ob\<lparr>ob_order_pool := pool\<rparr>) = levels_of sd ob"
  "levels_of sd (ob\<lparr>ob_order_id_block := b\<rparr>) = levels_of sd ob"
  "levels_of sd (ob\<lparr>ob_next_available_order_id := i\<rparr>) = levels_of sd ob"
  by (cases sd; simp)+

lemma held_le [simp]: "held pool \<subseteq>\<^sub>m pool_store pool"
  by (auto simp: held_def map_le_def split: if_splits)

lemma held_store: "held pool p = Some ord \<Longrightarrow> pool_store pool p = Some ord"
  by (simp add: held_def split: if_splits)

lemma held_write:
  assumes "held pool p = Some old"
  shows "held (pool_write p ord pool) = (held pool)(p \<mapsto> ord)"
proof (rule ext)
  fix x
  show "held (pool_write p ord pool) x = ((held pool)(p \<mapsto> ord)) x"
    using assms pool_store_write [OF held_store [OF assms], of ord]
    by (auto simp: held_def split: if_splits)
qed

lemma orders_write: "orders ob p = Some old \<Longrightarrow> orders (write_order p ord ob) = (orders ob)(p \<mapsto> ord)"
  by (simp add: write_order_def held_write)

lemma deref_orders [simp]: "orders ob p = Some ord \<Longrightarrow> deref (store ob) p = Inr ord"
  by (simp add: held_store)

lemma pristine_write: "pristine pool \<Longrightarrow> held pool p = Some old \<Longrightarrow> pristine (pool_write p ord pool)"
  by (cases p) (auto simp: pristine_def pool_write_def held_def nth_list_update split: if_splits)

text \<open>What only \<open>add_order\<close> changes: the registry, the ids, and the extent of the pool.\<close>

definition keeps :: "orderbook \<Rightarrow> orderbook \<Rightarrow> bool" where
  "keeps ob ob' \<longleftrightarrow>
     ob_order_registry ob' = ob_order_registry ob \<and>
     ob_order_id_block ob' = ob_order_id_block ob \<and>
     ob_next_available_order_id ob' = ob_next_available_order_id ob \<and>
     ob_instrument ob' = ob_instrument ob \<and>
     pool_next_free_index (ob_order_pool ob') = pool_next_free_index (ob_order_pool ob) \<and>
     length (pool_orders (ob_order_pool ob')) = length (pool_orders (ob_order_pool ob)) \<and>
     pool_block (ob_order_pool ob') = pool_block (ob_order_pool ob)"

lemma keeps_refl [simp]: "keeps ob ob"
  by (simp add: keeps_def)

lemma keeps_trans: "keeps a b \<Longrightarrow> keeps b c \<Longrightarrow> keeps a c"
  by (simp add: keeps_def)

lemma keeps_simps [simp]:
  "keeps ob (write_order p ord ob') = keeps ob ob'"
  "keeps ob (set_levels sd ls ob') = keeps ob ob'"
  "keeps ob (ob'\<lparr>ob_try_match_flag := f\<rparr>) = keeps ob ob'"
  "keeps ob (ob'\<lparr>ob_trades_completed := n\<rparr>) = keeps ob ob'"
  "keeps ob (ob'\<lparr>ob_bids := ls\<rparr>) = keeps ob ob'" "keeps ob (ob'\<lparr>ob_asks := ls\<rparr>) = keeps ob ob'"
  by (simp_all add: keeps_def write_order_def)

lemma ids_ok_simps [simp]:
  "ids_ok w (write_order p ord ob) = ids_ok w ob" "ids_ok w (set_levels sd ls ob) = ids_ok w ob"
  by (simp_all add: ids_ok_def)

lemma keeps_ids: "keeps ob ob' \<Longrightarrow> ids_ok w ob' = ids_ok w ob"
  by (simp add: keeps_def ids_ok_def)

section \<open>The orders under writes\<close>

lemma registry_ok_upd:
  assumes "registry_ok h reg" "h p = Some old" "ord_id ord = ord_id old"
  shows "registry_ok (h(p \<mapsto> ord)) reg"
  using assms by (fastforce simp: registry_ok_def)

lemma orders_inv_write:
  assumes "orders_inv ob" "orders ob p = Some old" "ord_id ord = ord_id old" "order_wf ord"
  shows "orders_inv (write_order p ord ob)"
proof -
  have "pristine (ob_order_pool (write_order p ord ob))"
    using assms pristine_write by (simp add: orders_inv_def write_order_def)
  moreover have "ord_id ord < ob_next_available_order_id ob" using assms by (auto simp: orders_inv_def)
  ultimately show ?thesis
    using assms registry_ok_upd [of "orders ob" "ob_order_registry ob" p old ord]
    by (auto simp: orders_inv_def orders_write)
qed

lemma orders_inv_frame:
  "ob_order_pool ob' = ob_order_pool ob \<Longrightarrow> ob_order_registry ob' = ob_order_registry ob \<Longrightarrow>
   ob_next_available_order_id ob' = ob_next_available_order_id ob \<Longrightarrow> orders_inv ob' = orders_inv ob"
  by (simp add: orders_inv_def)

lemma orders_inv_set_levels [simp]: "orders_inv (set_levels sd ls ob) = orders_inv ob"
  by (rule orders_inv_frame) simp_all

lemma registered:
  assumes "orders_inv ob"
  shows "map_of (ob_order_registry ob) i = Some p \<longleftrightarrow> (\<exists>ord. orders ob p = Some ord \<and> ord_id ord = i)"
  using assms by (simp add: orders_inv_def registry_ok_def)

lemma ids_unique:
  assumes "orders_inv ob" "orders ob p = Some a" "orders ob q = Some b" "ord_id a = ord_id b"
  shows "p = q"
  using registered [OF assms(1), of "ord_id a"] assms by (metis option.inject)

section \<open>A new book\<close>

lemma new_orderbook_inv:
  assumes "new_orderbook_sized n instr s w = (ob, w')"
  shows "book_inv ob" "uncrossed ob" "orders ob p = None"
proof -
  let ?pool = "fst (new_order_pool (wd_clock w) n)"
  have ob: "ob_bids ob = []" "ob_asks ob = []" "ob_order_registry ob = []" "ob_order_pool ob = ?pool"
    using assms by (auto simp: new_orderbook_sized_def new_order_pool_def Let_def split_beta)
  have none: "orders ob p = None" for p using ob by (simp add: held_def new_order_pool_def)
  then show "orders ob p = None" .
  have "pristine ?pool" by (simp add: pristine_def new_order_pool_def default_order_def)
  then have "orders_inv ob" using ob none by (simp add: orders_inv_def registry_ok_def)
  moreover have "levels_of sd ob = []" for sd using ob by (cases sd) simp_all
  ultimately show "book_inv ob" using none by (simp add: book_inv_def side_inv_nil)
  show "uncrossed ob" using ob by (simp add: uncrossed_def)
qed

lemma new_orderbook_ids:
  assumes "new_orderbook_sized n instr s w = (ob, w')" "block_left (wd_ids w)"
    "0 < ida_block_size (wd_ids w)"
  shows "ids_ok w' ob"
proof -
  have "ida_global_counter (wd_ids w) \<le> ida_global_counter (wd_ids w) + ida_block_size (wd_ids w)"
    using assms(2) by (simp add: block_left_def)
  then show ?thesis using assms(1,3)
    by (auto simp: new_orderbook_sized_def Let_def split_beta ids_ok_def)
qed

section \<open>Entering a new order\<close>

text \<open>Where an id comes from: the rest of the book's block, or a new block.\<close>

definition ids_drawn :: "world \<Rightarrow> orderbook \<Rightarrow> order_id \<Rightarrow> world \<Rightarrow> orderbook \<Rightarrow> bool" where
  "ids_drawn w ob i w' ob' \<longleftrightarrow> ob_next_available_order_id ob' = i + 1 \<and>
     (if ob_next_available_order_id ob = blk_end (ob_order_id_block ob)
      then (ob_order_id_block ob', wd_ids w') = get_next_id_block (wd_ids w) \<and> i = blk_start (ob_order_id_block ob')
      else i = ob_next_available_order_id ob \<and> ob_order_id_block ob' = ob_order_id_block ob \<and> wd_ids w' = wd_ids w)"

lemma get_order_id_drawn: "get_order_id w ob = (i, w', ob') \<Longrightarrow> ids_drawn w ob i w' ob'"
  by (auto simp: get_order_id_def ids_drawn_def Let_def split: if_splits prod.splits)

lemma get_order_id_fresh:
  assumes "ids_ok w ob" "ids_room w ob" "get_order_id w ob = (i, w', ob')"
  shows "ob_next_available_order_id ob \<le> i" "i < ob_next_available_order_id ob'" "ids_ok w' ob'"
    "wd_clock w' = wd_clock w"
    "ob_order_pool ob' = ob_order_pool ob" "ob_order_registry ob' = ob_order_registry ob"
    "levels_of sd ob' = levels_of sd ob" "ob_trades_completed ob' = ob_trades_completed ob"
    "ob_instrument ob' = ob_instrument ob"
proof -
  let ?b = "ob_order_id_block ob" and ?n = "ob_next_available_order_id ob" and ?a = "wd_ids w"
  have "\<exists>blk. i < blk_end blk \<and> ?n \<le> i \<and> ob_order_id_block ob' = blk \<and>
      ob_next_available_order_id ob' = i + 1 \<and> blk_end blk \<le> ida_global_counter (wd_ids w') \<and>
      ida_block_size (wd_ids w') = ida_block_size ?a"
  proof (cases "?n = blk_end ?b")
    case True
    then have left: "ids_left (Suc 0) ?a" using assms(2) by (simp add: ids_room_def block_left_ids)
    have "0 < unat (ida_block_size ?a)" using assms(1) by (simp add: ids_ok_def word_less_nat_alt)
    then have "ida_global_counter ?a < ida_global_counter ?a + ida_block_size ?a"
      using ids_left_Suc(2) [OF left] by (simp add: word_less_nat_alt)
    then show ?thesis using True assms
      by (auto simp: get_order_id_def Let_def split_beta ids_ok_def)
  next
    case False
    moreover have "?n \<le> blk_end ?b" using assms(1) by (simp add: ids_ok_def)
    ultimately have "?n < blk_end ?b" by (metis order.not_eq_order_implies_strict)
    then show ?thesis using False assms by (auto simp: get_order_id_def ids_ok_def)
  qed
  then obtain blk where blk: "i < blk_end blk" "?n \<le> i" "ob_order_id_block ob' = blk"
    "ob_next_available_order_id ob' = i + 1" "blk_end blk \<le> ida_global_counter (wd_ids w')"
    "ida_block_size (wd_ids w') = ida_block_size ?a" by blast
  show "?n \<le> i" by (rule blk(2))
  have "i < i + 1" "i + 1 \<le> blk_end blk" using next_below [OF blk(1)] by simp_all
  then show "i < ob_next_available_order_id ob'" "ids_ok w' ob'"
    using blk assms(1) by (simp_all add: ids_ok_def)
  show "wd_clock w' = wd_clock w" "ob_order_pool ob' = ob_order_pool ob"
    "ob_order_registry ob' = ob_order_registry ob" "levels_of sd ob' = levels_of sd ob"
    "ob_trades_completed ob' = ob_trades_completed ob" "ob_instrument ob' = ob_instrument ob"
    using assms(3) by (auto simp: get_order_id_def Let_def split_beta split: if_splits)
qed

lemma next_slot:
  assumes "pristine pool" "pool_room pool"
  defines "p \<equiv> Slot (pool_block pool) (pool_next_free_index pool)"
    and "pool' \<equiv> pool\<lparr>pool_next_free_index := Suc (pool_next_free_index pool)\<rparr>"
  shows "held pool p = None" "pristine pool'" "held (pool_write p ord pool') = (held pool)(p \<mapsto> ord)"
    "pool_store pool' p = Some (pool_orders pool ! pool_next_free_index pool)"
    "ord_quantity_filled (pool_orders pool ! pool_next_free_index pool) = 0"
    "ord_status (pool_orders pool ! pool_next_free_index pool) = NEW"
proof -
  show "held pool p = None" by (simp add: held_def p_def)
  show "pristine pool'" using assms by (simp add: pristine_def pool_room_def)
  show "held (pool_write p ord pool') = (held pool)(p \<mapsto> ord)"
  proof (rule ext)
    fix x
    show "held (pool_write p ord pool') x = ((held pool)(p \<mapsto> ord)) x"
      using assms(2) unfolding p_def pool'_def pool_room_def
      by (cases x) (auto simp: held_def pool_write_def nth_list_update less_Suc_eq)
  qed
  show "pool_store pool' p = Some (pool_orders pool ! pool_next_free_index pool)"
    "ord_quantity_filled (pool_orders pool ! pool_next_free_index pool) = 0"
    "ord_status (pool_orders pool ! pool_next_free_index pool) = NEW"
    using assms by (simp_all add: pool_room_def pristine_def)
qed

text \<open>What \<open>copy_from_client\<close> makes of a slot of the pool that has not been used.\<close>

lemma copy_from_client_new:
  assumes "ord_quantity_filled slot = 0" "ord_status slot = NEW"
  shows "order_wf (copy_from_client slot client i)" "active (copy_from_client slot client i)"
    "ord_id (copy_from_client slot client i) = i"
    "ord_side (copy_from_client slot client i) = ord_side client"
    "ord_price (copy_from_client slot client i) = ord_price client"
    "ord_quantity (copy_from_client slot client i) = ord_quantity client"
    "ord_instrument (copy_from_client slot client i) = ord_instrument client"
    "ord_quantity_filled (copy_from_client slot client i) = 0"
    "ord_status (copy_from_client slot client i) = NEW"
  using assms by (simp_all add: copy_from_client_def order_wf_def active_def)

lemma registry_ok_new:
  assumes "registry_ok h reg" "h p = None" "\<And>q o'. h q = Some o' \<Longrightarrow> ord_id o' \<noteq> ord_id ord"
  shows "registry_ok (h(p \<mapsto> ord)) (AList.update (ord_id ord) p reg)"
  using assms by (fastforce simp: registry_ok_def update_conv)

text \<open>
  The order is on its side of the book, registered under a fresh id, behind the orders it is
  not better than; the other side is as it was.
\<close>

definition entered :: "order \<Rightarrow> order_id \<Rightarrow> order_ptr \<Rightarrow> orderbook \<Rightarrow> orderbook \<Rightarrow> bool" where
  "entered ord i p ob ob' \<longleftrightarrow>
     orders ob p = None \<and> orders ob' = (orders ob)(p \<mapsto> ord) \<and> ord_id ord = i \<and>
     ob_next_available_order_id ob \<le> i \<and>
     ob_order_registry ob' = AList.update i p (ob_order_registry ob) \<and>
     queued_behind (ord_side ord) (orders ob) (ord_price ord) p
       (side_ptrs (levels_of (ord_side ord) ob)) (side_ptrs (levels_of (ord_side ord) ob')) \<and>
     (\<forall>sd. sd \<noteq> ord_side ord \<longrightarrow> levels_of sd ob' = levels_of sd ob) \<and>
     (\<not> ob_try_match_flag ob' \<longrightarrow>
        map fst (levels_of (ord_side ord) ob') = map fst (levels_of (ord_side ord) ob)) \<and>
     ob_trades_completed ob' = ob_trades_completed ob \<and> ob_instrument ob' = ob_instrument ob"

lemma add_dispatcher:
  assumes inv: "book_inv ob" and wf: "order_wf ord" "active ord" "\<not> is_nan (ord_price ord)"
    and new: "orders ob p = None" "ob_next_available_order_id ob \<le> ord_id ord"
    and ob2: "orders ob2 = (orders ob)(p \<mapsto> ord)" "\<And>sd. levels_of sd ob2 = levels_of sd ob"
      "pristine (ob_order_pool ob2)" "ob_order_registry ob2 = ob_order_registry ob"
      "ord_id ord < ob_next_available_order_id ob2"
      "ob_trades_completed ob2 = ob_trades_completed ob" "ob_instrument ob2 = ob_instrument ob"
  shows "\<exists>ob3. add_order_dispatcher (ord_side ord) p ob2 = Inr ob3 \<and> book_inv ob3 \<and>
    entered ord (ord_id ord) p ob ob3 \<and>
    ob_order_id_block ob3 = ob_order_id_block ob2 \<and>
    ob_next_available_order_id ob3 = ob_next_available_order_id ob2"
proof -
  let ?sd = "ord_side ord" and ?ls = "levels_of (ord_side ord) ob" and ?h = "orders ob"
  let ?reg = "AList.update (ord_id ord) p (ob_order_registry ob)"
  have oi: "orders_inv ob" and si: "\<And>sd. side_inv sd ?h (levels_of sd ob)"
    using inv by (simp_all add: book_inv_def)
  have older: "ord_id o' < ord_id ord" if "?h q = Some o'" for q o'
    using oi that new(2) by (auto simp: orders_inv_def intro: less_le_trans)
  then have fresh: "ord_id o' \<noteq> ord_id ord" if "?h q = Some o'" for q o' using that by (metis order.irrefl)
  have st: "store ob2 p = Some ord" using ob2(1) held_store by simp
  obtain ins ls' where added: "side_added ?sd (store ob2) p (ord_price ord) ?ls ins ls'"
      "side_inv ?sd (?h(p \<mapsto> ord)) ls'"
      "queued_behind ?sd ?h (ord_price ord) p (side_ptrs ?ls) (side_ptrs ls')"
      "\<not> ins \<longrightarrow> map fst ls' = map fst ?ls"
    using side_add [of "{}" ?sd ?h ?ls p "store ob2" ord] si new(1) st wf(2,3) fresh by auto
  let ?ob3 = "(set_levels ?sd ls' ob2)\<lparr>ob_try_match_flag := ins, ob_order_registry := ?reg\<rparr>"
  have disp: "add_order_dispatcher ?sd p ob2 = Inr ?ob3"
    using added(1) st ob2(2,4) by (auto simp: add_order_dispatcher_def side_added_def)
  have "registry_ok (?h(p \<mapsto> ord)) ?reg"
    using registry_ok_new [of ?h "ob_order_registry ob" p ord] oi new(1) fresh
    by (auto simp: orders_inv_def)
  moreover have "order_wf o' \<and> ord_id o' < ob_next_available_order_id ob2"
    if "(?h(p \<mapsto> ord)) q = Some o'" for q o'
    using that oi older wf(1) ob2(5) by (auto simp: orders_inv_def split: if_splits dest: order.strict_trans)
  ultimately have "orders_inv ?ob3" using ob2 by (simp add: orders_inv_def)
  moreover have "side_inv sd (orders ?ob3) (levels_of sd ?ob3)" for sd
    using added(2) ob2(1,2) new(1) side_inv_other [OF si [of sd], of p ord] by auto
  ultimately have "book_inv ?ob3" by (simp add: book_inv_def)
  moreover have "entered ord (ord_id ord) p ob ?ob3"
    using ob2 new added by (simp add: entered_def)
  ultimately show ?thesis using disp by simp
qed

text \<open>The order that \<open>add_order\<close> makes of a client's order.\<close>

definition accepted :: "order \<Rightarrow> order \<Rightarrow> order_id \<Rightarrow> bool" where
  "accepted ord client i \<longleftrightarrow>
     ord_id ord = i \<and> ord_side ord = ord_side client \<and> ord_price ord = ord_price client \<and>
     ord_quantity ord = ord_quantity client \<and> ord_instrument ord = ord_instrument client \<and>
     ord_quantity_filled ord = 0 \<and> ord_status ord = NEW"

text \<open>\<open>add_order\<close> up to the call of \<open>try_match\<close>.\<close>

lemma add_order_enters:
  assumes inv: "book_inv ob" and room: "pool_room (ob_order_pool ob)"
    and ids: "ids_ok w ob" "ids_room w ob" and price: "\<not> is_nan (ord_price client)"
  obtains i p ord w1 ob1 where
    "add_order client (w, ob) = rbind (try_match (w1, ob1)) (\<lambda>(_, w2, ob2). Inr (i, w2, ob2))"
    "entered ord i p ob ob1" "accepted ord client i" "book_inv ob1" "ids_ok w1 ob1"
    "wd_clock w1 = wd_clock w" "ids_drawn w ob i w1 ob1"
proof -
  let ?pool = "ob_order_pool ob"
  let ?p = "Slot (pool_block ?pool) (pool_next_free_index ?pool)"
  let ?pool' = "?pool\<lparr>pool_next_free_index := Suc (pool_next_free_index ?pool)\<rparr>"
  let ?slot = "pool_orders ?pool ! pool_next_free_index ?pool"
  have pr: "pristine ?pool" using inv by (simp add: book_inv_def orders_inv_def)
  note slot = next_slot [OF pr room]
  let ?ob0 = "ob\<lparr>ob_order_pool := ?pool'\<rparr>"
  obtain i w1 ob1 where g: "get_order_id w ?ob0 = (i, w1, ob1)" by (cases "get_order_id w ?ob0") auto
  have "ids_ok w ?ob0" "ids_room w ?ob0" using ids by (simp_all add: ids_ok_def ids_room_def)
  note id = get_order_id_fresh [OF this g]
  let ?ord = "copy_from_client ?slot client i"
  note ord = copy_from_client_new [OF slot(5,6), of client i]
  let ?ob2 = "write_order ?p ?ord ob1"
  have o2: "orders ?ob2 = (orders ob)(?p \<mapsto> ?ord)"
    using slot(3) id(5) by (simp add: write_order_def)
  have h1: "held ?pool' ?p = Some ?slot" using slot(4) by (simp add: held_def)
  have pr2: "pristine (ob_order_pool ?ob2)"
    using pristine_write [OF slot(2) h1] id(5) by (simp add: write_order_def)
  obtain ob3 where ob3: "add_order_dispatcher (ord_side ?ord) ?p ?ob2 = Inr ob3" "book_inv ob3"
      "entered ?ord i ?p ob ob3" "ob_order_id_block ob3 = ob_order_id_block ?ob2"
      "ob_next_available_order_id ob3 = ob_next_available_order_id ?ob2"
    using add_dispatcher [OF inv ord(1,2) _ slot(1) _ o2 _ pr2] ord id price by auto
  have "add_order client (w, ob) = rbind (try_match (w1, ob3)) (\<lambda>(_, w2, ob2). Inr (i, w2, ob2))"
    using allocate_room [OF room] g slot(4) id(5) ob3(1)
    by (simp add: add_order_def Let_def)
  moreover have "accepted ?ord client i" using ord by (simp add: accepted_def)
  moreover have "ids_ok w1 ob3" using id(3) ob3(4,5) by (simp add: ids_ok_def)
  moreover have "ids_drawn w ob i w1 ob3"
    using get_order_id_drawn [OF g] ob3(4,5) by (simp add: ids_drawn_def)
  ultimately show ?thesis using that ob3(2,3) id(4) by blast
qed

section \<open>Taking an order off the book\<close>

text \<open>
  The dispatcher of \<open>cancel_order\<close> on an order that has just become inactive: it takes exactly
  this order off its side. It never throws, so the \<open>catch\<close> clauses of \<open>cancel_order\<close> are dead.
\<close>

lemma cancel_dispatcher_no_throw:
  assumes inv: "book_inv ob" and p: "orders ob p = Some old" "active old"
    and ord: "\<not> active ord" "order_wf ord" "ord_id ord = ord_id old" "ord_side ord = ord_side old"
      "ord_price ord = ord_price old"
  shows "\<exists>ob'. cancel_order_dispatcher (ord_side ord) p (write_order p ord ob) = Inr ob' \<and> book_inv ob' \<and>
    orders ob' = (orders ob)(p \<mapsto> ord) \<and>
    side_ptrs (levels_of (ord_side ord) ob') = remove1 p (side_ptrs (levels_of (ord_side ord) ob)) \<and>
    set (map fst (levels_of (ord_side ord) ob')) \<subseteq> set (map fst (levels_of (ord_side ord) ob)) \<and>
    (\<exists>ls. ob' = set_levels (ord_side ord) ls (write_order p ord ob))"
proof -
  let ?sd = "ord_side ord" and ?h = "orders ob" and ?ls = "levels_of (ord_side ord) ob"
  have si: "\<And>sd. side_inv sd ?h (levels_of sd ob)" and oi: "orders_inv ob"
    using inv by (simp_all add: book_inv_def)
  have "p \<in> set (side_ptrs ?ls)"
    using si [of ?sd] p ord(4) by (auto simp: side_inv_except_def resting_set_def)
  then obtain ls1 k lv ls2 where at: "?ls = ls1 @ (k, lv) # ls2" "p \<in> set (live lv)"
      "level_at ?sd (ord_price old) ?ls = Inr (k, lv)"
      "\<And>w. map_write (side_lt ?sd) k w ?ls = ls1 @ (k, w) # ls2"
    using level_of_order [OF si [of ?sd] _ p(1)] by metis
  have si': "side_inv ?sd ?h (ls1 @ (k, lv) # ls2)" using si [of ?sd] at(1) by simp
  obtain lv' where lv': "level_remove_order (ord_id old) lv = Inr (True, lv')"
      "live lv' = remove1 p (live lv)" "side_inv_except {k} ?sd (?h(p := None)) (ls1 @ (k, lv') # ls2)"
    using side_take [OF si' at(2) p(1)] by blast
  have "side_inv_except {k} ?sd ((?h(p := None))(p \<mapsto> ord)) (ls1 @ (k, lv') # ls2)"
    by (rule side_inv_other [OF lv'(3)]) (use ord in auto)
  then obtain ls' where ls': "remove_price_level_if_empty ?sd k (ls1 @ (k, lv') # ls2) = Inr ls'"
      "side_inv ?sd (?h(p \<mapsto> ord)) ls'" "side_ptrs ls' = side_ptrs (ls1 @ (k, lv') # ls2)"
      "set (map fst ls') \<subseteq> set (map fst (ls1 @ (k, lv') # ls2))"
    using side_prune by fastforce
  let ?ob' = "set_levels ?sd ls' (write_order p ord ob)"
  note ow = orders_write [OF p(1), of ord]
  have "store (write_order p ord ob) p = Some ord" using ow held_store by simp
  then have "cancel_order_dispatcher ?sd p (write_order p ord ob) = Inr ?ob'"
    using at lv'(1) ls'(1) ord(3,5) by (simp add: cancel_order_dispatcher_def)
  moreover have "side_inv sd (orders ?ob') (levels_of sd ?ob')" for sd
    using ls'(2) ow si [of sd] side_inv_other [OF si [of sd], of p ord] p(1) ord by auto
  then have "book_inv ?ob'"
    using orders_inv_write [OF oi p(1) ord(3,2)] by (simp add: book_inv_def)
  moreover have "side_ptrs ls' = remove1 p (side_ptrs ?ls)"
    using ls'(3) lv'(2) side_ptrs_split [OF si' at(2)] at(1) by simp
  ultimately show ?thesis using ow ls'(4) at(1) by auto
qed

section \<open>One turn of the matching loop\<close>

lemma side_ptr_orders:
  assumes "book_inv ob" "p \<in> set (side_ptrs (levels_of sd ob))"
  obtains ord where "orders ob p = Some ord" "active ord" "ord_side ord = sd" "order_wf ord"
  using assms side_ptr [of "{}" sd "orders ob" "levels_of sd ob" p]
  by (auto simp: book_inv_def orders_inv_def)

lemma front_of_head:
  assumes "side_inv sd h ((k, lv) # ls)"
  obtains p ps where "live lv = p # ps" "level_front lv = Inr p"
    "side_ptrs ((k, lv) # ls) = p # ps @ side_ptrs ls"
proof -
  have "level_inv h lv" "live lv \<noteq> []" using assms by (auto simp: side_inv_except_def level_ok_def)
  then show ?thesis using that lv2.front_law [of h lv] by (cases "live lv") auto
qed

lemma match_orders_ok:
  assumes inv: "orders_inv ob" and pq: "p \<noteq> q" and a: "orders ob p = Some a" and b: "orders ob q = Some b"
  defines "m \<equiv> min (available a) (available b)"
  shows "match_orders p q (w, ob) =
    Inr (wtick (wtick w),
         write_order q (filled_by (wnow (wtick w)) m b) (write_order p (filled_by (wnow w) m a) ob))"
proof -
  have wf: "order_wf a" "order_wf b" using inv a b by (auto simp: orders_inv_def)
  note le = order_wf_filled_le [OF wf(1)] order_wf_filled_le [OF wf(2)]
  have m: "m \<le> available a" "m \<le> available b" by (simp_all add: m_def)
  have "orders (write_order p (filled_by (wnow w) m a) ob) q = Some b"
    using orders_write [OF a] pq b by simp
  then show ?thesis
    using a b match_order_ok [OF le(1) m(1)] match_order_ok [OF le(2) m(2)]
    by (simp add: match_orders_def match_at_def m_def Let_def)
qed

text \<open>The trade between the orders at the front of the two sides.\<close>

definition traded ::
    "order_ptr \<Rightarrow> order \<Rightarrow> order_ptr \<Rightarrow> order \<Rightarrow> world \<times> orderbook \<Rightarrow> world \<times> orderbook \<Rightarrow> bool" where
  "traded p bid q ask = (\<lambda>(w, ob) (w', ob').
     let m = min (available bid) (available ask);
         bid' = filled_by (wnow w) m bid;
         ask' = filled_by (wnow (wtick w)) m ask
     in w' = wtick (wtick w) \<and>
        orders ob' = (orders ob)(p \<mapsto> bid', q \<mapsto> ask') \<and>
        side_ptrs (ob_bids ob') = after_fill bid' (side_ptrs (ob_bids ob)) \<and>
        side_ptrs (ob_asks ob') = after_fill ask' (side_ptrs (ob_asks ob)) \<and>
        set (map fst (ob_bids ob')) \<subseteq> set (map fst (ob_bids ob)) \<and>
        set (map fst (ob_asks ob')) \<subseteq> set (map fst (ob_asks ob)) \<and>
        (\<exists>bids asks. ob' =
           (write_order q ask' (write_order p bid' (ob\<lparr>ob_trades_completed := ob_trades_completed ob + 1\<rparr>)))
             \<lparr>ob_bids := bids, ob_asks := asks\<rparr>))"

lemma try_match_step_trades:
  assumes inv: "book_inv ob" and bids: "ob_bids ob = (bk, bl) # bs" and asks: "ob_asks ob = (ak, al) # as"
    and cross: "bk \<ge> ak"
  obtains p bid q ask s' where
    "try_match_step (w, ob) = Inr (Continue s')" "book_inv (snd s')"
    "traded p bid q ask (w, ob) s'" "p \<noteq> q"
    "orders ob p = Some bid" "hd (side_ptrs (ob_bids ob)) = p" "p \<in> set (live bl)"
    "orders ob q = Some ask" "hd (side_ptrs (ob_asks ob)) = q" "q \<in> set (live al)"
proof -
  let ?h = "orders ob" and ?ob1 = "ob\<lparr>ob_trades_completed := ob_trades_completed ob + 1\<rparr>"
  have oi: "orders_inv ob" and sb: "side_inv BUY ?h ((bk, bl) # bs)" and sa: "side_inv SELL ?h ((ak, al) # as)"
    using inv bids asks by (auto simp: book_inv_def all_order_side)
  obtain p ps where p: "live bl = p # ps" "level_front bl = Inr p"
    "side_ptrs ((bk, bl) # bs) = p # ps @ side_ptrs bs" by (rule front_of_head [OF sb])
  obtain q qs where q: "live al = q # qs" "level_front al = Inr q"
    "side_ptrs ((ak, al) # as) = q # qs @ side_ptrs as" by (rule front_of_head [OF sa])
  obtain bid where bid: "?h p = Some bid" "active bid" "ord_side bid = BUY" "order_wf bid"
    using side_ptr_orders [OF inv, of p BUY] bids p by auto
  obtain ask where ask: "?h q = Some ask" "active ask" "ord_side ask = SELL" "order_wf ask"
    using side_ptr_orders [OF inv, of q SELL] asks q by auto
  have pq: "p \<noteq> q" using bid ask by auto
  let ?m = "min (available bid) (available ask)"
  let ?bid = "filled_by (wnow w) ?m bid" and ?ask = "filled_by (wnow (wtick w)) ?m ask"
  let ?H = "?h(p \<mapsto> ?bid, q \<mapsto> ?ask)" and ?ob2 = "write_order q ?ask (write_order p ?bid ?ob1)"
  have oi1: "orders_inv ?ob1" using oi orders_inv_frame [of ?ob1 ob] by simp
  have match: "match_orders p q (w, ?ob1) = Inr (wtick (wtick w), ?ob2)"
    using match_orders_ok [OF oi1 pq] bid(1) ask(1) by simp
  have fin: "active (filled_by t m o') \<or> ord_status (filled_by t m o') = FULLY_FILLED" for t m o'
    by (simp add: active_filled_by status_filled_by)
  have wf: "order_wf ?bid" "order_wf ?ask" using order_wf_filled_by bid(4) ask(4) by simp_all
  have o1: "orders (write_order p ?bid ?ob1) = ?h(p \<mapsto> ?bid)"
    using orders_write [of ?ob1 p bid] bid(1) by simp
  then have q1: "orders (write_order p ?bid ?ob1) q = Some ask" using pq ask(1) by simp
  have o2: "orders ?ob2 = ?H" using orders_write [OF q1] o1 by simp
  then have sub: "?H \<subseteq>\<^sub>m store ?ob2" using held_le by metis
  have oi2: "orders_inv ?ob2"
    using orders_inv_write [OF orders_inv_write [OF oi1, of p bid ?bid] q1] bid(1) wf by simp
  have "side_inv BUY (?h(q \<mapsto> ?ask)) ((bk, bl) # bs)"
    using side_inv_other [OF sb, of q ?ask] ask by auto
  moreover have "?H = ?h(q \<mapsto> ?ask, p \<mapsto> ?bid)" using pq by (simp add: fun_upd_twist)
  ultimately obtain bl' bs' where B: "pop_front_order_if_filled (store ?ob2) bl = Inr bl'"
      "remove_price_level_if_empty BUY bk (map_write std_greater bk bl' ((bk, bl) # bs)) = Inr bs'"
      "side_inv BUY ?H bs'" "side_ptrs bs' = after_fill ?bid (side_ptrs ((bk, bl) # bs))"
      "set (map fst bs') \<subseteq> set (map fst ((bk, bl) # bs))"
    using side_match [of BUY "?h(q \<mapsto> ?ask)" bk bl bs p ps bid ?bid ?H "store ?ob2"] p(1) bid pq sub fin
    by (auto simp del: map_write.simps list.map)
  have "side_inv SELL (?h(p \<mapsto> ?bid)) ((ak, al) # as)"
    using side_inv_other [OF sa, of p ?bid] bid by auto
  then obtain al' as' where A: "pop_front_order_if_filled (store ?ob2) al = Inr al'"
      "remove_price_level_if_empty SELL ak (map_write std_less ak al' ((ak, al) # as)) = Inr as'"
      "side_inv SELL ?H as'" "side_ptrs as' = after_fill ?ask (side_ptrs ((ak, al) # as))"
      "set (map fst as') \<subseteq> set (map fst ((ak, al) # as))"
    using side_match [of SELL "?h(p \<mapsto> ?bid)" ak al as q qs ask ?ask ?H "store ?ob2"] q(1) ask pq sub fin
    by (auto simp del: map_write.simps list.map)
  let ?ob' = "?ob2\<lparr>ob_bids := bs', ob_asks := as'\<rparr>"
  have step: "try_match_step (w, ob) = Inr (Continue (wtick (wtick w), ?ob'))"
    using bids asks cross p(2) q(2) match A(1,2) B(1,2)
    by (simp add: try_match_step_def del: map_write.simps)
  have "levels_of BUY ?ob' = bs'" "levels_of SELL ?ob' = as'" "orders ?ob' = ?H"
    "orders_inv ?ob'" using o2 oi2 orders_inv_frame [of ?ob' ?ob2] by simp_all
  then have "book_inv ?ob'" using A(3) B(3) by (auto simp: book_inv_def all_order_side)
  moreover have "traded p bid q ask (w, ob) (wtick (wtick w), ?ob')"
    using o2 A(4,5) B(4,5) bids asks unfolding traded_def Let_def by auto
  ultimately show ?thesis using that [OF step] pq bid(1) ask(1) p q bids asks by simp
qed

end
