(* ===== verification/Book_Spec.thy ===== *)
theory Book_Spec
  imports Order_Book
begin

text \<open>
  What a limit order book promises, without levels, indices, pools and maps: a side is the list of
  its resting orders in the order in which they are to be filled, a new order goes behind those that
  it is not strictly better than, and while the best bid is not below the best ask the two front
  orders trade the smaller of their quantities. \<open>Book_Refinement\<close> shows that \<open>orderbook.h\<close> does this.
\<close>

section \<open>The specification\<close>

record resting =
  rst_id :: order_id
  rst_price :: price
  rst_qty :: nat

record trade =
  trd_bid :: order_id
  trd_ask :: order_id
  trd_qty :: nat

definition left_after :: "nat \<Rightarrow> resting \<Rightarrow> resting list \<Rightarrow> resting list" where
  "left_after q r rs = (if rst_qty r = q then rs else r\<lparr>rst_qty := rst_qty r - q\<rparr> # rs)"

definition crosses :: "resting \<Rightarrow> resting \<Rightarrow> bool" where
  "crosses b a \<longleftrightarrow> rst_price b \<ge> rst_price a"

function spec_match :: "resting list \<Rightarrow> resting list \<Rightarrow> trade list \<times> resting list \<times> resting list" where
  "spec_match (b # bs) (a # as) =
     (if crosses b a then
        (let q = min (rst_qty b) (rst_qty a);
             (ts, bs', as') = spec_match (left_after q b bs) (left_after q a as)
         in (\<lparr>trd_bid = rst_id b, trd_ask = rst_id a, trd_qty = q\<rparr> # ts, bs', as'))
      else ([], b # bs, a # as))"
| "spec_match [] as = ([], [], as)"
| "spec_match bs [] = ([], bs, [])"
  by pat_completeness auto
termination
  by (relation "measure (\<lambda>(bs, as). length bs + length as)") (auto simp: left_after_def min_def)

definition spec_enter :: "order_side \<Rightarrow> resting \<Rightarrow> resting list \<Rightarrow> resting list" where
  "spec_enter sd r rs =
     takeWhile (\<lambda>x. \<not> side_lt sd (rst_price r) (rst_price x)) rs @
     r # dropWhile (\<lambda>x. \<not> side_lt sd (rst_price r) (rst_price x)) rs"

definition spec_add ::
    "order_side \<Rightarrow> resting \<Rightarrow> resting list \<Rightarrow> resting list \<Rightarrow> trade list \<times> resting list \<times> resting list" where
  "spec_add sd r bids asks =
     (case sd of BUY \<Rightarrow> spec_match (spec_enter BUY r bids) asks
               | SELL \<Rightarrow> spec_match bids (spec_enter SELL r asks))"

text \<open>An order that is cancelled leaves its side; one whose price changes leaves it and enters anew.\<close>

definition spec_remove :: "order_id \<Rightarrow> resting list \<Rightarrow> resting list" where
  "spec_remove i rs = filter (\<lambda>r. rst_id r \<noteq> i) rs"

text \<open>A quantity that does not grow keeps the place of its order.\<close>

definition spec_resize :: "order_id \<Rightarrow> nat \<Rightarrow> resting list \<Rightarrow> resting list" where
  "spec_resize i q rs = map (\<lambda>r. if rst_id r = i then r\<lparr>rst_qty := q\<rparr> else r) rs"

text \<open>The quantity that trades fill of an order.\<close>

definition fills :: "order_id \<Rightarrow> trade list \<Rightarrow> nat" where
  "fills i ts = sum_list (map trd_qty (filter (\<lambda>t. trd_bid t = i \<or> trd_ask t = i) ts))"

definition volume :: "trade list \<Rightarrow> nat" where
  "volume ts = sum_list (map trd_qty ts)"

definition depth :: "resting list \<Rightarrow> nat" where
  "depth rs = sum_list (map rst_qty rs)"

lemma fills_simps [simp]:
  "fills i [] = 0"
  "fills i (t # ts) = (if trd_bid t = i \<or> trd_ask t = i then trd_qty t else 0) + fills i ts"
  by (simp_all add: fills_def)

lemma volume_simps [simp]: "volume [] = 0" "volume (t # ts) = trd_qty t + volume ts"
  by (simp_all add: volume_def)

lemma depth_simps [simp]:
  "depth [] = 0" "depth (r # rs) = rst_qty r + depth rs" "depth (rs @ rs') = depth rs + depth rs'"
  by (simp_all add: depth_def)

lemma depth_left_after: "q \<le> rst_qty r \<Longrightarrow> depth (left_after q r rs) = rst_qty r - q + depth rs"
  by (simp add: left_after_def)

section \<open>What the specification guarantees\<close>

text \<open>Nothing is lost or made up: each side loses exactly the traded volume.\<close>

lemma spec_match_conserves:
  "spec_match bs as = (ts, bs', as') \<Longrightarrow>
     depth bs = volume ts + depth bs' \<and> depth as = volume ts + depth as'"
proof (induction bs as arbitrary: ts bs' as' rule: spec_match.induct)
  case (1 b bs a as)
  show ?case
  proof (cases "crosses b a")
    case True
    let ?q = "min (rst_qty b) (rst_qty a)"
    obtain us where us: "spec_match (left_after ?q b bs) (left_after ?q a as) = (us, bs', as')"
      "ts = \<lparr>trd_bid = rst_id b, trd_ask = rst_id a, trd_qty = ?q\<rparr> # us"
      using "1.prems" True by (auto simp: Let_def split: prod.splits)
    have "depth (left_after ?q b bs) = volume us + depth bs' \<and>
        depth (left_after ?q a as) = volume us + depth as'"
      by (rule "1.IH" [OF True refl us(1)])
    then show ?thesis using us(2) depth_left_after [of ?q] by (auto simp: min_def)
  qed (use "1.prems" in auto)
qed auto

text \<open>Every trade uses up an order, so there are at most as many trades as orders.\<close>

lemma spec_match_length:
  "spec_match bs as = (ts, bs', as') \<Longrightarrow>
     length ts + length bs' + length as' \<le> length bs + length as"
proof (induction bs as arbitrary: ts bs' as' rule: spec_match.induct)
  case (1 b bs a as)
  show ?case
  proof (cases "crosses b a")
    case True
    let ?q = "min (rst_qty b) (rst_qty a)"
    obtain us where us: "spec_match (left_after ?q b bs) (left_after ?q a as) = (us, bs', as')"
      "ts = \<lparr>trd_bid = rst_id b, trd_ask = rst_id a, trd_qty = ?q\<rparr> # us"
      using "1.prems" True by (auto simp: Let_def split: prod.splits)
    have "length us + length bs' + length as' \<le> length (left_after ?q b bs) + length (left_after ?q a as)"
      by (rule "1.IH" [OF True refl us(1)])
    then show ?thesis using us(2) by (auto simp: left_after_def min_def split: if_splits)
  qed (use "1.prems" in auto)
qed auto

text \<open>What is left does not cross: one side is empty, or its best is worse than the other's best.\<close>

lemma spec_match_uncrossed:
  "spec_match bs as = (ts, b # bs', a # as') \<Longrightarrow> \<not> crosses b a"
proof (induction bs as arbitrary: ts rule: spec_match.induct)
  case (1 b0 bs a0 as)
  then show ?case by (auto simp: Let_def split: if_splits prod.splits)
qed auto

text \<open>Every trade is between a bid and an ask that were there, and whose prices cross.\<close>

lemma left_after_mem:
  "x \<in> set (left_after q r rs) \<Longrightarrow>
     \<exists>y \<in> set (r # rs). rst_id y = rst_id x \<and> rst_price y = rst_price x \<and> rst_qty x \<le> rst_qty y"
  by (auto simp: left_after_def split: if_splits)

lemma spec_match_trades:
  "spec_match bs as = (ts, bs', as') \<Longrightarrow> t \<in> set ts \<Longrightarrow>
     \<exists>b \<in> set bs. \<exists>a \<in> set as. trd_bid t = rst_id b \<and> trd_ask t = rst_id a \<and> crosses b a \<and>
       trd_qty t \<le> rst_qty b \<and> trd_qty t \<le> rst_qty a"
proof (induction bs as arbitrary: ts bs' as' rule: spec_match.induct)
  case (1 b bs a as)
  show ?case
  proof (cases "crosses b a")
    case True
    let ?q = "min (rst_qty b) (rst_qty a)"
    obtain us where us: "spec_match (left_after ?q b bs) (left_after ?q a as) = (us, bs', as')"
      "ts = \<lparr>trd_bid = rst_id b, trd_ask = rst_id a, trd_qty = ?q\<rparr> # us"
      using "1.prems" True by (auto simp: Let_def split: prod.splits)
    show ?thesis
    proof (cases "t \<in> set us")
      case True
      then obtain x y where x: "x \<in> set (left_after ?q b bs)" and y: "y \<in> set (left_after ?q a as)"
          and xy: "trd_bid t = rst_id x" "trd_ask t = rst_id y" "crosses x y"
            "trd_qty t \<le> rst_qty x" "trd_qty t \<le> rst_qty y"
        using "1.IH" [OF \<open>crosses b a\<close> refl us(1)] by blast
      obtain x' where "x' \<in> set (b # bs)" "rst_id x' = rst_id x" "rst_price x' = rst_price x"
          "rst_qty x \<le> rst_qty x'"
        using left_after_mem [OF x] by blast
      moreover obtain y' where "y' \<in> set (a # as)" "rst_id y' = rst_id y" "rst_price y' = rst_price y"
          "rst_qty y \<le> rst_qty y'"
        using left_after_mem [OF y] by blast
      ultimately show ?thesis using xy unfolding crosses_def by (metis order.trans)
    next
      case False
      then have "t = \<lparr>trd_bid = rst_id b, trd_ask = rst_id a, trd_qty = ?q\<rparr>"
        using "1.prems"(2) us(2) by simp
      then show ?thesis using True by auto
    qed
  qed (use "1.prems" in auto)
qed auto

text \<open>A new order keeps its side's depth otherwise, and goes to the place that its price gives it.\<close>

lemma depth_spec_enter: "depth (spec_enter sd r rs) = rst_qty r + depth rs"
proof -
  have "depth (takeWhile P rs) + depth (dropWhile P rs) = depth rs" for P
    by (metis depth_simps(3) takeWhile_dropWhile_id)
  then show ?thesis by (simp add: spec_enter_def ac_simps)
qed

lemma spec_add_conserves:
  assumes "spec_add sd r bs as = (ts, bs', as')"
  shows "depth bs + (if sd = BUY then rst_qty r else 0) = depth bs' + volume ts"
    "depth as + (if sd = SELL then rst_qty r else 0) = depth as' + volume ts"
proof -
  have "depth bs + (if sd = BUY then rst_qty r else 0) = depth bs' + volume ts \<and>
      depth as + (if sd = SELL then rst_qty r else 0) = depth as' + volume ts"
  proof (cases sd)
    case BUY
    then have "spec_match (spec_enter BUY r bs) as = (ts, bs', as')" using assms by (simp add: spec_add_def)
    from spec_match_conserves [OF this] show ?thesis using BUY by (simp add: depth_spec_enter)
  next
    case SELL
    then have "spec_match bs (spec_enter SELL r as) = (ts, bs', as')" using assms by (simp add: spec_add_def)
    from spec_match_conserves [OF this] show ?thesis using SELL by (simp add: depth_spec_enter)
  qed
  then show "depth bs + (if sd = BUY then rst_qty r else 0) = depth bs' + volume ts"
    "depth as + (if sd = SELL then rst_qty r else 0) = depth as' + volume ts" by simp_all
qed

text \<open>A place behind orders that are not worse and before orders that all are is that place.\<close>

lemma spec_enter_split:
  assumes "\<And>x. x \<in> set xs \<Longrightarrow> \<not> side_lt sd (rst_price r) (rst_price x)"
    "\<And>y. y \<in> set ys \<Longrightarrow> side_lt sd (rst_price r) (rst_price y)"
  shows "spec_enter sd r (xs @ ys) = xs @ r # ys"
proof -
  let ?P = "\<lambda>x. \<not> side_lt sd (rst_price r) (rst_price x)"
  have "takeWhile ?P (xs @ ys) = xs" "dropWhile ?P (xs @ ys) = ys"
    using assms by (cases ys; simp add: takeWhile_append dropWhile_append)+
  then show ?thesis by (simp only: spec_enter_def)
qed

end
