(* ===== verification/Book_Refinement.thy ===== *)
theory Book_Refinement
  imports Book_Invariant Book_Spec
begin

text \<open>
  The matching engine implements \<open>Book_Spec\<close>. \<open>queue sd ob\<close> is the abstraction of a side: what is
  left of its resting orders, in the order of its levels and of the orders in them. The matching
  loop ends, never faults, and does to the two queues what \<open>spec_match\<close> does to their abstractions;
  \<open>add_order\<close> does what \<open>spec_add\<close> does.
\<close>

section \<open>The abstraction\<close>

definition view :: "order \<Rightarrow> resting" where
  "view ord = \<lparr>rst_id = ord_id ord, rst_price = ord_price ord, rst_qty = unat (available ord)\<rparr>"

definition queue :: "order_side \<Rightarrow> orderbook \<Rightarrow> resting list" where
  "queue sd ob = map (\<lambda>p. view (the (orders ob p))) (side_ptrs (levels_of sd ob))"

lemma view_simps [simp]:
  "rst_id (view ord) = ord_id ord" "rst_price (view ord) = ord_price ord"
  "rst_qty (view ord) = unat (available ord)"
  by (simp_all add: view_def)

text \<open>How trades change an order: they fill it, and an order that took part in none is as it was.\<close>

definition settled :: "trade list \<Rightarrow> order \<Rightarrow> order \<Rightarrow> bool" where
  "settled ts a b \<longleftrightarrow>
     ord_id b = ord_id a \<and> ord_side b = ord_side a \<and> ord_price b = ord_price a \<and>
     ord_quantity b = ord_quantity a \<and> ord_instrument b = ord_instrument a \<and>
     ord_time_submitted b = ord_time_submitted a \<and>
     unat (ord_quantity_filled b) = unat (ord_quantity_filled a) + fills (ord_id a) ts \<and>
     ((\<forall>t \<in> set ts. trd_bid t \<noteq> ord_id a \<and> trd_ask t \<noteq> ord_id a) \<longrightarrow> b = a)"

lemma settled_refl [simp]: "settled [] a a"
  by (simp add: settled_def)

lemma fills_append: "fills i (ts @ us) = fills i ts + fills i us"
  by (simp add: fills_def)

lemma settled_trans: "settled ts a b \<Longrightarrow> settled us b c \<Longrightarrow> settled (ts @ us) a c"
  by (auto simp: settled_def fills_append)

definition settles :: "trade list \<Rightarrow> orderbook \<Rightarrow> orderbook \<Rightarrow> bool" where
  "settles ts ob ob' \<longleftrightarrow>
     (\<forall>p. rel_option (settled ts) (orders ob p) (orders ob' p)) \<and>
     ob_trades_completed ob' = ob_trades_completed ob + of_nat (length ts) \<and> keeps ob ob'"

lemma settles_refl [simp]: "settles [] ob ob"
  by (simp add: settles_def option.rel_refl)

lemma settles_trans:
  assumes "settles ts a b" "settles us b c"
  shows "settles (ts @ us) a c"
proof -
  have "rel_option (settled (ts @ us)) (orders a p) (orders c p)" for p
  proof -
    have "rel_option (settled ts) (orders a p) (orders b p)"
      "rel_option (settled us) (orders b p) (orders c p)"
      using assms by (simp_all add: settles_def)
    then show ?thesis
      using settled_trans by (cases "orders a p"; cases "orders b p"; cases "orders c p") auto
  qed
  then show ?thesis using assms keeps_trans by (auto simp: settles_def)
qed

lemma settles_order:
  "settles ts ob ob' \<Longrightarrow> orders ob p = Some ord \<Longrightarrow> \<exists>ord'. orders ob' p = Some ord' \<and> settled ts ord ord'"
  unfolding settles_def by (metis option_rel_Some1)

section \<open>One trade\<close>

lemma crosses_keys:
  assumes inv: "book_inv ob" and bids: "ob_bids ob = (bk, bl) # bs" and asks: "ob_asks ob = (ak, al) # as"
    and p: "p \<in> set (live bl)" "orders ob p = Some bid" and q: "q \<in> set (live al)" "orders ob q = Some ask"
  shows "crosses (view bid) (view ask) \<longleftrightarrow> bk \<ge> ak"
proof -
  have "level_ok {} (orders ob) (bk, bl)" "level_ok {} (orders ob) (ak, al)"
    using inv bids asks by (auto simp: book_inv_def all_order_side side_inv_except_def)
  then have "dbl_eq (ord_price bid) bk" "dbl_eq (ord_price ask) ak"
    using p q by (auto simp: level_ok_def)
  then show ?thesis by (simp add: crosses_def double_ord_defs)
qed

lemma queue_cons:
  assumes "side_ptrs (levels_of sd ob) = p # ps" "orders ob p = Some ord"
  shows "queue sd ob = view ord # map (\<lambda>p. view (the (orders ob p))) ps"
  using assms by (simp add: queue_def)

text \<open>The front of a side after it has been filled by \<open>m\<close> is what \<open>left_after\<close> says.\<close>

lemma queue_after_fill:
  assumes ps: "side_ptrs ls = p # ps" "p \<notin> set ps" and ptrs: "side_ptrs ls' = after_fill ord' (side_ptrs ls)"
    and fill: "ord' = filled_by t m ord" "m \<le> available ord" "order_wf ord"
    and h: "h' p = Some ord'" "\<And>x. x \<in> set ps \<Longrightarrow> h' x = h x"
  shows "map (\<lambda>p. view (the (h' p))) (side_ptrs ls') =
    left_after (unat m) (view ord) (map (\<lambda>p. view (the (h p))) ps)"
proof -
  have rest: "map (\<lambda>p. view (the (h' p))) ps = map (\<lambda>p. view (the (h p))) ps" using h(2) by simp
  have av: "available ord' = available ord - m"
    using available_filled_by [OF order_wf_filled_le [OF fill(3)] fill(2)] fill(1) by simp
  have eq: "unat (available ord) = unat m \<longleftrightarrow> m = available ord" by (metis unsigned_word_eqI)
  show ?thesis
  proof (cases "m = available ord")
    case True
    then show ?thesis using ps ptrs fill(1) rest by (simp add: after_fill_def status_filled_by left_after_def)
  next
    case False
    have "unat (available ord - m) = unat (available ord) - unat m"
      using fill(2) by (rule unat_diff_exact)
    then have "view ord' = (view ord)\<lparr>rst_qty := rst_qty (view ord) - unat m\<rparr>"
      using av fill(1) by (simp add: view_def)
    then show ?thesis using False ps ptrs fill(1) rest h(1) eq
      by (simp add: after_fill_def status_filled_by left_after_def)
  qed
qed

lemma settled_filled_by:
  assumes "order_wf ord" "m \<le> available ord" "fills (ord_id ord) ts = unat m"
    "\<exists>t \<in> set ts. trd_bid t = ord_id ord \<or> trd_ask t = ord_id ord"
  shows "settled ts ord (filled_by t m ord)"
proof -
  have "unat (ord_quantity_filled ord + m) = unat (ord_quantity_filled ord) + unat m"
    using add_diff_fill(1) [OF order_wf_filled_le [OF assms(1)]] assms(2) by (simp add: available_def)
  then show ?thesis using assms(3,4) by (auto simp: settled_def) (simp_all add: filled_by_def)
qed

lemma traded_settles:
  assumes inv: "book_inv ob" and tr: "traded p bid q ask (w, ob) (w', ob')" and pq: "p \<noteq> q"
    and p: "orders ob p = Some bid" and q: "orders ob q = Some ask"
  shows "settles [\<lparr>trd_bid = ord_id bid, trd_ask = ord_id ask,
    trd_qty = unat (min (available bid) (available ask))\<rparr>] ob ob'"
proof -
  let ?m = "min (available bid) (available ask)"
  let ?t = "\<lparr>trd_bid = ord_id bid, trd_ask = ord_id ask, trd_qty = unat ?m\<rparr>"
  have oi: "orders_inv ob" using inv by (simp add: book_inv_def)
  have wf: "order_wf bid" "order_wf ask" using oi p q by (auto simp: orders_inv_def)
  have ne: "ord_id bid \<noteq> ord_id ask" using ids_unique [OF oi p q] pq by blast
  have o': "orders ob' = (orders ob)(p \<mapsto> filled_by (wnow w) ?m bid, q \<mapsto> filled_by (wnow (wtick w)) ?m ask)"
    using tr by (simp add: traded_def Let_def)
  have "settled [?t] bid (filled_by (wnow w) ?m bid)" "settled [?t] ask (filled_by (wnow (wtick w)) ?m ask)"
    using wf ne by (intro settled_filled_by; simp)+
  moreover have "settled [?t] o1 o1" if "orders ob x = Some o1" "x \<noteq> p" "x \<noteq> q" for x o1
    using that ids_unique [OF oi that(1) p] ids_unique [OF oi that(1) q] by (auto simp: settled_def)
  ultimately have "rel_option (settled [?t]) (orders ob x) (orders ob' x)" for x
    using p q pq o' by (cases "orders ob x") auto
  then show ?thesis using tr by (auto simp: traded_def Let_def settles_def)
qed

section \<open>The two best prices\<close>

text \<open>The best bid and the best ask decide whether the book is crossed.\<close>

lemma uncrossed_heads:
  assumes inv: "book_inv ob" and lv: "ob_bids ob = (bk, bl) # bs" "ob_asks ob = (ak, al) # as"
  shows "uncrossed ob \<longleftrightarrow> \<not> bk \<ge> ak"
proof
  assume "uncrossed ob"
  then show "\<not> bk \<ge> ak" using lv by (simp add: uncrossed_def)
next
  assume nc: "\<not> bk \<ge> ak"
  have sb: "side_inv BUY (orders ob) (ob_bids ob)" and sa: "side_inv SELL (orders ob) (ob_asks ob)"
    using inv by (auto simp: book_inv_def all_order_side)
  have "\<not> b \<ge> a" if "b \<in> fst ` set (ob_bids ob)" "a \<in> fst ` set (ob_asks ob)" for a b
  proof -
    have nan: "\<not> is_nan b" "\<not> is_nan a" "\<not> is_nan bk" "\<not> is_nan ak"
      using side_inv_keys [OF sb] side_inv_keys [OF sa] that lv by auto
    have "b = bk \<or> b < bk" using sb that(1) lv
      by (auto simp: side_inv_except_def map_sorted_def std_greater_def)
    moreover have "a = ak \<or> ak < a" using sa that(2) lv
      by (auto simp: side_inv_except_def map_sorted_def std_less_def)
    ultimately show ?thesis using nc nan by (auto simp: double_ord_defs)
  qed
  then show "uncrossed ob" by (simp add: uncrossed_def)
qed

section \<open>The matching loop\<close>

lemma queue_nil_iff:
  assumes "book_inv ob"
  shows "queue sd ob = [] \<longleftrightarrow> levels_of sd ob = []"
proof -
  have "side_inv sd (orders ob) (levels_of sd ob)" using assms by (simp add: book_inv_def)
  then have "live lv \<noteq> []" if "levels_of sd ob = (k, lv) # ls" for k lv ls
    using that by (auto simp: side_inv_except_def level_ok_def)
  then show ?thesis by (cases "levels_of sd ob") (force simp: queue_def)+
qed

lemma no_cross_heads:
  assumes inv: "book_inv ob" and lv: "ob_bids ob = (bk, bl) # bs" "ob_asks ob = (ak, al) # as"
    and qs: "queue BUY ob = b # B" "queue SELL ob = a # A"
  shows "crosses b a \<longleftrightarrow> bk \<ge> ak"
proof -
  have sb: "side_inv BUY (orders ob) ((bk, bl) # bs)" and sa: "side_inv SELL (orders ob) ((ak, al) # as)"
    using inv lv by (auto simp: book_inv_def all_order_side)
  obtain p ps where p: "live bl = p # ps" "level_front bl = Inr p"
    "side_ptrs ((bk, bl) # bs) = p # ps @ side_ptrs bs" by (rule front_of_head [OF sb])
  obtain q qs' where q: "live al = q # qs'" "level_front al = Inr q"
    "side_ptrs ((ak, al) # as) = q # qs' @ side_ptrs as" by (rule front_of_head [OF sa])
  obtain bid where bid: "orders ob p = Some bid" using side_ptr_orders [OF inv, of p BUY] lv p by auto
  obtain ask where ask: "orders ob q = Some ask" using side_ptr_orders [OF inv, of q SELL] lv q by auto
  have "b = view bid" "a = view ask" using qs lv p q bid ask by (simp_all add: queue_def)
  then show ?thesis using crosses_keys [OF inv lv, of p bid q ask] p q bid ask by simp
qed

lemma step_refines:
  assumes inv: "book_inv ob" and bids: "ob_bids ob = (bk, bl) # bs" and asks: "ob_asks ob = (ak, al) # as"
    and cross: "bk \<ge> ak"
  obtains b B a A t s' where
    "queue BUY ob = b # B" "queue SELL ob = a # A" "crosses b a"
    "t = \<lparr>trd_bid = rst_id b, trd_ask = rst_id a, trd_qty = min (rst_qty b) (rst_qty a)\<rparr>"
    "try_match_step (w, ob) = Inr (Continue s')" "book_inv (snd s')" "settles [t] ob (snd s')"
    "queue BUY (snd s') = left_after (min (rst_qty b) (rst_qty a)) b B"
    "queue SELL (snd s') = left_after (min (rst_qty b) (rst_qty a)) a A"
    "set (map fst (ob_bids (snd s'))) \<subseteq> set (map fst (ob_bids ob))"
    "set (map fst (ob_asks (snd s'))) \<subseteq> set (map fst (ob_asks ob))"
    "wd_ids (fst s') = wd_ids w"
proof -
  obtain p bid q ask s' where step: "try_match_step (w, ob) = Inr (Continue s')" "book_inv (snd s')"
    and tr: "traded p bid q ask (w, ob) s'" and pq: "p \<noteq> q"
    and p: "orders ob p = Some bid" "hd (side_ptrs (ob_bids ob)) = p" "p \<in> set (live bl)"
    and q: "orders ob q = Some ask" "hd (side_ptrs (ob_asks ob)) = q" "q \<in> set (live al)"
    by (rule try_match_step_trades [OF inv bids asks cross])
  obtain w' ob' where s': "s' = (w', ob')" by (cases s')
  let ?m = "min (available bid) (available ask)"
  let ?bid = "filled_by (wnow w) ?m bid" and ?ask = "filled_by (wnow (wtick w)) ?m ask"
  have o': "orders ob' = (orders ob)(p \<mapsto> ?bid, q \<mapsto> ?ask)" and
    ptrs: "side_ptrs (ob_bids ob') = after_fill ?bid (side_ptrs (ob_bids ob))"
      "side_ptrs (ob_asks ob') = after_fill ?ask (side_ptrs (ob_asks ob))" and
    keys: "set (map fst (ob_bids ob')) \<subseteq> set (map fst (ob_bids ob))"
      "set (map fst (ob_asks ob')) \<subseteq> set (map fst (ob_asks ob))" and
    w': "w' = wtick (wtick w)"
    using tr s' by (simp_all add: traded_def Let_def)
  have "side_ptrs (ob_bids ob) \<noteq> []" "side_ptrs (ob_asks ob) \<noteq> []"
    using p(3) q(3) bids asks by auto
  then obtain ps qs where ps: "side_ptrs (ob_bids ob) = p # ps" and qs: "side_ptrs (ob_asks ob) = q # qs"
    using p(2) q(2) by (metis list.collapse)
  have sb: "side_inv BUY (orders ob) (ob_bids ob)" and sa: "side_inv SELL (orders ob) (ob_asks ob)"
    and wf: "order_wf bid" "order_wf ask"
    using inv p(1) q(1) by (auto simp: book_inv_def all_order_side orders_inv_def)
  have d: "p \<notin> set ps" "q \<notin> set qs" using side_ptrs_distinct [OF sb] side_ptrs_distinct [OF sa] ps qs by auto
  have side: "\<exists>o1. orders ob x = Some o1 \<and> ord_side o1 = sd" if "x \<in> set (side_ptrs (levels_of sd ob))" for x sd
    using side_ptr_orders [OF inv that] by blast
  have "ord_side bid = BUY" "ord_side ask = SELL" using side [of p BUY] side [of q SELL] p(1) q(1) ps qs by auto
  then have off: "x \<noteq> q" if "x \<in> set (side_ptrs (ob_bids ob))" for x
    using side [of x BUY] that q(1) by auto
  have off': "x \<noteq> p" if "x \<in> set (side_ptrs (ob_asks ob))" for x
    using side [of x SELL] that p(1) \<open>ord_side bid = BUY\<close> by auto
  have qb: "queue BUY ob = view bid # map (\<lambda>p. view (the (orders ob p))) ps"
    using queue_cons [of BUY ob] ps p(1) by simp
  have qa: "queue SELL ob = view ask # map (\<lambda>p. view (the (orders ob p))) qs"
    using queue_cons [of SELL ob] qs q(1) by simp
  have cr: "crosses (view bid) (view ask)" using crosses_keys [OF inv bids asks p(3,1) q(3,1)] cross by simp
  have m: "?m \<le> available bid" "?m \<le> available ask" by simp_all
  have hp: "orders ob' p = Some ?bid" "\<And>x. x \<in> set ps \<Longrightarrow> orders ob' x = orders ob x"
    "orders ob' q = Some ?ask" "\<And>x. x \<in> set qs \<Longrightarrow> orders ob' x = orders ob x"
    using o' pq d off off' ps qs by auto
  have "queue BUY ob' = left_after (unat ?m) (view bid) (map (\<lambda>p. view (the (orders ob p))) ps)"
    using queue_after_fill [of "ob_bids ob" p ps "ob_bids ob'" ?bid "wnow w" ?m bid "orders ob'" "orders ob"]
      ps d(1) ptrs(1) m(1) wf(1) hp by (simp add: queue_def)
  moreover have "queue SELL ob' = left_after (unat ?m) (view ask) (map (\<lambda>p. view (the (orders ob p))) qs)"
    using queue_after_fill [of "ob_asks ob" q qs "ob_asks ob'" ?ask "wnow (wtick w)" ?m ask "orders ob'" "orders ob"]
      qs d(2) ptrs(2) m(2) wf(2) hp by (simp add: queue_def)
  moreover note traded_settles [OF inv tr [unfolded s'] pq p(1) q(1)]
  ultimately show ?thesis
    using that [OF qb qa cr refl step(1)] step(2) s' keys w' by (simp add: unat_min wtick_def)
qed

lemma loop_refines:
  assumes "queue BUY ob = bs" "queue SELL ob = as" "book_inv ob"
  shows "\<exists>w' ob' ts. try_match_loop m (w, ob) = Some (Inr (m \<or> ts \<noteq> [], w', ob')) \<and>
    spec_match bs as = (ts, queue BUY ob', queue SELL ob') \<and>
    book_inv ob' \<and> uncrossed ob' \<and> settles ts ob ob' \<and> wd_ids w' = wd_ids w"
  using assms
proof (induction bs as arbitrary: m w ob rule: spec_match.induct)
  case (1 b B a A)
  note qs = "1.prems"(1,2) and inv = "1.prems"(3)
  have ne: "ob_bids ob \<noteq> []" "ob_asks ob \<noteq> []"
    using queue_nil_iff [OF inv, of BUY] queue_nil_iff [OF inv, of SELL] qs by auto
  then obtain bk bl bs ak al as where lv: "ob_bids ob = (bk, bl) # bs" "ob_asks ob = (ak, al) # as"
    by (metis list.exhaust surj_pair)
  show ?case
  proof (cases "bk \<ge> ak")
    case True
    obtain b' B' a' A' t s' where st:
      "queue BUY ob = b' # B'" "queue SELL ob = a' # A'" "crosses b' a'"
      "t = \<lparr>trd_bid = rst_id b', trd_ask = rst_id a', trd_qty = min (rst_qty b') (rst_qty a')\<rparr>"
      "try_match_step (w, ob) = Inr (Continue s')" "book_inv (snd s')" "settles [t] ob (snd s')"
      "queue BUY (snd s') = left_after (min (rst_qty b') (rst_qty a')) b' B'"
      "queue SELL (snd s') = left_after (min (rst_qty b') (rst_qty a')) a' A'"
      "set (map fst (ob_bids (snd s'))) \<subseteq> set (map fst (ob_bids ob))"
      "set (map fst (ob_asks (snd s'))) \<subseteq> set (map fst (ob_asks ob))"
      "wd_ids (fst s') = wd_ids w"
      by (rule step_refines [OF inv lv True, of w])
    have same: "b' = b" "B' = B" "a' = a" "A' = A" using st(1,2) qs by simp_all
    obtain w1 ob1 where s': "s' = (w1, ob1)" by (cases s')
    obtain w2 ob2 us where ih: "try_match_loop True (w1, ob1) = Some (Inr (True \<or> us \<noteq> [], w2, ob2))"
      "spec_match (left_after (min (rst_qty b) (rst_qty a)) b B) (left_after (min (rst_qty b) (rst_qty a)) a A) =
        (us, queue BUY ob2, queue SELL ob2)"
      "book_inv ob2" "uncrossed ob2" "settles us ob1 ob2" "wd_ids w2 = wd_ids w1"
      using "1.IH" [OF _ refl, of ob1 True w1] st(3,6,8,9) same s' by auto
    have "try_match_loop m (w, ob) = Some (Inr (m \<or> t # us \<noteq> [], w2, ob2))"
      using st(5) s' ih(1) by (subst try_match_loop.simps) simp
    moreover have "spec_match (b # B) (a # A) = (t # us, queue BUY ob2, queue SELL ob2)"
      using st(3,4) same ih(2) by (simp add: Let_def)
    moreover have "settles (t # us) ob ob2" using settles_trans [OF st(7)] ih(5) s' by simp
    ultimately show ?thesis using ih(3,4,6) st(12) s' by fastforce
  next
    case False
    let ?ob' = "ob\<lparr>ob_try_match_flag := False\<rparr>"
    have "try_match_loop m (w, ob) = Some (Inr (m, w, ?ob'))"
      using lv False by (subst try_match_loop.simps) (simp add: try_match_step_def)
    moreover have "book_inv ?ob'" using inv orders_inv_frame [of ?ob' ob] by (simp add: book_inv_def)
    moreover have "uncrossed ?ob'" using uncrossed_heads [OF inv lv] False by (simp add: uncrossed_def)
    moreover have "queue sd ?ob' = queue sd ob" for sd by (simp add: queue_def)
    moreover have "\<not> crosses b a" using no_cross_heads [OF inv lv qs] False by simp
    moreover have "settles [] ob ?ob'" by (simp add: settles_def option.rel_refl)
    ultimately show ?thesis using qs
      by (intro exI [of _ w] exI [of _ ?ob'] exI [of _ "[]"]) simp
  qed
next
  case (2 A)
  have nil: "ob_bids ob = []" using queue_nil_iff [OF "2.prems"(3), of BUY] "2.prems"(1) by simp
  then have "try_match_loop m (w, ob) = Some (Inr (m, w, ob))"
    by (subst try_match_loop.simps) (simp add: try_match_step_def)
  then show ?case using "2.prems" nil
    by (intro exI [of _ w] exI [of _ ob] exI [of _ "[]"]) (simp add: uncrossed_def)
next
  case (3 B)
  have nil: "ob_asks ob = []" using queue_nil_iff [OF "3.prems"(3), of SELL] "3.prems"(2) by simp
  then have "try_match_loop m (w, ob) = Some (Inr (m, w, ob))"
    by (subst try_match_loop.simps) (simp add: try_match_step_def split: list.splits)
  then show ?case using "3.prems" nil
    by (intro exI [of _ w] exI [of _ ob] exI [of _ "[]"]) (simp add: uncrossed_def)
qed

lemma uncrossed_no_trade:
  assumes "book_inv ob" "uncrossed ob"
  shows "spec_match (queue BUY ob) (queue SELL ob) = ([], queue BUY ob, queue SELL ob)"
proof (cases "queue BUY ob = [] \<or> queue SELL ob = []")
  case True
  then show ?thesis by auto
next
  case False
  then obtain b B a A where qs: "queue BUY ob = b # B" "queue SELL ob = a # A" by (meson neq_Nil_conv)
  have "ob_bids ob \<noteq> []" "ob_asks ob \<noteq> []"
    using queue_nil_iff [OF assms(1), of BUY] queue_nil_iff [OF assms(1), of SELL] qs by auto
  then obtain bk bl bs ak al as where lv: "ob_bids ob = (bk, bl) # bs" "ob_asks ob = (ak, al) # as"
    by (metis list.exhaust surj_pair)
  then show ?thesis
    using no_cross_heads [OF assms(1) lv qs] uncrossed_heads [OF assms(1) lv] assms(2) qs by simp
qed

text \<open>\<open>try_match\<close> returns whether it traded; it does nothing while its flag is off.\<close>

lemma try_match_refines:
  assumes inv: "book_inv ob" and flag: "ob_try_match_flag ob \<or> uncrossed ob"
  shows "\<exists>w' ob' ts. try_match (w, ob) = Inr (ts \<noteq> [], w', ob') \<and>
    spec_match (queue BUY ob) (queue SELL ob) = (ts, queue BUY ob', queue SELL ob') \<and>
    book_inv ob' \<and> uncrossed ob' \<and> settles ts ob ob' \<and> wd_ids w' = wd_ids w"
proof (cases "ob_try_match_flag ob")
  case True
  then show ?thesis using loop_refines [OF refl refl inv, of False w] by (auto simp: try_match_def)
next
  case False
  then show ?thesis using flag uncrossed_no_trade [OF inv] inv
    by (intro exI [of _ w] exI [of _ ob] exI [of _ "[]"]) (simp add: try_match_def)
qed

section \<open>Adding an order\<close>

definition new_resting :: "order \<Rightarrow> order_id \<Rightarrow> resting" where
  "new_resting client i =
     \<lparr>rst_id = i, rst_price = ord_price client, rst_qty = unat (ord_quantity client)\<rparr>"

text \<open>The place that the levels give a new pointer is the place that \<open>spec_enter\<close> gives its order.\<close>

lemma queued_behind_enter:
  assumes q: "queued_behind sd h (ord_price ord) p ps ps'" and out: "p \<notin> set ps"
    and h: "h' p = Some ord" "\<And>x. x \<in> set ps \<Longrightarrow> h' x = h x"
  shows "map (\<lambda>p. view (the (h' p))) ps' = spec_enter sd (view ord) (map (\<lambda>p. view (the (h p))) ps)"
proof -
  let ?v = "\<lambda>p. view (the (h p))"
  obtain xs ys where xy: "ps = xs @ ys" "ps' = xs @ p # ys"
      "\<forall>q \<in> set xs. \<not> side_lt sd (ord_price ord) (price_of h q)"
      "\<forall>q \<in> set ys. side_lt sd (ord_price ord) (price_of h q)"
    using q by (auto simp: queued_behind_def)
  have "spec_enter sd (view ord) (map ?v xs @ map ?v ys) = map ?v xs @ view ord # map ?v ys"
    by (rule spec_enter_split) (use xy(3,4) in auto)
  then show ?thesis using xy(1,2) out h by simp
qed

lemma entered_queue:
  assumes inv: "book_inv ob" and ent: "entered ord i p ob ob1" and acc: "accepted ord client i"
  shows "queue (ord_side client) ob1 = spec_enter (ord_side client) (new_resting client i) (queue (ord_side client) ob)"
    "sd \<noteq> ord_side client \<Longrightarrow> queue sd ob1 = queue sd ob"
proof -
  let ?sd = "ord_side client" and ?h = "orders ob"
  have np: "?h p = None" and h1: "orders ob1 = ?h(p \<mapsto> ord)" and sd: "ord_side ord = ?sd"
    using ent acc by (simp_all add: entered_def accepted_def)
  have out: "p \<notin> set (side_ptrs (levels_of sd ob))" for sd
    using side_ptr_orders [OF inv, of p sd] np by force
  have new: "view ord = new_resting client i"
    using acc by (simp add: view_def new_resting_def accepted_def available_def)
  have "queued_behind ?sd ?h (ord_price ord) p (side_ptrs (levels_of ?sd ob)) (side_ptrs (levels_of ?sd ob1))"
    using ent sd by (simp add: entered_def)
  moreover have "orders ob1 x = ?h x" if "x \<in> set (side_ptrs (levels_of ?sd ob))" for x
    using h1 out [of ?sd] that by auto
  ultimately show "queue ?sd ob1 = spec_enter ?sd (new_resting client i) (queue ?sd ob)"
    using queued_behind_enter [OF _ out, of ?sd ?h ord ?sd _ "orders ob1"] h1 new by (simp add: queue_def)
  show "queue sd ob1 = queue sd ob" if "sd \<noteq> ?sd"
    using that ent sd out [of sd] h1 by (auto simp: queue_def entered_def)
qed

lemma entered_flag:
  assumes ent: "entered ord i p ob ob1" and unc: "uncrossed ob" and off: "\<not> ob_try_match_flag ob1"
  shows "uncrossed ob1"
proof -
  have "map fst (levels_of sd ob1) = map fst (levels_of sd ob)" for sd
    using ent off by (cases "sd = ord_side ord") (simp_all add: entered_def)
  from this [of BUY] this [of SELL] show ?thesis
    using unc by (simp add: uncrossed_def del: set_map)
qed

text \<open>What \<open>add_order\<close> does, all in one: the properties below are parts of it.\<close>

lemma add_order_core:
  assumes inv: "book_inv ob" "uncrossed ob" and room: "pool_room (ob_order_pool ob)"
    and ids: "ids_ok w ob" "ids_room w ob" and price: "\<not> is_nan (ord_price client)"
  obtains i p ord w' ob1 ob' ts where
    "add_order client (w, ob) = Inr (i, w', ob')"
    "spec_add (ord_side client) (new_resting client i) (queue BUY ob) (queue SELL ob) =
       (ts, queue BUY ob', queue SELL ob')"
    "entered ord i p ob ob1" "accepted ord client i" "settles ts ob1 ob'"
    "book_inv ob'" "uncrossed ob'" "ids_ok w' ob'"
proof -
  obtain i p ord w1 ob1 where add: "add_order client (w, ob) =
      rbind (try_match (w1, ob1)) (\<lambda>(_, w2, ob2). Inr (i, w2, ob2))"
    and ent: "entered ord i p ob ob1" "accepted ord client i" and ob1: "book_inv ob1" "ids_ok w1 ob1"
    by (rule add_order_enters [OF inv(1) room ids price])
  have "ob_try_match_flag ob1 \<or> uncrossed ob1" using entered_flag ent(1) inv(2) by blast
  then obtain w' ob' ts where m: "try_match (w1, ob1) = Inr (ts \<noteq> [], w', ob')"
      "spec_match (queue BUY ob1) (queue SELL ob1) = (ts, queue BUY ob', queue SELL ob')"
      "book_inv ob'" "uncrossed ob'" "settles ts ob1 ob'" "wd_ids w' = wd_ids w1"
    using try_match_refines [OF ob1(1)] by blast
  have "spec_add (ord_side client) (new_resting client i) (queue BUY ob) (queue SELL ob) =
      spec_match (queue BUY ob1) (queue SELL ob1)"
    using entered_queue [OF inv(1) ent] by (cases "ord_side client") (simp_all add: spec_add_def)
  moreover have "ids_ok w' ob'" using ob1(2) m(5,6) keeps_ids by (simp add: ids_ok_def settles_def keeps_def)
  ultimately show ?thesis using that ent m add by simp
qed

end
