(* ===== verification/Book_Modify.thy ===== *)
theory Book_Modify
  imports Book_Refinement
begin

text \<open>
  Cancelling and modifying, on every branch of the code. Neither operation trades: both return
  before the matching loop. The queues change as \<open>Book_Spec\<close> says: a cancelled order leaves its
  side, an order with a new price leaves its place and enters anew, one whose quantity grows goes to
  the back of its level, and one whose quantity shrinks keeps its place.
\<close>

section \<open>Queues\<close>

lemma book_ptrs:
  assumes inv: "book_inv ob" and p: "orders ob p = Some ord" "active ord"
  shows "p \<in> set (side_ptrs (levels_of (ord_side ord) ob))"
  using assms by (auto simp: book_inv_def side_inv_except_def resting_set_def)

lemma book_ptrs_distinct: "book_inv ob \<Longrightarrow> distinct (side_ptrs (levels_of sd ob))"
  using side_ptrs_distinct [of "{}" sd "orders ob" "levels_of sd ob"] by (simp add: book_inv_def)

lemma views_upd:
  "p \<notin> set ps \<Longrightarrow> map (\<lambda>x. view (the ((h(p \<mapsto> ord)) x))) ps = map (\<lambda>x. view (the (h x))) ps"
  by (induction ps) auto

lemma queue_remove:
  assumes inv: "book_inv ob" and p: "orders ob p = Some ord"
  shows "map (\<lambda>p. view (the (orders ob p))) (remove1 p (side_ptrs (levels_of sd ob))) =
    spec_remove (ord_id ord) (queue sd ob)"
proof -
  have oi: "orders_inv ob" using inv by (simp add: book_inv_def)
  have "x \<noteq> p \<longleftrightarrow> rst_id (view (the (orders ob x))) \<noteq> ord_id ord"
    if x: "x \<in> set (side_ptrs (levels_of sd ob))" for x
  proof -
    obtain o1 where "orders ob x = Some o1" using side_ptr_orders [OF inv x] by blast
    then show ?thesis using ids_unique [OF oi, of x o1 p ord] p by auto
  qed
  then have "filter (\<lambda>x. x \<noteq> p) (side_ptrs (levels_of sd ob)) =
      filter (\<lambda>x. rst_id (view (the (orders ob x))) \<noteq> ord_id ord) (side_ptrs (levels_of sd ob))"
    by (intro filter_cong) auto
  then show ?thesis
    using distinct_remove1_filter [OF book_ptrs_distinct [OF inv], of p sd]
    by (simp add: queue_def spec_remove_def filter_map comp_def)
qed

lemma queue_other:
  assumes inv: "book_inv ob" and p: "orders ob p = Some ord" "ord_side ord \<noteq> sd"
    and ob': "levels_of sd ob' = levels_of sd ob" "orders ob' = (orders ob)(p \<mapsto> ord')"
  shows "queue sd ob' = queue sd ob"
proof -
  have "x \<noteq> p" if "x \<in> set (side_ptrs (levels_of sd ob))" for x
    using side_ptr_orders [OF inv that] p by force
  then show ?thesis using ob' by (auto simp: queue_def)
qed

section \<open>Cancelling\<close>

lemma cancel_known:
  assumes inv: "book_inv ob" and i: "map_of (ob_order_registry ob) i = Some p"
  obtains ord where "orders ob p = Some ord" "ord_id ord = i" "order_wf ord"
  using inv i registered [of ob i p] by (auto simp: book_inv_def orders_inv_def)

lemma cancel_active:
  assumes inv: "book_inv ob" and p: "orders ob p = Some ord" "active ord"
  shows "\<exists>ob'. cancel_order (ord_id ord) (w, ob) = Inr (True, wtick w, ob') \<and> book_inv ob' \<and>
    orders ob' = (orders ob)(p \<mapsto> snd (cancel (wnow w) ord)) \<and>
    queue (ord_side ord) ob' = spec_remove (ord_id ord) (queue (ord_side ord) ob) \<and>
    (\<forall>sd. sd \<noteq> ord_side ord \<longrightarrow> queue sd ob' = queue sd ob) \<and>
    (uncrossed ob \<longrightarrow> uncrossed ob') \<and>
    (\<exists>ls. ob' = set_levels (ord_side ord) ls (write_order p (snd (cancel (wnow w) ord)) ob))"
proof -
  let ?sd = "ord_side ord"
  have oi: "orders_inv ob" using inv by (simp add: book_inv_def)
  obtain c where c: "cancel (wnow w) ord = (True, c)"
    using p(2) fst_cancel [of "wnow w" ord] by (cases "cancel (wnow w) ord") auto
  then have cs: "c = snd (cancel (wnow w) ord)" by simp
  have na: "\<not> active c" unfolding cs by (cases "ord_status ord") (simp_all add: cancel_def active_def)
  have wf: "order_wf c" unfolding cs using oi p(1) order_wf_cancel by (auto simp: orders_inv_def)
  note frame = cancel_frame [of "wnow w" ord, folded cs]
  obtain ob' where ob': "cancel_order_dispatcher ?sd p (write_order p c ob) = Inr ob'" "book_inv ob'"
      "orders ob' = (orders ob)(p \<mapsto> c)"
      "side_ptrs (levels_of ?sd ob') = remove1 p (side_ptrs (levels_of ?sd ob))"
      "set (map fst (levels_of ?sd ob')) \<subseteq> set (map fst (levels_of ?sd ob))"
      "\<exists>ls. ob' = set_levels ?sd ls (write_order p c ob)"
    using cancel_dispatcher_no_throw [OF inv p na wf] frame by auto
  have reg: "map_of (ob_order_registry ob) (ord_id ord) = Some p" using registered [OF oi] p(1) by blast
  have lv: "levels_of sd ob' = levels_of sd ob" if "sd \<noteq> ?sd" for sd using ob'(6) that by auto
  have "cancel_order (ord_id ord) (w, ob) = Inr (True, wtick w, ob')"
    using reg p(1) c ob'(1) frame by (simp add: cancel_order_def Let_def)
  moreover have "queue ?sd ob' = spec_remove (ord_id ord) (queue ?sd ob)"
  proof -
    have "p \<notin> set (remove1 p (side_ptrs (levels_of ?sd ob)))" using book_ptrs_distinct [OF inv] by simp
    then show ?thesis
      using queue_remove [OF inv p(1), of ?sd] views_upd [of p _ "orders ob" c] ob'(3,4)
      unfolding queue_def by metis
  qed
  moreover have "queue sd ob' = queue sd ob" if "sd \<noteq> ?sd" for sd
    using queue_other [OF inv p(1) _ lv ob'(3)] that by simp
  moreover have "uncrossed ob \<longrightarrow> uncrossed ob'"
    using ob'(5) lv [of BUY] lv [of SELL] by (cases ?sd) (fastforce simp: uncrossed_def)+
  ultimately show ?thesis using ob'(2,3,6) cs by blast
qed

lemma cancel_refused:
  assumes inv: "book_inv ob" and na: "\<And>p ord. orders ob p = Some ord \<Longrightarrow> ord_id ord = i \<Longrightarrow> \<not> active ord"
  shows "cancel_order i (w, ob) = Inr (False, w, ob)"
proof (cases "map_of (ob_order_registry ob) i")
  case None
  then show ?thesis by (simp add: cancel_order_def)
next
  case (Some p)
  then obtain ord where ord: "orders ob p = Some ord" "ord_id ord = i" by (rule cancel_known [OF inv])
  have "fst (cancel (wnow w) ord) = False" using na ord fst_cancel by blast
  then show ?thesis using Some ord by (simp add: cancel_order_def split_beta)
qed

section \<open>Modifying: refusals\<close>

lemma modify_refused:
  assumes inv: "book_inv ob"
    and no: "\<And>p ord. orders ob p = Some ord \<Longrightarrow> ord_id ord = i \<Longrightarrow>
      \<not> active ord \<or> \<not> validate_modify_order ord np nq"
  shows "modify_order i np nq (w, ob) = Inr (False, w, ob)"
proof (cases "map_of (ob_order_registry ob) i")
  case None
  then show ?thesis by (simp add: modify_order_def)
next
  case (Some p)
  then obtain ord where ord: "orders ob p = Some ord" "ord_id ord = i" by (rule cancel_known [OF inv])
  then show ?thesis
    using no [OF ord] Some by (auto simp: modify_order_def modify_order_dispatcher_def active_iff_cancellable)
qed

section \<open>Modifying: a new price\<close>

lemma move_to_price_ok:
  fixes w :: world
  assumes inv: "book_inv ob" and p: "orders ob p = Some ord" "active ord" and sd: "ord_side ord = sd"
    and np: "\<not> is_nan np" "\<not> dbl_eq (ord_price ord) np"
    and key: "level_at sd (ord_price ord) (levels_of sd ob) = Inr (k, lv)"
  defines "ord' \<equiv> set_price (wnow w) np ord"
  shows "\<exists>ls f. move_to_price sd p k np (w, ob) =
      Inr (wtick w, (set_levels sd ls (write_order p ord' ob))\<lparr>ob_try_match_flag := f\<rparr>) \<and>
    side_inv_except {k} sd ((orders ob)(p \<mapsto> ord')) ls \<and> k \<in> fst ` set ls \<and>
    queued_behind sd ((orders ob)(p := None)) np p (remove1 p (side_ptrs (levels_of sd ob))) (side_ptrs ls)"
proof -
  let ?h = "orders ob" and ?ls = "levels_of sd ob" and ?ob1 = "write_order p ord' ob"
  let ?g = "?h(p := None)"
  have si: "side_inv sd ?h ?ls" and oi: "orders_inv ob" using inv by (simp_all add: book_inv_def)
  have mem: "p \<in> set (side_ptrs ?ls)" using book_ptrs [OF inv p] sd by simp
  obtain ls1 k' lv' ls2 where at: "?ls = ls1 @ (k', lv') # ls2" "p \<in> set (live lv')"
      "dbl_eq (ord_price ord) k'" "level_at sd (ord_price ord) ?ls = Inr (k', lv')"
      "level_at sd k' ?ls = Inr (k', lv')" "\<And>w. map_write (side_lt sd) k' w ?ls = ls1 @ (k', w) # ls2"
    using level_of_order [OF si mem p(1)] by metis
  have kk: "k' = k" "lv' = lv" using at(4) key by simp_all
  have si': "side_inv sd ?h (ls1 @ (k, lv) # ls2)" using si at(1) kk by simp
  obtain old where old: "level_remove_order (ord_id ord) lv = Inr (True, old)"
      "live old = remove1 p (live lv)" "side_inv_except {k} sd ?g (ls1 @ (k, old) # ls2)"
    using side_take [OF si' _ p(1)] at(2) kk by blast
  have ptrs: "side_ptrs (ls1 @ (k, old) # ls2) = remove1 p (side_ptrs ?ls)"
    using side_ptrs_split [OF si', of p] at(1,2) kk old(2) by simp
  note ow = orders_write [OF p(1), of ord']
  have o': "ord_id ord' = ord_id ord" "ord_side ord' = sd" "ord_price ord' = np" "active ord'"
    using p(2) sd by (simp_all add: ord'_def active_def)
  have st: "store ?ob1 p = Some ord'" using ow held_store by simp
  have fresh: "ord_id x \<noteq> ord_id ord'" if "?g q = Some x" for q x
    using that ids_unique [OF oi _ p(1), of q x] o'(1) by (auto split: if_splits)
  have far: "\<not> dbl_eq np k" using np(2) at(3) kk dbl_eq_simps(3,4) by blast
  obtain ins ls' where add: "side_added sd (store ?ob1) p np (ls1 @ (k, old) # ls2) ins ls'"
      "side_inv_except {k} sd (?g(p \<mapsto> ord')) ls'"
      "queued_behind sd ?g np p (remove1 p (side_ptrs ?ls)) (side_ptrs ls')"
      "\<forall>x \<in> set (ls1 @ (k, old) # ls2). \<not> dbl_eq np (fst x) \<longrightarrow> x \<in> set ls'"
    using side_add [OF old(3), of p "store ?ob1" ord'] st o' np(1) fresh far ptrs by auto
  have "(k, old) \<in> set ls'" using add(4) far by simp
  then have "k \<in> fst ` set ls'" by force
  moreover have "move_to_price sd p k np (w, ob) =
      Inr (wtick w, (set_levels sd ls' ?ob1)\<lparr>ob_try_match_flag := ins\<rparr>)"
    using p(1) at(5,6) kk old(1) add(1)
    by (auto simp: move_to_price_def Let_def ord'_def [symmetric] side_added_def)
  ultimately show ?thesis using add(2,3) by auto
qed

text \<open>The order as \<open>modify_order\<close> leaves it.\<close>

definition modified :: "time_point \<Rightarrow> price \<Rightarrow> quantity \<Rightarrow> order \<Rightarrow> order" where
  "modified t np nq ord =
     set_quantity nq (if dbl_eq (ord_price ord) np then ord else set_price t np ord)"

lemma modified_simps [simp]:
  "ord_id (modified t np nq ord) = ord_id ord" "ord_side (modified t np nq ord) = ord_side ord"
  "ord_quantity (modified t np nq ord) = nq" "ord_status (modified t np nq ord) = ord_status ord"
  "ord_quantity_filled (modified t np nq ord) = ord_quantity_filled ord"
  "ord_price (modified t np nq ord) = (if dbl_eq (ord_price ord) np then ord_price ord else np)"
  "active (modified t np nq ord) = active ord"
  by (simp_all add: modified_def active_def)

lemma modified_wf:
  "order_wf ord \<Longrightarrow> active ord \<Longrightarrow> validate_modify_order ord np nq \<Longrightarrow> order_wf (modified t np nq ord)"
  by (auto simp: order_wf_def validate_modify_order_def active_def word_gt_0)

lemma modify_price:
  fixes w :: world
  assumes inv: "book_inv ob" and p: "orders ob p = Some ord" "active ord"
    and np: "\<not> is_nan np" "\<not> dbl_eq (ord_price ord) np" and ok: "validate_modify_order ord np nq"
  defines "ord' \<equiv> modified (wnow w) np nq ord"
  shows "\<exists>ob'. modify_order (ord_id ord) np nq (w, ob) = Inr (True, wtick w, ob') \<and> book_inv ob' \<and>
    orders ob' = (orders ob)(p \<mapsto> ord') \<and>
    queue (ord_side ord) ob' =
      spec_enter (ord_side ord) (view ord') (spec_remove (ord_id ord) (queue (ord_side ord) ob)) \<and>
    (\<forall>sd. sd \<noteq> ord_side ord \<longrightarrow> queue sd ob' = queue sd ob) \<and>
    ob_trades_completed ob' = ob_trades_completed ob \<and> keeps ob ob'"
proof -
  let ?sd = "ord_side ord" and ?h = "orders ob" and ?ls = "levels_of (ord_side ord) ob"
  let ?o1 = "set_price (wnow w) np ord"
  have si: "\<And>sd. side_inv sd ?h (levels_of sd ob)" and oi: "orders_inv ob" using inv by (simp_all add: book_inv_def)
  have wf: "order_wf ord" "order_wf ord'" using oi p ok modified_wf by (auto simp: orders_inv_def ord'_def)
  have reg: "map_of (ob_order_registry ob) (ord_id ord) = Some p" using registered [OF oi] p(1) by blast
  obtain k lv where key: "level_at ?sd (ord_price ord) ?ls = Inr (k, lv)"
    using level_of_order [OF si book_ptrs [OF inv p] p(1)] by metis
  obtain ls f where mv: "move_to_price ?sd p k np (w, ob) =
        Inr (wtick w, (set_levels ?sd ls (write_order p ?o1 ob))\<lparr>ob_try_match_flag := f\<rparr>)"
      "side_inv_except {k} ?sd (?h(p \<mapsto> ?o1)) ls" "k \<in> fst ` set ls"
      "queued_behind ?sd (?h(p := None)) np p (remove1 p (side_ptrs ?ls)) (side_ptrs ls)"
    using move_to_price_ok [OF inv p refl np key] by blast
  let ?ob1 = "(set_levels ?sd ls (write_order p ?o1 ob))\<lparr>ob_try_match_flag := f\<rparr>"
  let ?ob2 = "if ord_quantity ord \<noteq> nq then write_order p ord' ?ob1 else ?ob1"
  have o1: "orders ?ob1 = ?h(p \<mapsto> ?o1)" using orders_write [OF p(1)] by simp
  have eq: "ord' = set_quantity nq ?o1" using np(2) by (simp add: ord'_def modified_def)
  have noop: "ord' = ?o1" if "ord_quantity ord = nq" using that eq by (simp add: set_quantity_def set_price_def)
  have o2: "orders ?ob2 = ?h(p \<mapsto> ord')" using o1 noop orders_write [of ?ob1 p ?o1 ord'] by auto
  have lv2: "levels_of sd ?ob2 = (if sd = ?sd then ls else levels_of sd ob)" for sd by simp
  have chg: "(if ord_quantity ord \<noteq> nq then change_quantity ?sd p k True nq ?ob1 else Inr ?ob1) = Inr ?ob2"
    using o1 eq by (simp add: change_quantity_def)
  have "side_inv_except {k} ?sd (?h(p \<mapsto> ?o1, p \<mapsto> ord')) ls"
    by (rule side_inv_update [OF mv(2), of p ?o1]) (use p(2) np(2) in \<open>simp_all add: ord'_def active_def\<close>)
  then have E: "side_inv_except {k} ?sd (?h(p \<mapsto> ord')) ls" by simp
  obtain m1 x m2 where "ls = m1 @ (k, x) # m2" using mv(3) by (force dest: split_list)
  then obtain ls' where ls': "remove_price_level_if_empty ?sd k ls = Inr ls'"
      "side_inv ?sd (?h(p \<mapsto> ord')) ls'" "side_ptrs ls' = side_ptrs ls"
    using side_prune E by blast
  let ?ob' = "set_levels ?sd ls' ?ob2"
  have "modify_order_dispatcher ?sd p np nq (w, ob) = Inr (True, wtick w, ?ob')"
    using p(1) ok key np(2) mv(1) chg ls'(1) by (simp add: modify_order_dispatcher_def Let_def)
  then have res: "modify_order (ord_id ord) np nq (w, ob) = Inr (True, wtick w, ?ob')"
    using reg p by (simp add: modify_order_def active_iff_cancellable)
  have oi1: "orders_inv ?ob1"
    using orders_inv_write [OF oi p(1), of ?o1] orders_inv_frame [of ?ob1 "write_order p ?o1 ob"] wf(1)
    by (simp add: order_wf_def)
  have oi2: "orders_inv ?ob2"
    using orders_inv_write [OF oi1, of p ?o1 ord'] oi1 o1 wf(2) by (simp add: ord'_def)
  have "side_inv sd (?h(p \<mapsto> ord')) (levels_of sd ?ob')" for sd
    using ls'(2) si [of sd] side_inv_other [OF si [of sd], of p ord'] p(1) lv2 [of sd]
    by (auto simp: ord'_def)
  moreover have "orders ?ob' = ?h(p \<mapsto> ord')" using o2 by simp
  ultimately have inv': "book_inv ?ob'" using oi2 by (simp only: book_inv_def orders_inv_set_levels simp_thms)
  have q: "queue ?sd ?ob' = spec_enter ?sd (view ord') (spec_remove (ord_id ord) (queue ?sd ob))"
  proof -
    have d: "p \<notin> set (remove1 p (side_ptrs ?ls))" using book_ptrs_distinct [OF inv] by simp
    have qb: "queued_behind ?sd (?h(p := None)) (ord_price ord') p (remove1 p (side_ptrs ?ls)) (side_ptrs ls)"
      using mv(4) np(2) by (simp add: ord'_def)
    have same: "(?h(p \<mapsto> ord')) x = (?h(p := None)) x"
      if "x \<in> set (remove1 p (side_ptrs ?ls))" for x using that d by auto
    have "map (\<lambda>x. view (the ((?h(p \<mapsto> ord')) x))) (side_ptrs ls) =
        spec_enter ?sd (view ord') (map (\<lambda>x. view (the ((?h(p := None)) x))) (remove1 p (side_ptrs ?ls)))"
      by (rule queued_behind_enter [OF qb d fun_upd_same same])
    moreover have "map (\<lambda>x. view (the ((?h(p := None)) x))) (remove1 p (side_ptrs ?ls)) =
        map (\<lambda>x. view (the (?h x))) (remove1 p (side_ptrs ?ls))"
      using d by (intro map_cong) auto
    ultimately show ?thesis
      using queue_remove [OF inv p(1), of ?sd] o2 ls'(3) by (simp add: queue_def)
  qed
  have "queue sd ?ob' = queue sd ob" if "sd \<noteq> ?sd" for sd
    by (rule queue_other [OF inv p(1), of sd ?ob' ord']) (use that o2 in auto)
  then show ?thesis using res inv' q o2 by (intro exI [of _ ?ob']) auto
qed

section \<open>Modifying: the same price\<close>

text \<open>\<open>modify_order\<close> when the price stays: the level is found, and its quantity branch decides.\<close>

lemma modify_same_price:
  assumes inv: "book_inv ob" and p: "orders ob p = Some ord" "active ord"
    and ok: "validate_modify_order ord np nq" and eq: "dbl_eq (ord_price ord) np"
    and key: "level_at (ord_side ord) (ord_price ord) (levels_of (ord_side ord) ob) = Inr (k, lv)"
    and chg: "ord_quantity ord \<noteq> nq \<Longrightarrow> change_quantity (ord_side ord) p k False nq ob = Inr ob1"
      "ord_quantity ord = nq \<Longrightarrow> ob1 = ob"
    and prune: "remove_price_level_if_empty (ord_side ord) k (levels_of (ord_side ord) ob1) =
      Inr (levels_of (ord_side ord) ob1)"
  shows "modify_order (ord_id ord) np nq (w, ob) = Inr (ord_quantity ord \<noteq> nq, w, ob1)"
proof -
  have oi: "orders_inv ob" using inv by (simp add: book_inv_def)
  have reg: "map_of (ob_order_registry ob) (ord_id ord) = Some p" using registered [OF oi] p(1) by blast
  have same: "set_levels sd (levels_of sd ob1) ob1 = ob1" for sd by (cases sd) simp_all
  have "modify_order_dispatcher (ord_side ord) p np nq (w, ob) = Inr (ord_quantity ord \<noteq> nq, w, ob1)"
    using p(1) ok key eq chg prune same
    by (cases "ord_quantity ord = nq") (simp_all add: modify_order_dispatcher_def)
  then show ?thesis using reg p by (simp add: modify_order_def active_iff_cancellable)
qed

lemma modified_same_price:
  "dbl_eq (ord_price ord) np \<Longrightarrow> modified t np nq ord = set_quantity nq ord"
  by (simp add: modified_def)

lemma quantity_written:
  assumes inv: "book_inv ob" and p: "orders ob p = Some ord" "active ord"
    and wf: "order_wf (set_quantity nq ord)"
  shows "book_inv (write_order p (set_quantity nq ord) ob)"
proof -
  have "side_inv sd ((orders ob)(p \<mapsto> set_quantity nq ord)) (levels_of sd ob)" for sd
    by (rule side_inv_update [of _ _ _ _ p ord]) (use inv p in \<open>simp_all add: book_inv_def active_def\<close>)
  then show ?thesis
    using orders_inv_write [of ob p ord "set_quantity nq ord"] inv p wf orders_write [OF p(1)]
    by (simp add: book_inv_def)
qed

lemma queue_resized:
  assumes inv: "book_inv ob" and p: "orders ob p = Some ord" "active ord"
  shows "queue sd (write_order p (set_quantity nq ord) ob) =
    (if sd = ord_side ord then spec_resize (ord_id ord) (unat (nq - ord_quantity_filled ord)) (queue sd ob)
     else queue sd ob)"
proof -
  have oi: "orders_inv ob" using inv by (simp add: book_inv_def)
  let ?f = "\<lambda>r. if rst_id r = ord_id ord then r\<lparr>rst_qty := unat (nq - ord_quantity_filled ord)\<rparr> else r"
  have one: "view (the (((orders ob)(p \<mapsto> set_quantity nq ord)) x)) = ?f (view (the (orders ob x)))"
    if x: "x \<in> set (side_ptrs (levels_of sd ob))" for x
  proof -
    obtain o1 where "orders ob x = Some o1" using side_ptr_orders [OF inv x] by blast
    then show ?thesis using ids_unique [OF oi, of x o1 p ord] p
      by (auto simp: view_def available_def)
  qed
  show ?thesis
  proof (cases "sd = ord_side ord")
    case True
    then show ?thesis using one by (simp add: queue_def orders_write [OF p(1)] spec_resize_def del: fun_upd_apply)
  next
    case False
    then show ?thesis using queue_other [OF inv p(1), of sd] orders_write [OF p(1)] by simp
  qed
qed

text \<open>A smaller quantity, or the same: the order keeps its place.\<close>

lemma modify_reduce:
  assumes inv: "book_inv ob" and p: "orders ob p = Some ord" "active ord"
    and ok: "validate_modify_order ord np nq" and eq: "dbl_eq (ord_price ord) np"
    and le: "nq \<le> ord_quantity ord"
  defines "ob' \<equiv> if ord_quantity ord = nq then ob else write_order p (set_quantity nq ord) ob"
  shows "modify_order (ord_id ord) np nq (w, ob) = Inr (ord_quantity ord \<noteq> nq, w, ob')" "book_inv ob'"
proof -
  let ?sd = "ord_side ord"
  have si: "side_inv ?sd (orders ob) (levels_of ?sd ob)" and wf: "order_wf (set_quantity nq ord)"
    using inv p modified_wf [OF _ p(2) ok] modified_same_price [OF eq]
    by (auto simp: book_inv_def orders_inv_def)
  show inv': "book_inv ob'" using inv quantity_written [OF inv p wf] by (simp add: ob'_def)
  obtain ls1 k lv ls2 where at: "levels_of ?sd ob = ls1 @ (k, lv) # ls2"
      "level_at ?sd (ord_price ord) (levels_of ?sd ob) = Inr (k, lv)"
    using level_of_order [OF si book_ptrs [OF inv p] p(1)] by metis
  have "remove_price_level_if_empty ?sd k (levels_of ?sd ob') = Inr (levels_of ?sd ob')"
    using prune_noop si at(1) by (simp add: ob'_def)
  moreover have "change_quantity ?sd p k False nq ob = Inr ob'" if "ord_quantity ord \<noteq> nq"
    using p(1) le that by (simp add: change_quantity_def ob'_def Let_def not_less [symmetric])
  ultimately show "modify_order (ord_id ord) np nq (w, ob) = Inr (ord_quantity ord \<noteq> nq, w, ob')"
    by (intro modify_same_price [OF inv p ok eq at(2)]) (simp_all add: ob'_def)
qed

text \<open>A larger quantity, at a level that queues another order: the order goes to the back.\<close>

definition shares_level :: "order \<Rightarrow> resting list \<Rightarrow> bool" where
  "shares_level ord rs \<longleftrightarrow> (\<exists>r \<in> set rs. rst_id r \<noteq> ord_id ord \<and> dbl_eq (rst_price r) (ord_price ord))"

lemma shares_level_live:
  assumes inv: "book_inv ob" and p: "orders ob p = Some ord"
    and sh: "shares_level ord (queue sd ob)"
    and ls: "levels_of sd ob = ls1 @ (k, lv) # ls2" "dbl_eq (ord_price ord) k"
  shows "live lv \<noteq> [p]"
proof -
  have si: "side_inv sd (orders ob) (ls1 @ (k, lv) # ls2)" using inv ls(1) by (metis book_inv_def)
  obtain q where q: "q \<in> set (side_ptrs (levels_of sd ob))"
      "ord_id (the (orders ob q)) \<noteq> ord_id ord" "dbl_eq (price_of (orders ob) q) (ord_price ord)"
    using sh by (auto simp: shares_level_def queue_def)
  obtain o1 where o1: "orders ob q = Some o1" using side_ptr_orders [OF inv q(1)] by blast
  then have "dbl_eq (ord_price o1) k" using dbl_eq_simps(4) [OF q(3) ls(2)] by simp
  from level_at_key(1) [OF si this]
  have "level_at sd (ord_price o1) (ls1 @ (k, lv) # ls2) = Inr (k, lv)" .
  then have "q \<in> set (live lv)"
    using level_of_order [of "{}" sd "orders ob" "levels_of sd ob" q o1] si ls(1) q(1) o1
    by (metis Inr_inject prod.inject)
  then show ?thesis using q(2) o1 p by auto
qed

lemma modify_increase:
  assumes inv: "book_inv ob" and p: "orders ob p = Some ord" "active ord"
    and ok: "validate_modify_order ord np nq" and eq: "dbl_eq (ord_price ord) np"
    and gt: "nq > ord_quantity ord" and sh: "shares_level ord (queue (ord_side ord) ob)"
  shows "\<exists>ob'. modify_order (ord_id ord) np nq (w, ob) = Inr (True, w, ob') \<and> book_inv ob' \<and>
    orders ob' = (orders ob)(p \<mapsto> set_quantity nq ord) \<and>
    queue (ord_side ord) ob' =
      spec_enter (ord_side ord) (view (set_quantity nq ord)) (spec_remove (ord_id ord) (queue (ord_side ord) ob)) \<and>
    (\<forall>sd. sd \<noteq> ord_side ord \<longrightarrow> queue sd ob' = queue sd ob) \<and>
    (\<exists>ls. ob' = set_levels (ord_side ord) ls (write_order p (set_quantity nq ord) ob) \<and>
       map fst ls = map fst (levels_of (ord_side ord) ob))"
proof -
  let ?sd = "ord_side ord" and ?h = "orders ob" and ?ls = "levels_of (ord_side ord) ob"
  let ?o = "set_quantity nq ord" and ?ob1 = "write_order p (set_quantity nq ord) ob"
  let ?H = "?h(p \<mapsto> ?o)"
  have si: "side_inv ?sd ?h ?ls" and oi: "orders_inv ob" and wf: "order_wf ?o"
    using inv p modified_wf [OF _ p(2) ok] modified_same_price [OF eq]
    by (auto simp: book_inv_def orders_inv_def)
  obtain ls1 k lv ls2 where at: "?ls = ls1 @ (k, lv) # ls2" "p \<in> set (live lv)" "dbl_eq (ord_price ord) k"
      "level_at ?sd (ord_price ord) ?ls = Inr (k, lv)" "level_at ?sd k ?ls = Inr (k, lv)"
      "\<And>w. map_write (side_lt ?sd) k w ?ls = ls1 @ (k, w) # ls2"
    using level_of_order [OF si book_ptrs [OF inv p] p(1)] by metis
  have ne: "live lv \<noteq> [p]" by (rule shares_level_live [OF inv p(1) sh at(1,3)])
  have inv1: "book_inv ?ob1" by (rule quantity_written [OF inv p wf])
  have H: "orders ?ob1 = ?H" "?H p = Some ?o" using orders_write [OF p(1)] by simp_all
  have siH: "side_inv ?sd ?H (ls1 @ (k, lv) # ls2)" using inv1 unfolding book_inv_def H(1) by (metis at(1) write_order_frame(1))
  obtain lv1 lv2 where lv: "level_remove_order (ord_id ord) lv = Inr (True, lv1)"
      "level_add_order ?H p lv1 = Inr lv2" "live lv2 = remove1 p (live lv) @ [p]"
      "side_inv ?sd ?H (ls1 @ (k, lv2) # ls2)"
    using side_requeue [OF siH at(2) H(2) ne] setters_frame(7) [of nq ord] by metis
  have st: "store ?ob1 p = Some ?o" using H held_store by metis
  have add: "level_add_order (store ?ob1) p lv1 = Inr lv2" using level_add_store [of ?H p ?o] H(2) st lv(2) by metis
  let ?ob' = "set_levels ?sd (ls1 @ (k, lv2) # ls2) ?ob1"
  have chg: "change_quantity ?sd p k False nq ob = Inr ?ob'"
    using p(1) gt at(5,6) lv(1) add by (simp add: change_quantity_def Let_def)
  have "remove_price_level_if_empty ?sd k (levels_of ?sd ?ob') = Inr (levels_of ?sd ?ob')"
    using prune_noop [OF lv(4)] by simp
  then have res: "modify_order (ord_id ord) np nq (w, ob) = Inr (True, w, ?ob')"
    using modify_same_price [OF inv p ok eq at(4) chg, of w] gt by auto
  have "orders_inv ?ob'" using inv1 by (simp add: book_inv_def)
  moreover have "side_inv sd (orders ?ob') (levels_of sd ?ob')" for sd
    using inv1 H(1) lv(4) by (simp add: book_inv_def)
  ultimately have inv': "book_inv ?ob'" by (simp only: book_inv_def simp_thms)
  have dist: "distinct (live lv)"
    using si at(1) lv2.live_distinct [of ?h lv] by (simp add: side_inv_except_def level_ok_def)
  have ptrs: "remove1 p (side_ptrs ?ls) = side_ptrs ls1 @ remove1 p (live lv) @ side_ptrs ls2"
    using side_ptrs_split [of "{}" ?sd ?h ls1 k lv ls2 p] si at(1,2) by simp
  have srt: "map_sorted (side_lt ?sd) (ls1 @ (k, lv) # ls2)" and okl: "\<And>x. x \<in> set (ls1 @ ls2) \<Longrightarrow> level_ok {} ?h x"
    and lvo: "level_ok {} ?h (k, lv)"
    using si at(1) by (auto simp: side_inv_except_def)
  have eqs: "\<forall>q \<in> set (remove1 p (live lv)). dbl_eq (price_of ?h q) k"
    using lvo set_remove1_subset [of p "live lv"] by (auto simp: level_ok_def)
  have qb: "queued_behind ?sd ?h (ord_price ?o) p (remove1 p (side_ptrs ?ls)) (side_ptrs (ls1 @ (k, lv2) # ls2))"
    using level_place [OF okl srt _ _ at(3) eqs, of p] ptrs lv(3) dbl_eq_simps(1,2) [OF at(3)] by simp
  have d: "p \<notin> set (remove1 p (side_ptrs ?ls))" using book_ptrs_distinct [OF inv] by simp
  have same: "?H x = ?h x" if "x \<in> set (remove1 p (side_ptrs ?ls))" for x using that d by auto
  have "queue ?sd ?ob' = spec_enter ?sd (view ?o) (spec_remove (ord_id ord) (queue ?sd ob))"
    using queued_behind_enter [OF qb d fun_upd_same same] queue_remove [OF inv p(1), of ?sd] H(1)
    by (simp add: queue_def)
  moreover have "queue sd ?ob' = queue sd ob" if "sd \<noteq> ?sd" for sd
    by (rule queue_other [OF inv p(1), of sd ?ob' ?o]) (use that H in auto)
  ultimately show ?thesis using res inv' H at(1) by (intro exI [of _ ?ob']) auto
qed

text \<open>Without another order at its price, an increase leaves the book inconsistent.\<close>

lemma lone_live:
  assumes inv: "book_inv ob" and p: "orders ob p = Some ord"
    and lone: "\<not> shares_level ord (queue sd ob)"
    and ls: "levels_of sd ob = ls1 @ (k, lv) # ls2" "dbl_eq (ord_price ord) k" "p \<in> set (live lv)"
  shows "live lv = [p]"
proof -
  have oi: "orders_inv ob" and si: "side_inv sd (orders ob) (ls1 @ (k, lv) # ls2)"
    using inv ls(1) unfolding book_inv_def by metis+
  then have ok: "level_ok {} (orders ob) (k, lv)" by (simp add: side_inv_except_def)
  have "q = p" if q: "q \<in> set (live lv)" for q
  proof -
    have m: "q \<in> set (side_ptrs (levels_of sd ob))" using q ls(1) by simp
    obtain o1 where o1: "orders ob q = Some o1" using side_ptr_orders [OF inv m] by blast
    have "dbl_eq (ord_price o1) k" using ok q o1 by (auto simp: level_ok_def)
    then have "dbl_eq (ord_price o1) (ord_price ord)" using ls(2) dbl_eq_simps(3,4) by blast
    moreover have "view o1 \<in> set (queue sd ob)" using m o1 by (force simp: queue_def)
    ultimately have "ord_id o1 = ord_id ord" using lone by (force simp: shares_level_def)
    then show ?thesis by (rule ids_unique [OF oi o1 p])
  qed
  moreover have "distinct (live lv)" using lv2.live_distinct ok by (auto simp: level_ok_def)
  ultimately show ?thesis using distinct_singleton [of "live lv" p] ls(3) by blast
qed

lemma modify_lone_result:
  assumes inv: "book_inv ob" and p: "orders ob p = Some ord" "active ord"
    and ok: "validate_modify_order ord np nq" and eq: "dbl_eq (ord_price ord) np"
    and gt: "nq > ord_quantity ord" and lone: "\<not> shares_level ord (queue (ord_side ord) ob)"
  obtains k lv ls1 ls2 lv2 where "levels_of (ord_side ord) ob = ls1 @ (k, lv) # ls2" "dbl_eq (ord_price ord) k"
    "dead_head p (ord_id ord) lv2" "\<not> level_inv (orders (write_order p (set_quantity nq ord) ob)) lv2"
    "modify_order (ord_id ord) np nq (w, ob) =
       Inr (True, w, set_levels (ord_side ord) (ls1 @ (k, lv2) # ls2) (write_order p (set_quantity nq ord) ob))"
proof -
  let ?sd = "ord_side ord" and ?h = "orders ob" and ?ls = "levels_of (ord_side ord) ob"
  let ?ob1 = "write_order p (set_quantity nq ord) ob"
  have si: "side_inv ?sd ?h ?ls" using inv by (simp add: book_inv_def)
  obtain ls1 k lv ls2 where at: "?ls = ls1 @ (k, lv) # ls2" "p \<in> set (live lv)" "dbl_eq (ord_price ord) k"
      "level_at ?sd (ord_price ord) ?ls = Inr (k, lv)" "level_at ?sd k ?ls = Inr (k, lv)"
      "\<And>w. map_write (side_lt ?sd) k w ?ls = ls1 @ (k, w) # ls2"
    using level_of_order [OF si book_ptrs [OF inv p] p(1)] by metis
  have li: "level_inv ?h lv" and srt: "map_sorted (side_lt ?sd) (ls1 @ (k, lv) # ls2)"
    using si at(1) by (auto simp: side_inv_except_def level_ok_def)
  have st: "store ?ob1 p = Some (set_quantity nq ord)"
    using orders_write [OF p(1)] held_store fun_upd_same by metis
  obtain lv1 lv2 where lv: "level_remove_order (ord_id ord) lv = Inr (True, lv1)"
      "level_add_order (store ?ob1) p lv1 = Inr lv2" "\<not> level_empty lv2" "\<not> level_inv (orders ?ob1) lv2"
      "dead_head p (ord_id ord) lv2"
    using requeue_lone [of ?h lv p ord "store ?ob1" "set_quantity nq ord" "orders ?ob1"]
      li lone_live [OF inv p(1) lone at(1,3,2)] p(1) st by auto
  let ?ob' = "set_levels ?sd (ls1 @ (k, lv2) # ls2) ?ob1"
  have chg: "change_quantity ?sd p k False nq ob = Inr ?ob'"
    using p(1) gt at(5,6) lv(1,2) by (simp add: change_quantity_def Let_def)
  have "\<And>x. x \<in> fst ` set ls1 \<Longrightarrow> \<not> is_nan x" "\<not> is_nan k"
    using side_inv_keys [OF si] at(1) by auto
  then have "remove_price_level_if_empty ?sd k (levels_of ?sd ?ob') = Inr (levels_of ?sd ?ob')"
    using prune_level [of ?sd ls1 k lv2 ls2] side_map.sorted_write [OF srt] lv(3) by simp
  then have "modify_order (ord_id ord) np nq (w, ob) = Inr (True, w, ?ob')"
    using modify_same_price [OF inv p ok eq at(4) chg, of w] gt by auto
  then show ?thesis using that at(1,3) lv(4,5) by blast
qed

lemma modify_lone_increase:
  assumes inv: "book_inv ob" and p: "orders ob p = Some ord" "active ord"
    and ok: "validate_modify_order ord np nq" "dbl_eq (ord_price ord) np" "nq > ord_quantity ord"
      "\<not> shares_level ord (queue (ord_side ord) ob)"
  shows "\<exists>ob'. modify_order (ord_id ord) np nq (w, ob) = Inr (True, w, ob') \<and> \<not> book_inv ob'"
proof -
  let ?sd = "ord_side ord" and ?ob1 = "write_order p (set_quantity nq ord) ob"
  obtain k lv ls1 ls2 lv2 where "\<not> level_inv (orders ?ob1) lv2"
    and m: "modify_order (ord_id ord) np nq (w, ob) = Inr (True, w, set_levels ?sd (ls1 @ (k, lv2) # ls2) ?ob1)"
    by (rule modify_lone_result [OF inv p ok])
  let ?ob' = "set_levels ?sd (ls1 @ (k, lv2) # ls2) ?ob1"
  have "\<not> book_inv ?ob'"
  proof
    assume "book_inv ?ob'"
    then have "side_inv ?sd (orders ?ob') (ls1 @ (k, lv2) # ls2)" by (metis book_inv_def levels_of_set)
    then show False using \<open>\<not> level_inv (orders ?ob1) lv2\<close> by (simp add: side_inv_except_def level_ok_def)
  qed
  then show ?thesis using m by blast
qed

end
