(* ===== verification/Book_Queries.thy ===== *)
theory Book_Queries
  imports Book_Modify
begin

text \<open>
  What the queries of \<open>orderbook.h\<close> and \<open>price_level_v2.h\<close> tell of the queues: the best prices are
  those of the front orders, the order counts are the lengths, and the levels add up to the depth.
\<close>

section \<open>The order of a queue\<close>

lemma side_sorted:
  assumes "side_inv_except E sd h (ls1 @ ls)"
  shows "sorted_wrt (\<lambda>x y. \<not> side_lt sd (price_of h y) (price_of h x)) (side_ptrs ls)"
  using assms
proof (induction ls arbitrary: ls1)
  case Nil
  then show ?case by simp
next
  case (Cons x ls)
  obtain k lv where x: "x = (k, lv)" by (cases x)
  have ok: "\<And>y. y \<in> set (x # ls) \<Longrightarrow> level_ok E h y" and srt: "map_sorted (side_lt sd) (x # ls)"
    using Cons.prems by (auto simp: side_inv_except_def map_sorted_def sorted_wrt_append)
  have kn: "\<not> is_nan k" using ok [of x] x by (simp add: level_ok_def)
  have pk: "dbl_eq (price_of h p) k" if "p \<in> set (live lv)" for p
    using ok [of x] x that by (simp add: level_ok_def)
  have "\<not> side_lt sd (price_of h q) (price_of h p)" if "p \<in> set (live lv)" "q \<in> set (live lv)" for p q
    using pk [OF that(1)] pk [OF that(2)] equivalent_side_lt dbl_eq_simps by metis
  then have one: "sorted_wrt (\<lambda>x y. \<not> side_lt sd (price_of h y) (price_of h x)) (live lv)"
    by (simp add: sorted_wrt_iff_nth_less)
  have across: "\<not> side_lt sd (price_of h q) (price_of h p)"
    if p: "p \<in> set (live lv)" and q: "q \<in> set (side_ptrs ls)" for p q
  proof -
    obtain k' lv' where m: "(k', lv') \<in> set ls" "q \<in> set (live lv')" using q by (auto simp: side_ptrs_mem)
    have okm: "level_ok E h (k', lv')" using ok m(1) by simp
    then have n: "dbl_eq (price_of h q) k'" "\<not> is_nan k'" using m(2) by (auto simp: level_ok_def)
    have lt: "side_lt sd k k'" using srt m(1) x by (auto simp: map_sorted_def)
    have np: "\<not> is_nan (price_of h p)" "\<not> is_nan (price_of h q)"
      using pk [OF p] n(1) dbl_eq_simps(1) by blast+
    have "equivalent (side_lt sd) (price_of h p) k"
      using pk [OF p] np(1) kn equivalent_side_lt by blast
    then have "side_lt sd (price_of h p) k'" using side_map.lt_equiv_left np(1) kn n(2) lt by blast
    then have "side_lt sd (price_of h p) (price_of h q)" using lt_level_key [OF okm m(2) np(1)] by simp
    then show ?thesis using side_map.lt_asym np by blast
  qed
  have "side_inv_except E sd h ((ls1 @ [x]) @ ls)" using Cons.prems by simp
  from Cons.IH [OF this] show ?case using one across x by (simp add: sorted_wrt_append)
qed

lemma book_side: "book_inv ob \<Longrightarrow> side_inv sd (orders ob) (levels_of sd ob)"
  by (simp add: book_inv_def)

lemma queue_ids_distinct:
  assumes inv: "book_inv ob"
  shows "distinct (map rst_id (queue sd ob))"
proof -
  have oi: "orders_inv ob" using inv by (simp add: book_inv_def)
  have "inj_on (\<lambda>p. ord_id (the (orders ob p))) (set (side_ptrs (levels_of sd ob)))"
  proof (rule inj_onI)
    fix x y
    assume x: "x \<in> set (side_ptrs (levels_of sd ob))" and y: "y \<in> set (side_ptrs (levels_of sd ob))"
      and eq: "ord_id (the (orders ob x)) = ord_id (the (orders ob y))"
    obtain a where a: "orders ob x = Some a" using side_ptr_orders [OF inv x] by blast
    obtain b where b: "orders ob y = Some b" using side_ptr_orders [OF inv y] by blast
    have "ord_id a = ord_id b" using eq a b by simp
    then show "x = y" by (rule ids_unique [OF oi a b])
  qed
  then have "distinct (map (\<lambda>p. ord_id (the (orders ob p))) (side_ptrs (levels_of sd ob)))"
    using book_ptrs_distinct [OF inv] by (simp only: distinct_map simp_thms)
  then show ?thesis by (simp add: queue_def comp_def)
qed

section \<open>Counts and best prices\<close>

definition best_price :: "resting list \<Rightarrow> price \<Rightarrow> bool" where
  "best_price rs p \<longleftrightarrow> (case rs of [] \<Rightarrow> p = minus_one | r # _ \<Rightarrow> dbl_eq p (rst_price r))"

lemma side_best:
  assumes inv: "book_inv ob"
  shows "best_price (queue sd ob) (case levels_of sd ob of [] \<Rightarrow> minus_one | (p, _) # _ \<Rightarrow> p)"
proof (cases "levels_of sd ob")
  case Nil
  then show ?thesis by (simp add: best_price_def queue_def)
next
  case (Cons x ls)
  obtain k lv where x: "x = (k, lv)" by (cases x)
  have si: "side_inv sd (orders ob) ((k, lv) # ls)" using book_side [OF inv, of sd] Cons x by simp
  obtain p ps where p: "live lv = p # ps" "level_front lv = Inr p"
    "side_ptrs ((k, lv) # ls) = p # ps @ side_ptrs ls" by (rule front_of_head [OF si])
  have "dbl_eq (price_of (orders ob) p) k" using si p(1) by (simp add: side_inv_except_def level_ok_def)
  then show ?thesis using Cons x p(3) dbl_eq_simps(3) by (simp add: best_price_def queue_def)
qed

lemma levels_count:
  assumes "side_inv_except E sd h ls"
  shows "sum_list (map (\<lambda>(_, lv). level_size lv) ls) = length (side_ptrs ls)"
proof -
  have "level_size lv = length (live lv)" if "(k, lv) \<in> set ls" for k lv
    using assms that level_size_live [of h lv] by (force simp: side_inv_except_def level_ok_def)
  then have "map (\<lambda>(_, lv). level_size lv) ls = map (\<lambda>(_, lv). length (live lv)) ls" by auto
  then show ?thesis by (induction ls) (auto simp: side_ptrs_def split: prod.splits)
qed

text \<open>The quantity of a level, in 64 bits: it wraps around when the sum passes \<open>2 ^ 64\<close>.\<close>

lemma level_total:
  assumes ok: "level_ok E h (k, lv)" and st: "h \<subseteq>\<^sub>m st"
  shows "total_qty st lv = Inr (waiting h (live lv))"
proof -
  have inv: "level_inv h lv" using ok by (simp add: level_ok_def)
  have "st p = h p" if "p \<in> set (live lv)" for p
    using lv2.live_allocated [OF inv that] st by (auto simp: map_le_def dom_def)
  then have "waiting st (live lv) = waiting h (live lv)"
    unfolding waiting_def by (metis (mono_tags, lifting) map_cong)
  then show ?thesis using total_qty_live [OF level_inv_le [OF inv st]] by simp
qed

end
