(* ===== verification/Book_Trace.thy ===== *)
theory Book_Trace
  imports Book_Queries
begin

text \<open>
  A book over its life: the requests that a worker makes of it, one after the other, interleaved
  with what the rest of the program does to the shared id allocator and with time. \<open>admissible\<close>
  says which requests the code is prepared for; a reachable book answers every one of them without
  a fault and stays consistent. What the code does outside these bounds is in \<open>Book_Limits\<close>.
\<close>

section \<open>Requests\<close>

datatype request = Add order | Cancel order_id | Modify order_id price quantity

type_synonym state = "world \<times> orderbook"

definition perform :: "request \<Rightarrow> state \<Rightarrow> state result" where
  "perform r s =
     (case r of
        Add client \<Rightarrow> rbind (add_order client s) (\<lambda>(_, s'). Inr s')
      | Cancel i \<Rightarrow> rbind (cancel_order i s) (\<lambda>(_, s'). Inr s')
      | Modify i np nq \<Rightarrow> rbind (modify_order i np nq s) (\<lambda>(_, s'). Inr s'))"

text \<open>The order of an id, as the registry finds it.\<close>

definition order_of :: "orderbook \<Rightarrow> order_id \<Rightarrow> order option" where
  "order_of ob i = Option.bind (map_of (ob_order_registry ob) i) (store ob)"

text \<open>
  A new order needs a slot of the pool and an id, and no price may be NaN. A quantity may only be
  increased at an unchanged price when another order is queued at that price.
\<close>

definition admissible :: "request \<Rightarrow> state \<Rightarrow> bool" where
  "admissible r = (\<lambda>(w, ob).
     (case r of
        Add client \<Rightarrow> pool_room (ob_order_pool ob) \<and> ids_room w ob \<and> \<not> is_nan (ord_price client)
      | Cancel i \<Rightarrow> True
      | Modify i np nq \<Rightarrow> \<not> is_nan np \<and>
          (case order_of ob i of None \<Rightarrow> True | Some ord \<Rightarrow>
             dbl_eq (ord_price ord) np \<and> nq > ord_quantity ord \<longrightarrow>
               shares_level ord (queue (ord_side ord) ob))))"

definition state_inv :: "state \<Rightarrow> bool" where
  "state_inv = (\<lambda>(w, ob). book_inv ob \<and> ids_ok w ob)"

lemma order_of_Some:
  assumes "book_inv ob"
  shows "order_of ob i = Some ord \<longleftrightarrow> (\<exists>p. orders ob p = Some ord \<and> ord_id ord = i)"
proof
  assume "order_of ob i = Some ord"
  then obtain p where p: "map_of (ob_order_registry ob) i = Some p" "store ob p = Some ord"
    by (auto simp: order_of_def bind_eq_Some_conv)
  then obtain o1 where "orders ob p = Some o1" "ord_id o1 = i" by (metis cancel_known [OF assms])
  then show "\<exists>p. orders ob p = Some ord \<and> ord_id ord = i" using p(2) held_store by fastforce
next
  assume "\<exists>p. orders ob p = Some ord \<and> ord_id ord = i"
  then show "order_of ob i = Some ord"
    using assms registered [of ob i] held_store by (fastforce simp: order_of_def book_inv_def)
qed

section \<open>Every request is answered, and the invariant stays\<close>

lemma try_match_total:
  assumes inv: "book_inv ob"
  shows "\<exists>r w' ob'. try_match (w, ob) = Inr (r, w', ob') \<and> book_inv ob' \<and> wd_ids w' = wd_ids w \<and>
    (\<exists>ts. settles ts ob ob')"
proof (cases "ob_try_match_flag ob \<or> uncrossed ob")
  case True
  then show ?thesis using try_match_refines [OF inv] by blast
next
  case False
  then show ?thesis using inv settles_refl [of ob] by (auto simp: try_match_def intro: exI [of _ "[]"])
qed

lemma add_answered:
  assumes "book_inv ob" "ids_ok w ob" "admissible (Add client) (w, ob)"
  shows "\<exists>s'. perform (Add client) (w, ob) = Inr s' \<and> state_inv s'"
proof -
  have a: "pool_room (ob_order_pool ob)" "ids_room w ob" "\<not> is_nan (ord_price client)"
    using assms(3) by (simp_all add: admissible_def)
  obtain i p ord w1 ob1 where add: "add_order client (w, ob) =
      rbind (try_match (w1, ob1)) (\<lambda>(_, w2, ob2). Inr (i, w2, ob2))"
    and ob1: "book_inv ob1" "ids_ok w1 ob1"
    by (rule add_order_enters [OF assms(1) a(1) assms(2) a(2,3)])
  obtain r w' ob' ts where "try_match (w1, ob1) = Inr (r, w', ob')" "book_inv ob'"
      "wd_ids w' = wd_ids w1" "settles ts ob1 ob'"
    using try_match_total [OF ob1(1)] by blast
  then show ?thesis using add ob1(2) by (simp add: perform_def state_inv_def ids_ok_def settles_def keeps_def)
qed

lemma ids_ok_tick [simp]: "ids_ok (wtick w) ob = ids_ok w ob"
  by (simp add: ids_ok_def wtick_def)

lemma cancel_answered:
  assumes "book_inv ob" "ids_ok w ob"
  shows "\<exists>s'. perform (Cancel i) (w, ob) = Inr s' \<and> state_inv s'"
proof (cases "\<exists>p ord. orders ob p = Some ord \<and> ord_id ord = i \<and> active ord")
  case True
  then obtain p ord where p: "orders ob p = Some ord" "ord_id ord = i" "active ord" by blast
  show ?thesis using cancel_active [OF assms(1) p(1,3), of w] p(2) assms(2)
    by (auto simp: perform_def state_inv_def keeps_ids)
next
  case False
  then have "cancel_order i (w, ob) = Inr (False, w, ob)" using cancel_refused [OF assms(1)] by blast
  then show ?thesis using assms by (simp add: perform_def state_inv_def)
qed

lemma modify_answered:
  assumes "book_inv ob" "ids_ok w ob" "admissible (Modify i np nq) (w, ob)"
  shows "\<exists>s'. perform (Modify i np nq) (w, ob) = Inr s' \<and> state_inv s'"
proof (cases "\<exists>p ord. orders ob p = Some ord \<and> ord_id ord = i \<and> active ord \<and> validate_modify_order ord np nq")
  case True
  then obtain p ord where p: "orders ob p = Some ord" "ord_id ord = i" "active ord"
    and ok: "validate_modify_order ord np nq" by blast
  have ord: "order_of ob i = Some ord" using order_of_Some [OF assms(1)] p by blast
  have np: "\<not> is_nan np" using assms(3) by (simp add: admissible_def)
  have safe: "shares_level ord (queue (ord_side ord) ob)"
    if "dbl_eq (ord_price ord) np" "nq > ord_quantity ord"
    using assms(3) ord that by (simp add: admissible_def)
  consider (price) "\<not> dbl_eq (ord_price ord) np" | (up) "dbl_eq (ord_price ord) np" "nq > ord_quantity ord"
    | (down) "dbl_eq (ord_price ord) np" "nq \<le> ord_quantity ord" by fastforce
  then show ?thesis
  proof cases
    case price
    from modify_price [OF assms(1) p(1,3) np price ok, of w] show ?thesis
      using p(2) assms(2) by (auto simp: perform_def state_inv_def keeps_ids)
  next
    case up
    from modify_increase [OF assms(1) p(1,3) ok up safe [OF up], of w] show ?thesis
      using p(2) assms(2) by (auto simp: perform_def state_inv_def keeps_ids)
  next
    case down
    from modify_reduce [OF assms(1) p(1,3) ok down] show ?thesis
      using p(2) assms(2) by (auto simp: perform_def state_inv_def keeps_ids split: if_splits)
  qed
next
  case False
  then have "modify_order i np nq (w, ob) = Inr (False, w, ob)" using modify_refused [OF assms(1)] by blast
  then show ?thesis using assms by (simp add: perform_def state_inv_def)
qed

lemma admissible_answered:
  assumes "state_inv s" "admissible r s"
  shows "\<exists>s'. perform r s = Inr s' \<and> state_inv s'"
proof -
  obtain w ob where s: "s = (w, ob)" by (cases s)
  show ?thesis
    using assms add_answered cancel_answered modify_answered unfolding s
    by (cases r) (simp_all add: state_inv_def)
qed

section \<open>Reachable books\<close>

text \<open>
  A step is a request that the book answers, an id block drawn from the shared allocator by another
  book, or a reading of the clock by another part of the program. \<open>P\<close> restricts the requests.
\<close>

inductive reachable :: "(request \<Rightarrow> state \<Rightarrow> bool) \<Rightarrow> state \<Rightarrow> bool" for P where
  created: "new_orderbook_sized n instr space w = (ob, w') \<Longrightarrow> block_left (wd_ids w) \<Longrightarrow>
    0 < ida_block_size (wd_ids w) \<Longrightarrow> reachable P (w', ob)"
| request: "reachable P s \<Longrightarrow> P r s \<Longrightarrow> perform r s = Inr s' \<Longrightarrow> reachable P s'"
| other_block: "reachable P (w, ob) \<Longrightarrow> block_left (wd_ids w) \<Longrightarrow>
    reachable P (w\<lparr>wd_ids := snd (get_next_id_block (wd_ids w))\<rparr>, ob)"
| time_passes: "reachable P (w, ob) \<Longrightarrow> reachable P (w\<lparr>wd_clock := later n (wd_clock w)\<rparr>, ob)"

lemma other_block_ids:
  assumes "ids_ok w ob" "block_left (wd_ids w)"
  shows "ids_ok (w\<lparr>wd_ids := snd (get_next_id_block (wd_ids w))\<rparr>) ob"
proof -
  have "ida_global_counter (wd_ids w) \<le> ida_global_counter (wd_ids w) + ida_block_size (wd_ids w)"
    using assms(2) by (simp add: block_left_def)
  then show ?thesis using assms(1) by (auto simp: ids_ok_def)
qed

lemma reachable_state_inv:
  "reachable P s \<Longrightarrow> (\<And>r s. P r s \<Longrightarrow> admissible r s) \<Longrightarrow> state_inv s"
proof (induction rule: reachable.induct)
  case (created n instr space w ob w')
  then show ?case using new_orderbook_inv(1) new_orderbook_ids by (auto simp: state_inv_def)
next
  case (request s r s')
  then show ?case using admissible_answered [of s r] by auto
next
  case (other_block w ob)
  then show ?case using other_block_ids by (simp add: state_inv_def)
next
  case (time_passes w ob n)
  then show ?case by (simp add: state_inv_def ids_ok_def)
qed

section \<open>Sequences of requests\<close>

fun run :: "request list \<Rightarrow> state \<Rightarrow> state result" where
  "run [] s = Inr s"
| "run (r # rs) s = rbind (perform r s) (run rs)"

fun all_admissible :: "request list \<Rightarrow> state \<Rightarrow> bool" where
  "all_admissible [] s \<longleftrightarrow> True"
| "all_admissible (r # rs) s \<longleftrightarrow> admissible r s \<and>
     (case perform r s of Inl _ \<Rightarrow> False | Inr s' \<Rightarrow> all_admissible rs s')"

lemma run_state_inv:
  "state_inv s \<Longrightarrow> all_admissible rs s \<Longrightarrow> \<exists>s'. run rs s = Inr s' \<and> state_inv s'"
proof (induction rs arbitrary: s)
  case Nil
  then show ?case by simp
next
  case (Cons r rs)
  obtain s1 where s1: "perform r s = Inr s1" "state_inv s1"
    using admissible_answered Cons.prems by fastforce
  then show ?case using Cons.IH [of s1] Cons.prems(2) by simp
qed

section \<open>Books that stay uncrossed\<close>

text \<open>
  A price change can leave the book crossed (see \<open>Book_Limits\<close>). \<open>quiet\<close> requests are the
  admissible ones that change no price.
\<close>

definition quiet :: "request \<Rightarrow> state \<Rightarrow> bool" where
  "quiet r s \<longleftrightarrow> admissible r s \<and>
     (case r of Modify i np nq \<Rightarrow>
        (case order_of (snd s) i of None \<Rightarrow> True | Some ord \<Rightarrow> dbl_eq (ord_price ord) np)
      | _ \<Rightarrow> True)"

lemma uncrossed_keys:
  assumes "uncrossed ob" "\<And>sd. set (map fst (levels_of sd ob')) \<subseteq> set (map fst (levels_of sd ob))"
  shows "uncrossed ob'"
  using assms(1) assms(2) [of BUY] assms(2) [of SELL] unfolding uncrossed_def by (simp del: set_map) blast

lemma modify_quiet_uncrossed:
  assumes "book_inv ob" "quiet (Modify i np nq) (w, ob)" "uncrossed ob"
    "modify_order i np nq (w, ob) = Inr (b, w', ob')"
  shows "uncrossed ob'"
proof (cases "\<exists>p ord. orders ob p = Some ord \<and> ord_id ord = i \<and> active ord \<and> validate_modify_order ord np nq")
  case True
  then obtain p ord where p: "orders ob p = Some ord" "ord_id ord = i" "active ord"
    and ok: "validate_modify_order ord np nq" by blast
  have ord: "order_of ob i = Some ord" using order_of_Some [OF assms(1)] p by blast
  have eq: "dbl_eq (ord_price ord) np" using assms(2) ord by (simp add: quiet_def)
  show ?thesis
  proof (cases "nq > ord_quantity ord")
    case True
    have "shares_level ord (queue (ord_side ord) ob)"
      using assms(2) ord eq True by (simp add: quiet_def admissible_def)
    from modify_increase [OF assms(1) p(1,3) ok eq True this, of w]
    obtain ls where "ob' = set_levels (ord_side ord) ls (write_order p (set_quantity nq ord) ob)"
        "map fst ls = map fst (levels_of (ord_side ord) ob)"
      using assms(4) p(2) by auto
    then show ?thesis using assms(3) by (intro uncrossed_keys [OF assms(3)]) (metis levels_of_set order_refl write_order_frame(1))
  next
    case False
    then have "ob' = (if ord_quantity ord = nq then ob else write_order p (set_quantity nq ord) ob)"
      using modify_reduce [OF assms(1) p(1,3) ok eq] assms(4) p(2) by (auto simp: not_less)
    then show ?thesis using assms(3) by (simp add: uncrossed_def)
  qed
next
  case False
  then show ?thesis using modify_refused [OF assms(1), of i np nq w] assms(3,4) by auto
qed

lemma quiet_uncrossed:
  assumes inv: "state_inv s" and unc: "uncrossed (snd s)" and q: "quiet r s" and p: "perform r s = Inr s'"
  shows "uncrossed (snd s')"
proof -
  obtain w ob where s: "s = (w, ob)" by (cases s)
  have b: "book_inv ob" "ids_ok w ob" "uncrossed ob" using inv unc s by (simp_all add: state_inv_def)
  show ?thesis
  proof (cases r)
    case (Add client)
    then have a: "pool_room (ob_order_pool ob)" "ids_room w ob" "\<not> is_nan (ord_price client)"
      using q s by (simp_all add: quiet_def admissible_def)
    obtain i w' ob' where "add_order client (w, ob) = Inr (i, w', ob')" "uncrossed ob'"
      by (rule add_order_core [OF b(1,3) a(1) b(2) a(2,3)]) blast
    then show ?thesis using p s Add by (auto simp: perform_def)
  next
    case (Cancel i)
    show ?thesis
    proof (cases "\<exists>q ord. orders ob q = Some ord \<and> ord_id ord = i \<and> active ord")
      case True
      then obtain q ord where q': "orders ob q = Some ord" "ord_id ord = i" "active ord" by blast
      show ?thesis using cancel_active [OF b(1) q'(1,3), of w] q'(2) p s Cancel b(3)
        by (auto simp: perform_def)
    next
      case False
      then have "cancel_order i (w, ob) = Inr (False, w, ob)" using cancel_refused [OF b(1)] by blast
      then show ?thesis using p s Cancel b(3) by (auto simp: perform_def)
    qed
  next
    case (Modify i np nq)
    obtain c w' ob' where "modify_order i np nq (w, ob) = Inr (c, w', ob')" "s' = (w', ob')"
      using p s Modify by (auto simp: perform_def rbind_eq_Inr)
    then show ?thesis using modify_quiet_uncrossed [OF b(1) _ b(3)] q s Modify by auto
  qed
qed

lemma reachable_quiet:
  "reachable quiet s \<Longrightarrow> state_inv s \<and> uncrossed (snd s)"
proof (induction rule: reachable.induct)
  case (created n instr space w ob w')
  then show ?case using new_orderbook_inv(1,2) new_orderbook_ids by (auto simp: state_inv_def)
next
  case (request s r s')
  have "admissible r s" using request by (simp add: quiet_def)
  then show ?case using admissible_answered [of s r] quiet_uncrossed [of s r s'] request by auto
next
  case (other_block w ob)
  then show ?case using other_block_ids by (simp add: state_inv_def)
next
  case (time_passes w ob n)
  then show ?case by (simp add: state_inv_def ids_ok_def)
qed

end
