(* ===== verification/Book_Example.thy ===== *)
theory Book_Example
  imports Book_Trace
begin

text \<open>
  Small concrete books, at which the theorems are applied: a pool of four orders, three prices, a
  clock that stands still, and the default id allocator.
\<close>

definition d99 :: price where "d99 = Double 0x4058C00000000000"

definition d100 :: price where "d100 = Double 0x4059000000000000"

definition d101 :: price where "d101 = Double 0x4059400000000000"

definition dNaN :: price where "dNaN = Double 0x7FF8000000000000"

definition ex_world :: world where
  "ex_world = \<lparr>wd_clock = \<lparr>clk_reading = (\<lambda>_. 0), clk_ticks = 0\<rparr>, wd_ids = default_id_allocator\<rparr>"

definition ex_empty :: state where
  "ex_empty = (case new_orderbook_sized 4 ''SPY'' 10 ex_world of (ob, w) \<Rightarrow> (w, ob))"

definition ex_order :: "order_side \<Rightarrow> price \<Rightarrow> quantity \<Rightarrow> order" where
  "ex_order sd p q = client_order 0 ''SPY'' sd p q"

text \<open>The state after a list of requests.\<close>

definition ex_after :: "request list \<Rightarrow> state" where
  "ex_after rs = (case run rs ex_empty of Inl _ \<Rightarrow> ex_empty | Inr s \<Rightarrow> s)"

lemma ex_empty_inv: "state_inv ex_empty"
proof -
  obtain ob w where b: "new_orderbook_sized 4 ''SPY'' 10 ex_world = (ob, w)" by fastforce
  have "block_left (wd_ids ex_world)" "0 < ida_block_size (wd_ids ex_world)" by code_simp+
  then show ?thesis using new_orderbook_inv(1) [OF b] new_orderbook_ids [OF b] b
    by (simp add: ex_empty_def state_inv_def)
qed

lemma ex_after_inv: "all_admissible rs ex_empty \<Longrightarrow> state_inv (ex_after rs)"
  using run_state_inv [OF ex_empty_inv] by (fastforce simp: ex_after_def)

lemma ex_after_book:
  "all_admissible rs ex_empty \<Longrightarrow> ex_after rs = (w, ob) \<Longrightarrow> book_inv ob \<and> ids_ok w ob"
  using ex_after_inv [of rs] by (simp add: state_inv_def)

text \<open>One bid at 99 and one ask at 101; and two bids at 99.\<close>

definition ex_two_sided :: "request list" where
  "ex_two_sided = [Add (ex_order BUY d99 100), Add (ex_order SELL d101 50)]"

definition ex_two_bids :: "request list" where
  "ex_two_bids = [Add (ex_order BUY d99 100), Add (ex_order BUY d99 50)]"

lemma ex_two_sided_ok: "all_admissible ex_two_sided ex_empty"
  by code_simp

lemma ex_two_bids_ok: "all_admissible ex_two_bids ex_empty"
  by code_simp

lemma ex_two_sided_queues:
  "queue BUY (snd (ex_after ex_two_sided)) = [\<lparr>rst_id = 1, rst_price = d99, rst_qty = 100\<rparr>]"
  "queue SELL (snd (ex_after ex_two_sided)) = [\<lparr>rst_id = 2, rst_price = d101, rst_qty = 50\<rparr>]"
  by code_simp+

text \<open>These states are reachable.\<close>

fun all_requests :: "(request \<Rightarrow> state \<Rightarrow> bool) \<Rightarrow> request list \<Rightarrow> state \<Rightarrow> bool" where
  "all_requests P [] s \<longleftrightarrow> True"
| "all_requests P (r # rs) s \<longleftrightarrow> P r s \<and>
     (case perform r s of Inl _ \<Rightarrow> False | Inr s' \<Rightarrow> all_requests P rs s')"

lemma run_reachable:
  "reachable P s \<Longrightarrow> all_requests P rs s \<Longrightarrow> \<exists>s'. run rs s = Inr s' \<and> reachable P s'"
proof (induction rs arbitrary: s)
  case Nil
  then show ?case by simp
next
  case (Cons r rs)
  then obtain s1 where s1: "perform r s = Inr s1" "all_requests P rs s1" "P r s"
    by (auto split: sum.splits)
  then have "reachable P s1" using Cons.prems(1) reachable.request by blast
  then show ?case using Cons.IH [OF _ s1(2)] s1(1) by simp
qed

lemma ex_after_reachable:
  assumes "all_requests P rs ex_empty"
  shows "reachable P (ex_after rs)"
proof -
  obtain ob w where b: "new_orderbook_sized 4 ''SPY'' 10 ex_world = (ob, w)" by fastforce
  have "block_left (wd_ids ex_world)" "0 < ida_block_size (wd_ids ex_world)" by code_simp+
  then have "reachable P (w, ob)" by (rule reachable.created [OF b])
  then have "reachable P ex_empty" using b by (simp add: ex_empty_def)
  from run_reachable [OF this assms] show ?thesis by (auto simp: ex_after_def)
qed

lemma ex_two_sided_quiet: "all_requests quiet ex_two_sided ex_empty"
  by code_simp

lemma ex_two_bids_admissible: "all_requests admissible ex_two_bids ex_empty"
  by code_simp

end
