(* ===== verification/Book_Properties.thy ===== *)
theory Book_Properties
  imports Book_Example
begin

text \<open>
  The properties of the order book: refinement of \<open>Book_Spec\<close> by \<open>add_order\<close>, \<open>cancel_order\<close> and
  \<open>modify_order\<close>, the accounting of quantities, and what holds of every book that can be reached.
  Each follows from the lemmas of the theories before; a witness applies it to a small book.
\<close>

section \<open>Adding\<close>

text \<open>
  C1: \<open>add_order\<close> refines the specification: it returns, and the queues of both sides afterwards are
  what the specification makes of the queues before; it counts the trades of the specification, and
  draws an id that no order of the book has.
\<close>

theorem add_order_refines:
  assumes "book_inv ob" "uncrossed ob" "pool_room (ob_order_pool ob)" "ids_ok w ob" "ids_room w ob"
    "\<not> is_nan (ord_price client)"
  shows "\<exists>i w' ob' ts. add_order client (w, ob) = Inr (i, w', ob') \<and>
    spec_add (ord_side client) (new_resting client i) (queue BUY ob) (queue SELL ob) =
      (ts, queue BUY ob', queue SELL ob') \<and>
    ob_trades_completed ob' = ob_trades_completed ob + of_nat (length ts) \<and>
    order_of ob i = None \<and> book_inv ob' \<and> uncrossed ob'"
proof -
  obtain i p ord w' ob1 ob' ts where add: "add_order client (w, ob) = Inr (i, w', ob')"
      "spec_add (ord_side client) (new_resting client i) (queue BUY ob) (queue SELL ob) =
        (ts, queue BUY ob', queue SELL ob')"
    and ent: "entered ord i p ob ob1" and st: "settles ts ob1 ob'" and inv: "book_inv ob'" "uncrossed ob'"
    by (rule add_order_core [OF assms]) blast
  have "ord_id x < i" if "orders ob q = Some x" for q x
  proof -
    have "ord_id x < ob_next_available_order_id ob" using assms(1) that by (auto simp: book_inv_def orders_inv_def)
    then show ?thesis using ent by (auto simp: entered_def)
  qed
  then have "order_of ob i = None"
    using order_of_Some [OF assms(1), of i] by (metis not_None_eq order.irrefl)
  then show ?thesis using add inv ent st by (auto simp: settles_def entered_def)
qed

theorem add_order_refines_witness:
  "\<exists>i w' ob' ts. add_order (ex_order SELL d99 120) (ex_after ex_two_sided) = Inr (i, w', ob') \<and>
     spec_add SELL (new_resting (ex_order SELL d99 120) i)
       [\<lparr>rst_id = 1, rst_price = d99, rst_qty = 100\<rparr>] [\<lparr>rst_id = 2, rst_price = d101, rst_qty = 50\<rparr>] =
       (ts, queue BUY ob', queue SELL ob') \<and> uncrossed ob'"
proof -
  obtain w ob where s: "ex_after ex_two_sided = (w, ob)" by fastforce
  have "uncrossed (snd (ex_after ex_two_sided))" "pool_room (ob_order_pool (snd (ex_after ex_two_sided)))"
    "ids_room (fst (ex_after ex_two_sided)) (snd (ex_after ex_two_sided))"
    by code_simp+
  moreover have "\<not> is_nan (ord_price (ex_order SELL d99 120))" "ord_side (ex_order SELL d99 120) = SELL"
    by code_simp+
  ultimately show ?thesis
    using add_order_refines [of ob w "ex_order SELL d99 120"] ex_after_book [OF ex_two_sided_ok s]
      ex_two_sided_queues s by auto
qed

text \<open>
  C9: the accounting of \<open>add_order\<close>: every order of the book, the new one included, keeps its terms
  and its filled quantity grows by exactly what the trades of the specification fill of it; each
  side's depth falls by exactly the traded volume.
\<close>

theorem add_order_settles:
  assumes "book_inv ob" "uncrossed ob" "pool_room (ob_order_pool ob)" "ids_ok w ob" "ids_room w ob"
    "\<not> is_nan (ord_price client)"
  shows "\<exists>i w' ob' ts ord. add_order client (w, ob) = Inr (i, w', ob') \<and>
    (\<exists>ord'. order_of ob' i = Some ord' \<and> accepted ord client i \<and> settled ts ord ord') \<and>
    (\<forall>j old. order_of ob j = Some old \<longrightarrow> (\<exists>new. order_of ob' j = Some new \<and> settled ts old new)) \<and>
    ts = fst (spec_add (ord_side client) (new_resting client i) (queue BUY ob) (queue SELL ob)) \<and>
    depth (queue BUY ob) + (if ord_side client = BUY then unat (ord_quantity client) else 0) =
      depth (queue BUY ob') + volume ts \<and>
    depth (queue SELL ob) + (if ord_side client = SELL then unat (ord_quantity client) else 0) =
      depth (queue SELL ob') + volume ts"
proof -
  obtain i p ord w' ob1 ob' ts where add: "add_order client (w, ob) = Inr (i, w', ob')"
      "spec_add (ord_side client) (new_resting client i) (queue BUY ob) (queue SELL ob) =
        (ts, queue BUY ob', queue SELL ob')"
    and ent: "entered ord i p ob ob1" "accepted ord client i" and st: "settles ts ob1 ob'"
    and inv: "book_inv ob'"
    by (rule add_order_core [OF assms]) blast
  have o1: "orders ob1 = (orders ob)(p \<mapsto> ord)" "orders ob p = None" using ent(1) by (simp_all add: entered_def)
  have after: "\<exists>new. order_of ob' (ord_id old) = Some new \<and> settled ts old new"
    if "orders ob1 q = Some old" for q old
  proof -
    obtain new where n: "orders ob' q = Some new" "settled ts old new" using settles_order [OF st \<open>orders ob1 q = Some old\<close>] by blast
    moreover have "ord_id new = ord_id old" using n(2) by (simp add: settled_def)
    ultimately show ?thesis using order_of_Some [OF inv] by blast
  qed
  have "\<exists>ord'. order_of ob' i = Some ord' \<and> accepted ord client i \<and> settled ts ord ord'"
    using after [of p ord] o1 ent(2) by (auto simp: accepted_def)
  moreover have "\<exists>new. order_of ob' j = Some new \<and> settled ts old new" if old: "order_of ob j = Some old" for j old
  proof -
    obtain q where "orders ob q = Some old" "ord_id old = j" using order_of_Some [OF assms(1), of j old] old by auto
    then have "orders ob1 q = Some old" using o1 by (metis fun_upd_other option.distinct(1))
    from after [OF this] show ?thesis using \<open>ord_id old = j\<close> by simp
  qed
  moreover have "depth (queue BUY ob) + (if ord_side client = BUY then unat (ord_quantity client) else 0) =
      depth (queue BUY ob') + volume ts"
    "depth (queue SELL ob) + (if ord_side client = SELL then unat (ord_quantity client) else 0) =
      depth (queue SELL ob') + volume ts"
    using spec_add_conserves [OF add(2)] by (cases "ord_side client"; simp add: new_resting_def)+
  moreover have "ts = fst (spec_add (ord_side client) (new_resting client i) (queue BUY ob) (queue SELL ob))"
    using add(2) by simp
  ultimately show ?thesis using add(1) by blast
qed

theorem add_order_settles_witness:
  "\<exists>i w' ob' ts ord. add_order (ex_order SELL d99 120) (ex_after ex_two_sided) = Inr (i, w', ob') \<and>
    (\<exists>ord'. order_of ob' i = Some ord' \<and> settled ts ord ord') \<and>
    100 = depth (queue BUY ob') + volume ts \<and> 170 = depth (queue SELL ob') + volume ts"
proof -
  obtain w ob where s: "ex_after ex_two_sided = (w, ob)" by fastforce
  have "uncrossed (snd (ex_after ex_two_sided))" "pool_room (ob_order_pool (snd (ex_after ex_two_sided)))"
    "ids_room (fst (ex_after ex_two_sided)) (snd (ex_after ex_two_sided))"
    by code_simp+
  moreover have "\<not> is_nan (ord_price (ex_order SELL d99 120))" "ord_side (ex_order SELL d99 120) = SELL"
    "unat (ord_quantity (ex_order SELL d99 120)) = 120"
    by code_simp+
  moreover have "depth (queue BUY ob) = 100" "depth (queue SELL ob) = 50"
    using ex_two_sided_queues s by (simp_all add: depth_def)
  ultimately show ?thesis
    using add_order_settles [of ob w "ex_order SELL d99 120"] ex_after_book [OF ex_two_sided_ok s] s
    by fastforce
qed

section \<open>Matching\<close>

text \<open>
  C10: the matching loop ends. On a consistent book, crossed or not, it returns, after at most as many
  trades as orders rest in the book, with nothing left to trade.
\<close>

theorem matching_loop_ends:
  assumes "book_inv ob"
  shows "\<exists>w' ob' n. try_match_loop m (w, ob) = Some (Inr (m \<or> n > 0, w', ob')) \<and>
    ob_trades_completed ob' = ob_trades_completed ob + of_nat n \<and>
    n + length (queue BUY ob') + length (queue SELL ob') \<le> length (queue BUY ob) + length (queue SELL ob) \<and>
    book_inv ob' \<and> uncrossed ob'"
proof -
  obtain w' ob' ts where "try_match_loop m (w, ob) = Some (Inr (m \<or> ts \<noteq> [], w', ob'))"
      "spec_match (queue BUY ob) (queue SELL ob) = (ts, queue BUY ob', queue SELL ob')"
      "book_inv ob'" "uncrossed ob'" "settles ts ob ob'"
    using loop_refines [OF refl refl assms, of m w] by blast
  then show ?thesis using spec_match_length
    by (intro exI [of _ w'] exI [of _ ob'] exI [of _ "length ts"]) (simp add: settles_def)
qed

theorem matching_loop_ends_witness:
  "\<exists>w' ob' n. try_match_loop False (ex_after ex_two_sided) = Some (Inr (n > 0, w', ob')) \<and>
     n + length (queue BUY ob') + length (queue SELL ob') \<le> 2 \<and> uncrossed ob'"
proof -
  obtain w ob where s: "ex_after ex_two_sided = (w, ob)" by fastforce
  then show ?thesis
    using matching_loop_ends [of ob False w] ex_after_book [OF ex_two_sided_ok s] ex_two_sided_queues
    by fastforce
qed

section \<open>Cancelling\<close>

lemma order_of_upd:
  assumes "book_inv ob" "book_inv ob'" "orders ob p = Some old" "orders ob' = (orders ob)(p \<mapsto> new)"
    "ord_id new = ord_id old"
  shows "order_of ob' j = (if j = ord_id old then Some new else order_of ob j)"
proof (cases "j = ord_id old")
  case True
  then show ?thesis using order_of_Some [OF assms(2), of j new] assms by auto
next
  case False
  have "order_of ob' j = Some x \<longleftrightarrow> order_of ob j = Some x" for x
    using False assms order_of_Some [OF assms(1), of j x] order_of_Some [OF assms(2), of j x]
    by (metis fun_upd_apply option.inject)
  then show ?thesis using False by (metis not_None_eq)
qed

lemma queue_member:
  assumes "book_inv ob"
  shows "r \<in> set (queue sd ob) \<longleftrightarrow>
    (\<exists>ord. order_of ob (rst_id r) = Some ord \<and> active ord \<and> ord_side ord = sd \<and> r = view ord)"
proof
  assume "r \<in> set (queue sd ob)"
  then obtain p where p: "p \<in> set (side_ptrs (levels_of sd ob))" "r = view (the (orders ob p))"
    by (auto simp: queue_def)
  obtain ord where "orders ob p = Some ord" "active ord" "ord_side ord = sd"
    using side_ptr_orders [OF assms p(1)] by blast
  then show "\<exists>ord. order_of ob (rst_id r) = Some ord \<and> active ord \<and> ord_side ord = sd \<and> r = view ord"
    using order_of_Some [OF assms] p(2) by auto
next
  assume "\<exists>ord. order_of ob (rst_id r) = Some ord \<and> active ord \<and> ord_side ord = sd \<and> r = view ord"
  then obtain ord p where "orders ob p = Some ord" "active ord" "ord_side ord = sd" "r = view ord"
    using order_of_Some [OF assms] by blast
  then show "r \<in> set (queue sd ob)" using book_ptrs [OF assms] by (force simp: queue_def)
qed

lemma spec_remove_absent: "(\<And>r. r \<in> set rs \<Longrightarrow> rst_id r \<noteq> i) \<Longrightarrow> spec_remove i rs = rs"
  by (simp add: spec_remove_def)

text \<open>
  C11: \<open>cancel_order\<close> on every branch: it returns true exactly for the id of an active order, takes
  that order, and nothing else, off the queues, and marks it cancelled; otherwise it returns false
  and leaves the book as it was. It never throws or faults, and never crosses the book.
\<close>

theorem cancel_order_spec:
  assumes "book_inv ob"
  shows "\<exists>b w' ob'. cancel_order i (w, ob) = Inr (b, w', ob') \<and> book_inv ob' \<and>
    (b \<longleftrightarrow> (\<exists>ord. order_of ob i = Some ord \<and> active ord)) \<and>
    (\<not> b \<longrightarrow> ob' = ob) \<and>
    (b \<longrightarrow> order_of ob' i = map_option (\<lambda>ord. snd (cancel (wnow w) ord)) (order_of ob i)) \<and>
    (\<forall>j. j \<noteq> i \<longrightarrow> order_of ob' j = order_of ob j) \<and>
    (b \<longrightarrow> (\<forall>sd. queue sd ob' = spec_remove i (queue sd ob))) \<and>
    (uncrossed ob \<longrightarrow> uncrossed ob')"
proof (cases "\<exists>p ord. orders ob p = Some ord \<and> ord_id ord = i \<and> active ord")
  case True
  then obtain p ord where p: "orders ob p = Some ord" "ord_id ord = i" "active ord" by blast
  obtain ob' where c: "cancel_order i (w, ob) = Inr (True, wtick w, ob')" "book_inv ob'"
      "orders ob' = (orders ob)(p \<mapsto> snd (cancel (wnow w) ord))"
      "queue (ord_side ord) ob' = spec_remove i (queue (ord_side ord) ob)"
      "\<And>sd. sd \<noteq> ord_side ord \<Longrightarrow> queue sd ob' = queue sd ob" "uncrossed ob \<longrightarrow> uncrossed ob'"
    using cancel_active [OF assms p(1,3), of w] p(2) by blast
  have i: "order_of ob i = Some ord" using order_of_Some [OF assms] p by blast
  have "queue sd ob' = spec_remove i (queue sd ob)" for sd
  proof (cases "sd = ord_side ord")
    case False
    have "rst_id r \<noteq> i" if "r \<in> set (queue sd ob)" for r
      using that queue_member [OF assms, of r sd] i False by auto
    then show ?thesis using c(5) [OF False] spec_remove_absent by metis
  qed (use c(4) in simp)
  moreover have "order_of ob' j = (if j = i then Some (snd (cancel (wnow w) ord)) else order_of ob j)" for j
    using order_of_upd [OF assms c(2) p(1) c(3)] p(2) by simp
  ultimately show ?thesis using c(1,2,6) i p(3)
    by (intro exI [of _ True] exI [of _ "wtick w"] exI [of _ ob']) simp
next
  case False
  then have "cancel_order i (w, ob) = Inr (False, w, ob)" using cancel_refused [OF assms] by blast
  then show ?thesis using False assms order_of_Some [OF assms]
    by (intro exI [of _ False] exI [of _ w] exI [of _ ob]) auto
qed

theorem cancel_order_spec_witness:
  "\<exists>w' ob'. cancel_order 1 (ex_after ex_two_bids) = Inr (True, w', ob') \<and>
     queue BUY ob' = [\<lparr>rst_id = 2, rst_price = d99, rst_qty = 50\<rparr>]"
proof -
  obtain w ob where s: "ex_after ex_two_bids = (w, ob)" by fastforce
  have "(case order_of (snd (ex_after ex_two_bids)) 1 of None \<Rightarrow> False | Some ord \<Rightarrow> active ord)"
    "spec_remove 1 (queue BUY (snd (ex_after ex_two_bids))) = [\<lparr>rst_id = 2, rst_price = d99, rst_qty = 50\<rparr>]"
    by code_simp+
  then show ?thesis
    using cancel_order_spec [of ob 1 w] ex_after_book [OF ex_two_bids_ok s] s
    by (auto split: option.splits)
qed

section \<open>Modifying\<close>

text \<open>
  C12: \<open>modify_order\<close> to a new price: the order leaves its place and enters its side anew at the new
  price, with the new quantity and what it had filled; every other order stays, and nothing trades.
\<close>

theorem modify_order_new_price:
  assumes "book_inv ob" "order_of ob i = Some ord" "active ord" "validate_modify_order ord np nq"
    "\<not> is_nan np" "\<not> dbl_eq (ord_price ord) np"
  shows "\<exists>ob'. modify_order i np nq (w, ob) = Inr (True, wtick w, ob') \<and> book_inv ob' \<and>
    (\<forall>j. order_of ob' j = (if j = i then Some (modified (wnow w) np nq ord) else order_of ob j)) \<and>
    queue (ord_side ord) ob' =
      spec_enter (ord_side ord) (view (modified (wnow w) np nq ord)) (spec_remove i (queue (ord_side ord) ob)) \<and>
    (\<forall>sd. sd \<noteq> ord_side ord \<longrightarrow> queue sd ob' = queue sd ob) \<and>
    ob_trades_completed ob' = ob_trades_completed ob"
proof -
  obtain p where p: "orders ob p = Some ord" "ord_id ord = i"
    using order_of_Some [OF assms(1), of i ord] assms(2) by blast
  obtain ob' where m: "modify_order i np nq (w, ob) = Inr (True, wtick w, ob')" "book_inv ob'"
      "orders ob' = (orders ob)(p \<mapsto> modified (wnow w) np nq ord)"
      "queue (ord_side ord) ob' =
        spec_enter (ord_side ord) (view (modified (wnow w) np nq ord)) (spec_remove i (queue (ord_side ord) ob))"
      "\<And>sd. sd \<noteq> ord_side ord \<Longrightarrow> queue sd ob' = queue sd ob"
      "ob_trades_completed ob' = ob_trades_completed ob"
    using modify_price [OF assms(1) p(1) assms(3,5,6,4), of w] p(2) by blast
  show ?thesis using m order_of_upd [OF assms(1) m(2) p(1) m(3)] p(2) by (intro exI [of _ ob']) simp
qed

theorem modify_order_new_price_witness:
  "\<exists>ob'. modify_order 1 d100 70 (ex_after ex_two_bids) = Inr (True, wtick (fst (ex_after ex_two_bids)), ob') \<and>
     map rst_id (queue BUY ob') = [1, 2]"
proof -
  obtain w ob where s: "ex_after ex_two_bids = (w, ob)" by fastforce
  let ?ord = "the (order_of (snd (ex_after ex_two_bids)) 1)"
  have "case order_of (snd (ex_after ex_two_bids)) 1 of None \<Rightarrow> False | Some ord \<Rightarrow>
      active ord \<and> validate_modify_order ord d100 70 \<and> \<not> dbl_eq (ord_price ord) d100 \<and> ord_side ord = BUY \<and>
      map rst_id (spec_enter BUY (view (modified (wnow (fst (ex_after ex_two_bids))) d100 70 ord))
        (spec_remove 1 (queue BUY (snd (ex_after ex_two_bids))))) = [1, 2]"
    by code_simp
  then obtain ord where ord: "order_of ob 1 = Some ord" "active ord" "validate_modify_order ord d100 70"
      "\<not> dbl_eq (ord_price ord) d100" "ord_side ord = BUY"
      "map rst_id (spec_enter BUY (view (modified (wnow w) d100 70 ord)) (spec_remove 1 (queue BUY ob))) = [1, 2]"
    using s by (auto split: option.splits)
  have "\<not> is_nan d100" by code_simp
  then show ?thesis
    using modify_order_new_price [of ob 1 ord d100 70 w] ex_after_book [OF ex_two_bids_ok s] ord s by auto
qed

text \<open>
  C13: \<open>modify_order\<close> at an unchanged price: a smaller quantity leaves the order in its place; a larger
  one sends it behind the other orders of its price, when there is one.
\<close>

theorem modify_order_same_price:
  assumes "book_inv ob" "order_of ob i = Some ord" "active ord" "validate_modify_order ord np nq"
    "dbl_eq (ord_price ord) np"
    "nq > ord_quantity ord \<Longrightarrow> shares_level ord (queue (ord_side ord) ob)"
  shows "\<exists>ob'. modify_order i np nq (w, ob) = Inr (ord_quantity ord \<noteq> nq, w, ob') \<and> book_inv ob' \<and>
    (\<forall>j. order_of ob' j = (if j = i then Some (set_quantity nq ord) else order_of ob j)) \<and>
    queue (ord_side ord) ob' =
      (if nq \<le> ord_quantity ord
       then spec_resize i (unat (nq - ord_quantity_filled ord)) (queue (ord_side ord) ob)
       else spec_enter (ord_side ord) (view (set_quantity nq ord)) (spec_remove i (queue (ord_side ord) ob))) \<and>
    (\<forall>sd. sd \<noteq> ord_side ord \<longrightarrow> queue sd ob' = queue sd ob)"
proof -
  obtain p where p: "orders ob p = Some ord" "ord_id ord = i"
    using order_of_Some [OF assms(1), of i ord] assms(2) by blast
  show ?thesis
  proof (cases "nq \<le> ord_quantity ord")
    case True
    let ?ob1 = "write_order p (set_quantity nq ord) ob"
    let ?ob' = "if ord_quantity ord = nq then ob else ?ob1"
    note red = modify_reduce [OF assms(1) p(1) assms(3-5) True]
    have same: "set_quantity nq ord = ord" if "ord_quantity ord = nq" using that by (simp add: set_quantity_def)
    have o': "orders ?ob' = (orders ob)(p \<mapsto> set_quantity nq ord)"
      using orders_write [OF p(1)] same p(1) by auto
    have "queue sd ?ob' = queue sd ?ob1" for sd using o' orders_write [OF p(1)] by (simp add: queue_def)
    then show ?thesis
      using red p(2) True queue_resized [OF assms(1) p(1) assms(3)] order_of_upd [OF assms(1) red(2) p(1) o']
      by (intro exI [of _ ?ob']) simp
  next
    case False
    then have gt: "nq > ord_quantity ord" by simp
    obtain ob' where m: "modify_order i np nq (w, ob) = Inr (True, w, ob')" "book_inv ob'"
        "orders ob' = (orders ob)(p \<mapsto> set_quantity nq ord)"
        "queue (ord_side ord) ob' =
          spec_enter (ord_side ord) (view (set_quantity nq ord)) (spec_remove i (queue (ord_side ord) ob))"
        "\<And>sd. sd \<noteq> ord_side ord \<Longrightarrow> queue sd ob' = queue sd ob"
      using modify_increase [OF assms(1) p(1) assms(3-5) gt assms(6) [OF gt], of w] p(2) by blast
    then show ?thesis
      using order_of_upd [OF assms(1) m(2) p(1) m(3)] p(2) gt by (intro exI [of _ ob']) auto
  qed
qed

theorem modify_order_same_price_witness:
  "\<exists>ob'. modify_order 1 d99 170 (ex_after ex_two_bids) = Inr (True, fst (ex_after ex_two_bids), ob') \<and>
     map rst_id (queue BUY ob') = [2, 1]"
proof -
  obtain w ob where s: "ex_after ex_two_bids = (w, ob)" by fastforce
  have "case order_of (snd (ex_after ex_two_bids)) 1 of None \<Rightarrow> False | Some ord \<Rightarrow>
      active ord \<and> validate_modify_order ord d99 170 \<and> dbl_eq (ord_price ord) d99 \<and> ord_side ord = BUY \<and>
      ord_quantity ord = 100 \<and> shares_level ord (queue BUY (snd (ex_after ex_two_bids))) \<and>
      map rst_id (spec_enter BUY (view (set_quantity 170 ord))
        (spec_remove 1 (queue BUY (snd (ex_after ex_two_bids))))) = [2, 1]"
    by code_simp
  then obtain ord where "order_of ob 1 = Some ord" "active ord" "validate_modify_order ord d99 170"
      "dbl_eq (ord_price ord) d99" "ord_side ord = BUY" "ord_quantity ord = 100"
      "shares_level ord (queue BUY ob)"
      "map rst_id (spec_enter BUY (view (set_quantity 170 ord)) (spec_remove 1 (queue BUY ob))) = [2, 1]"
    using s by (auto split: option.splits)
  then show ?thesis
    using modify_order_same_price [of ob 1 ord d99 170 w] ex_after_book [OF ex_two_bids_ok s] s by auto
qed

text \<open>
  C14: what \<open>modify_order\<close> refuses: an unknown id, an order that is filled or cancelled, a price that
  is not above zero, a quantity that is not above what is filled. It returns false, and nothing at all
  has changed.
\<close>

theorem modify_order_refusal:
  assumes "book_inv ob"
    "\<And>ord. order_of ob i = Some ord \<Longrightarrow> \<not> active ord \<or> np \<le> 0 \<or> nq \<le> ord_quantity_filled ord"
  shows "modify_order i np nq (w, ob) = Inr (False, w, ob)"
proof (rule modify_refused [OF assms(1)])
  show "\<not> active ord \<or> \<not> validate_modify_order ord np nq" if "orders ob p = Some ord" "ord_id ord = i" for p ord
    using assms(2) [of ord] order_of_Some [OF assms(1), of i ord] that by (auto simp: validate_modify_order_def)
qed

theorem modify_order_refusal_witness:
  "modify_order 1 d99 0 (ex_after ex_two_bids) = Inr (False, ex_after ex_two_bids) \<and>
   modify_order 7 d99 10 (ex_after ex_two_bids) = Inr (False, ex_after ex_two_bids)"
proof -
  obtain w ob where s: "ex_after ex_two_bids = (w, ob)" by fastforce
  have "order_of (snd (ex_after ex_two_bids)) 7 = None" by code_simp
  then show ?thesis
    using modify_order_refusal [of ob 1 d99 0 w] modify_order_refusal [of ob 7 d99 10 w]
      ex_after_book [OF ex_two_bids_ok s] s by simp
qed

section \<open>Every reachable book\<close>

text \<open>
  C2: a book that admissible requests have led to answers every admissible request: nothing it does is
  undefined, nothing throws and every call returns.
\<close>

theorem reachable_answers:
  assumes "reachable admissible s" "admissible r s"
  shows "\<exists>s'. perform r s = Inr s' \<and> reachable admissible s'"
proof -
  have "state_inv s" using reachable_state_inv [OF assms(1)] by blast
  then obtain s' where "perform r s = Inr s'" using admissible_answered assms(2) by blast
  then show ?thesis using reachable.request [of admissible s r s'] assms by blast
qed

theorem reachable_answers_witness:
  "\<exists>s'. perform (Modify 2 d101 10) (ex_after ex_two_bids) = Inr s' \<and> reachable admissible s'"
proof -
  have "admissible (Modify 2 d101 10) (ex_after ex_two_bids)" by code_simp
  then show ?thesis using reachable_answers [OF ex_after_reachable [OF ex_two_bids_admissible]] by blast
qed

text \<open>
  C5: in every reachable book, a queue holds exactly the active orders of its side, each once, with
  what is left of it, from the best price to the worst.
\<close>

theorem reachable_queues:
  assumes "reachable admissible (w, ob)"
  shows "(r \<in> set (queue sd ob) \<longleftrightarrow>
      (\<exists>ord. order_of ob (rst_id r) = Some ord \<and> active ord \<and> ord_side ord = sd \<and> r = view ord)) \<and>
    distinct (map rst_id (queue sd ob)) \<and>
    sorted_wrt (\<lambda>a b. \<not> side_lt sd (rst_price b) (rst_price a)) (queue sd ob)"
proof -
  have inv: "book_inv ob" using reachable_state_inv [OF assms] by (simp add: state_inv_def)
  have "sorted_wrt (\<lambda>x y. \<not> side_lt sd (price_of (orders ob) y) (price_of (orders ob) x))
      (side_ptrs (levels_of sd ob))"
    using side_sorted [of "{}" sd "orders ob" "[]" "levels_of sd ob"] book_side [OF inv] by simp
  then have "sorted_wrt (\<lambda>a b. \<not> side_lt sd (rst_price b) (rst_price a)) (queue sd ob)"
    by (simp add: queue_def sorted_wrt_map)
  then show ?thesis using queue_member [OF inv] queue_ids_distinct [OF inv] by blast
qed

theorem reachable_queues_witness:
  "distinct (map rst_id (queue BUY (snd (ex_after ex_two_bids)))) \<and>
   length (queue BUY (snd (ex_after ex_two_bids))) = 2"
proof -
  obtain w ob where s: "ex_after ex_two_bids = (w, ob)" by fastforce
  have "length (queue BUY (snd (ex_after ex_two_bids))) = 2" by code_simp
  then show ?thesis
    using reachable_queues [of w ob _ BUY] ex_after_reachable [OF ex_two_bids_admissible] s by simp
qed

text \<open>
  C6: while no price is modified, every reachable book is uncrossed: the best bid is below the best
  ask, by the code's own queries.
\<close>

theorem reachable_uncrossed:
  assumes "reachable quiet (w, ob)" "ob_bids ob \<noteq> []" "ob_asks ob \<noteq> []"
  shows "get_best_bid ob < get_best_ask ob"
proof -
  have inv: "book_inv ob" and unc: "uncrossed ob"
    using reachable_quiet [OF assms(1)] by (simp_all add: state_inv_def)
  obtain bk bl bs ak al as where lv: "ob_bids ob = (bk, bl) # bs" "ob_asks ob = (ak, al) # as"
    using assms(2,3) by (metis list.exhaust surj_pair)
  have "\<not> is_nan bk" "\<not> is_nan ak"
    using side_inv_keys [OF book_side [OF inv, of BUY], of bk] side_inv_keys [OF book_side [OF inv, of SELL], of ak] lv
    by simp_all
  then show ?thesis using uncrossed_heads [OF inv lv] unc lv
    by (auto simp: get_best_bid_def get_best_ask_def double_ord_defs)
qed

theorem reachable_uncrossed_witness:
  "get_best_bid (snd (ex_after ex_two_sided)) < get_best_ask (snd (ex_after ex_two_sided))"
proof -
  obtain w ob where s: "ex_after ex_two_sided = (w, ob)" by fastforce
  have "ob_bids (snd (ex_after ex_two_sided)) \<noteq> []" "ob_asks (snd (ex_after ex_two_sided)) \<noteq> []"
    by code_simp+
  then show ?thesis
    using reachable_uncrossed [of w ob] ex_after_reachable [OF ex_two_sided_quiet] s by simp
qed

section \<open>Queries\<close>

text \<open>
  C33: the queries of a reachable book are those of its queues: the best prices are the prices of the
  front orders, or -1 on an empty side, and the totals are the numbers of resting orders.
\<close>

theorem queries_tell_queues:
  assumes "reachable admissible (w, ob)"
  shows "best_price (queue BUY ob) (get_best_bid ob) \<and> best_price (queue SELL ob) (get_best_ask ob) \<and>
    get_total_bid_orders ob = length (queue BUY ob) \<and> get_total_ask_orders ob = length (queue SELL ob)"
proof -
  have inv: "book_inv ob" using reachable_state_inv [OF assms] by (simp add: state_inv_def)
  show ?thesis
    using side_best [OF inv, of BUY] side_best [OF inv, of SELL]
      levels_count [OF book_side [OF inv, of BUY]] levels_count [OF book_side [OF inv, of SELL]]
    by (simp add: get_best_bid_def get_best_ask_def get_total_bid_orders_def get_total_ask_orders_def queue_def)
qed

theorem queries_tell_queues_witness:
  "get_total_bid_orders (snd (ex_after ex_two_bids)) = length (queue BUY (snd (ex_after ex_two_bids))) \<and>
   best_price (queue SELL (snd (ex_after ex_two_bids))) minus_one"
proof -
  obtain w ob where s: "ex_after ex_two_bids = (w, ob)" by fastforce
  have "get_best_ask (snd (ex_after ex_two_bids)) = minus_one" by code_simp
  then show ?thesis
    using queries_tell_queues [of w ob] ex_after_reachable [OF ex_two_bids_admissible] s by simp
qed

end
