(* ===== verification/Book_Limits.thy ===== *)
theory Book_Limits
  imports Book_Example
begin

text \<open>
  What the code does outside \<open>admissible\<close>, and what an admissible price change can do: the pool
  outgrows its storage, a lone order is queued again at its level, a price is NaN, the book is
  crossed and stays so, a quantity is zero.
\<close>

section \<open>Growing the pool\<close>

lemma match_at_keeps: "match_at p q (w, ob) = Inr (w', ob') \<Longrightarrow> keeps ob ob'"
  by (auto simp: match_at_def rbind_eq_Inr)

lemma match_orders_keeps:
  assumes "match_orders p q (w, ob) = Inr (w', ob')"
  shows "keeps ob ob'"
proof -
  obtain n w1 ob1 where "match_at p n (w, ob) = Inr (w1, ob1)" "match_at q n (w1, ob1) = Inr (w', ob')"
    using assms by (auto simp: match_orders_def Let_def rbind_eq_Inr)
  then show ?thesis using match_at_keeps keeps_trans by blast
qed

lemma step_keeps:
  assumes "try_match_step (w, ob) = Inr r"
  shows "case r of Stop (w', ob') \<Rightarrow> keeps ob ob' | Continue (w', ob') \<Rightarrow> keeps ob ob'"
proof -
  let ?ob0 = "ob\<lparr>ob_trades_completed := ob_trades_completed ob + 1\<rparr>"
  have tr: "keeps ob ob'" if "match_orders p q (w, ?ob0) = Inr (w', ob')" for p q w' ob'
    using match_orders_keeps [OF that] keeps_trans [of ob ?ob0 ob'] by simp
  show ?thesis
    using assms
    by (auto simp: try_match_step_def rbind_eq_Inr dest!: tr split: list.splits if_splits prod.splits)
qed

lemma loop_keeps:
  assumes "try_match_loop m s = Some r"
  shows "\<forall>b s'. r = Inr (b, s') \<longrightarrow> keeps (snd s) (snd s')"
proof (rule try_match_loop.raw_induct [of "\<lambda>m s r. \<forall>b s'. r = Inr (b, s') \<longrightarrow> keeps (snd s) (snd s')", OF _ assms])
  fix loop :: "bool \<Rightarrow> state \<Rightarrow> (bool \<times> state) result option" and m s r
  assume IH: "\<And>m s r. loop m s = Some r \<Longrightarrow> \<forall>b s'. r = Inr (b, s') \<longrightarrow> keeps (snd s) (snd s')"
    and eq: "(case try_match_step s of Inl e \<Rightarrow> Some (Inl e) | Inr (Stop s') \<Rightarrow> Some (Inr (m, s'))
      | Inr (Continue s') \<Rightarrow> loop True s') = Some r"
  obtain w ob where s: "s = (w, ob)" by (cases s)
  show "\<forall>b s'. r = Inr (b, s') \<longrightarrow> keeps (snd s) (snd s')"
  proof (cases "try_match_step s")
    case (Inl e)
    then show ?thesis using eq by auto
  next
    case (Inr x)
    note k = step_keeps [of w ob x] Inr s
    show ?thesis
    proof (cases x)
      case (Stop s1)
      then show ?thesis using k eq by (auto split: prod.splits)
    next
      case (Continue s1)
      then have "loop True s1 = Some r" using eq Inr by simp
      then have "\<forall>b s'. r = Inr (b, s') \<longrightarrow> keeps (snd s1) (snd s')" by (rule IH)
      moreover have "keeps (snd s) (snd s1)" using k Continue by (auto split: prod.splits)
      ultimately show ?thesis using keeps_trans by blast
    qed
  qed
qed

lemma try_match_keeps: "try_match s = Inr (b, s') \<Longrightarrow> keeps (snd s) (snd s')"
  using loop_keeps [of False s "Inr (b, s')"]
  by (cases s') (auto simp: try_match_def split: if_splits option.splits)

lemma add_dispatcher_frame:
  assumes "add_order_dispatcher sd p ob = Inr ob'"
  shows "ob_order_pool ob' = ob_order_pool ob"
    "\<exists>i. ob_order_registry ob' = AList.update i p (ob_order_registry ob) \<and>
       map_option ord_id (store ob p) = Some i"
  using assms by (auto simp: add_order_dispatcher_def rbind_eq_Inr)

text \<open>Once the pool has moved, the registry leads to storage that is gone.\<close>

lemma moved_pool:
  assumes inv: "book_inv ob" and ids: "ids_ok w ob" "ids_room w ob"
    and full: "pool_next_free_index (ob_order_pool ob) = length (pool_orders (ob_order_pool ob))"
      "pool_orders (ob_order_pool ob) \<noteq> []"
      "pool_capacity (ob_order_pool ob) = length (pool_orders (ob_order_pool ob))"
    and i: "order_of ob i \<noteq> None" and add: "add_order client (w, ob) = Inr (j, w', ob')"
  obtains p where "map_of (ob_order_registry ob') i = Some p" "store ob' p = None"
proof -
  let ?pool = "ob_order_pool ob"
  obtain pool' where al: "allocate (wd_clock w) ?pool =
      Inr (Slot (Suc (pool_block ?pool)) (length (pool_orders ?pool)), pool', later (length (pool_orders ?pool)) (wd_clock w))"
    and blk: "pool_block pool' = Suc (pool_block ?pool)"
    by (rule allocate_full [OF full])
  let ?p = "Slot (Suc (pool_block ?pool)) (length (pool_orders ?pool))"
  let ?w = "w\<lparr>wd_clock := later (length (pool_orders ?pool)) (wd_clock w)\<rparr>" and ?ob0 = "ob\<lparr>ob_order_pool := pool'\<rparr>"
  obtain k w1 ob1 where g: "get_order_id ?w ?ob0 = (k, w1, ob1)" by (cases "get_order_id ?w ?ob0") auto
  have "ids_ok ?w ?ob0" "ids_room ?w ?ob0" using ids by (simp_all add: ids_ok_def ids_room_def)
  note id = get_order_id_fresh [OF this g]
  obtain slot ob3 b w2 ob4 where r: "store ob1 ?p = Some slot"
      "add_order_dispatcher (ord_side (copy_from_client slot client k)) ?p
         (write_order ?p (copy_from_client slot client k) ob1) = Inr ob3"
      "try_match (w1, ob3) = Inr (b, w2, ob4)" "ob' = ob4"
    using add al g by (auto simp: add_order_def Let_def rbind_eq_Inr)
  have st: "store (write_order ?p (copy_from_client slot client k) ob1) ?p = Some (copy_from_client slot client k)"
    using pool_store_write [OF r(1)] by (simp add: write_order_def)
  have k4: "keeps ob3 ob4" using try_match_keeps [OF r(3)] by simp
  have block: "pool_block (ob_order_pool ob') = Suc (pool_block ?pool)"
    using k4 r(4) add_dispatcher_frame(1) [OF r(2)] id(5) blk by (simp add: keeps_def write_order_def)
  have reg: "ob_order_registry ob' = AList.update k ?p (ob_order_registry ob)"
    using k4 r(4) add_dispatcher_frame(2) [OF r(2)] st id(6) by (auto simp: keeps_def copy_from_client_def)
  obtain o1 where "order_of ob i = Some o1" using i by blast
  then obtain p where p: "orders ob p = Some o1" "ord_id o1 = i" using order_of_Some [OF inv] by blast
  have "map_of (ob_order_registry ob) i = Some p"
    using p registered [of ob i p] inv by (auto simp: book_inv_def)
  moreover have "i < k"
    using p inv id(1) by (auto simp: book_inv_def orders_inv_def intro: less_le_trans)
  ultimately have "map_of (ob_order_registry ob') i = Some p" using reg by (auto simp: update_conv')
  moreover have "ptr_block p = pool_block ?pool" using held_store [OF p(1)] by (auto simp: pool_store_def split: if_splits)
  then have "store ob' p = None" using block by (simp add: pool_store_def)
  ultimately show ?thesis by (rule that)
qed

definition ex_full :: "request list" where
  "ex_full = [Add (ex_order BUY d99 10), Add (ex_order BUY d99 20), Add (ex_order BUY d99 30),
     Add (ex_order BUY d99 40)]"

lemma ex_full_ok: "all_admissible ex_full ex_empty"
  by code_simp

text \<open>
  C37: the pool reserves its storage once. When it is full, the next \<open>add_order\<close> moves every order, and
  the pointers of the registry and of the levels are not updated: from then on, cancelling or modifying
  any earlier order follows a dangling pointer.
\<close>

theorem full_pool_dangles:
  assumes "book_inv ob" "ids_ok w ob" "ids_room w ob"
    "pool_next_free_index (ob_order_pool ob) = length (pool_orders (ob_order_pool ob))"
    "pool_orders (ob_order_pool ob) \<noteq> []"
    "pool_capacity (ob_order_pool ob) = length (pool_orders (ob_order_pool ob))"
    "order_of ob i \<noteq> None" "add_order client (w, ob) = Inr (j, w', ob')"
  shows "cancel_order i (w', ob') = Inl (Undefined DanglingPointer) \<and>
    modify_order i np nq (w', ob') = Inl (Undefined DanglingPointer)"
proof -
  obtain p where "map_of (ob_order_registry ob') i = Some p" "store ob' p = None"
    by (rule moved_pool [OF assms])
  then show ?thesis by (simp add: cancel_order_def modify_order_def)
qed

theorem full_pool_dangles_witness:
  "\<exists>j w' ob'. add_order (ex_order BUY d99 50) (ex_after ex_full) = Inr (j, w', ob') \<and>
     cancel_order 1 (w', ob') = Inl (Undefined DanglingPointer)"
proof -
  obtain w ob where s: "ex_after ex_full = (w, ob)" by fastforce
  have "case ex_after ex_full of (w, ob) \<Rightarrow> ids_room w ob \<and>
      pool_next_free_index (ob_order_pool ob) = length (pool_orders (ob_order_pool ob)) \<and>
      pool_orders (ob_order_pool ob) \<noteq> [] \<and>
      pool_capacity (ob_order_pool ob) = length (pool_orders (ob_order_pool ob)) \<and>
      order_of ob 1 \<noteq> None \<and> fault_of (add_order (ex_order BUY d99 50) (w, ob)) = None"
    by code_simp
  then have full: "ids_room w ob"
      "pool_next_free_index (ob_order_pool ob) = length (pool_orders (ob_order_pool ob))"
      "pool_orders (ob_order_pool ob) \<noteq> []"
      "pool_capacity (ob_order_pool ob) = length (pool_orders (ob_order_pool ob))" "order_of ob 1 \<noteq> None"
      "fault_of (add_order (ex_order BUY d99 50) (w, ob)) = None"
    using s by simp_all
  from full(6) obtain j w' ob' where add: "add_order (ex_order BUY d99 50) (w, ob) = Inr (j, w', ob')"
    by (cases "add_order (ex_order BUY d99 50) (w, ob)") (auto simp: fault_of_def)
  then show ?thesis
    using full_pool_dangles [OF _ _ full(1-5) add] ex_after_book [OF ex_full_ok s] s by auto
qed

section \<open>A lone order whose quantity grows\<close>

text \<open>
  The bound on increases is needed: increasing the quantity of the only order at its price, at that
  price, returns true and leaves the book inconsistent: the head index of the level is at a dead entry.
  What can follow is in \<open>Book_Requeue\<close>.
\<close>

theorem lone_increase_breaks:
  assumes "book_inv ob" "order_of ob i = Some ord" "active ord" "validate_modify_order ord np nq"
    "dbl_eq (ord_price ord) np" "nq > ord_quantity ord" "\<not> shares_level ord (queue (ord_side ord) ob)"
  shows "\<exists>ob'. modify_order i np nq (w, ob) = Inr (True, w, ob') \<and> \<not> book_inv ob'"
proof -
  obtain p where "orders ob p = Some ord" "ord_id ord = i"
    using order_of_Some [OF assms(1), of i ord] assms(2) by blast
  then show ?thesis using modify_lone_increase [OF assms(1) _ assms(3-7)] by blast
qed

theorem lone_increase_breaks_witness:
  "\<exists>ob'. modify_order 1 d99 200 (ex_after ex_two_sided) = Inr (True, fst (ex_after ex_two_sided), ob') \<and>
     \<not> book_inv ob'"
proof -
  obtain w ob where s: "ex_after ex_two_sided = (w, ob)" by fastforce
  have "case order_of (snd (ex_after ex_two_sided)) 1 of None \<Rightarrow> False | Some ord \<Rightarrow>
      active ord \<and> validate_modify_order ord d99 200 \<and> dbl_eq (ord_price ord) d99 \<and>
      200 > ord_quantity ord \<and> \<not> shares_level ord (queue (ord_side ord) (snd (ex_after ex_two_sided)))"
    by code_simp
  then obtain ord where "order_of ob 1 = Some ord" "active ord" "validate_modify_order ord d99 200"
      "dbl_eq (ord_price ord) d99" "200 > ord_quantity ord" "\<not> shares_level ord (queue (ord_side ord) ob)"
    using s by (auto split: option.splits)
  then show ?thesis
    using lone_increase_breaks [of ob 1 ord d99 200 w] ex_after_book [OF ex_two_sided_ok s] s by auto
qed

section \<open>A price change that crosses the book\<close>

text \<open>
  An example: \<open>modify_order\<close> returns before its call of \<open>try_match\<close>: a bid that is moved to the price of an ask
  stays on the book beside it, and so do orders added later at prices that the book already has.
\<close>

theorem modified_price_stays_crossed:
  "\<exists>w ob. run [Add (ex_order BUY d99 100), Add (ex_order SELL d101 50), Modify 1 d101 100,
       Add (ex_order SELL d101 10)] ex_empty = Inr (w, ob) \<and>
     get_best_bid ob = d101 \<and> get_best_ask ob = d101 \<and> ob_trades_completed ob = 0 \<and>
     get_total_ask_orders ob = 2 \<and> \<not> uncrossed ob"
proof -
  let ?r = "run [Add (ex_order BUY d99 100), Add (ex_order SELL d101 50), Modify 1 d101 100,
       Add (ex_order SELL d101 10)] ex_empty"
  have "case ?r of Inl _ \<Rightarrow> False | Inr (w, ob) \<Rightarrow> get_best_bid ob = d101 \<and> get_best_ask ob = d101 \<and>
      ob_trades_completed ob = 0 \<and> get_total_ask_orders ob = 2 \<and> \<not> uncrossed ob"
    by code_simp
  then show ?thesis by (auto split: sum.splits)
qed

section \<open>Prices that are not numbers, and quantities of zero\<close>

text \<open>
  C40: a NaN passes the check of the price in \<open>modify_order\<close>, and is then a key of an ordered map, whose
  comparison it violates.
\<close>

theorem nan_price_undefined:
  assumes "book_inv ob" "order_of ob i = Some ord" "active ord" "ord_quantity_filled ord < nq" "is_nan np"
  shows "modify_order i np nq (w, ob) = Inl (Undefined UnorderedKey)"
proof -
  obtain p where p: "orders ob p = Some ord" "ord_id ord = i"
    using order_of_Some [OF assms(1), of i ord] assms(2) by blast
  have si: "side_inv (ord_side ord) (orders ob) (levels_of (ord_side ord) ob)"
    using assms(1) by (simp add: book_inv_def)
  obtain ls1 k lv ls2 where at: "levels_of (ord_side ord) ob = ls1 @ (k, lv) # ls2" "p \<in> set (live lv)"
      "level_at (ord_side ord) (ord_price ord) (levels_of (ord_side ord) ob) = Inr (k, lv)"
      "level_at (ord_side ord) k (levels_of (ord_side ord) ob) = Inr (k, lv)"
    using level_of_order [OF si book_ptrs [OF assms(1) p(1) assms(3)] p(1)] by metis
  have split: "side_inv (ord_side ord) (orders ob) (ls1 @ (k, lv) # ls2)" using si at(1) by simp
  then obtain lv' where rem: "level_remove_order i lv = Inr (True, lv')"
    using side_take [OF split at(2) p(1)] p(2) by blast
  have valid: "validate_modify_order ord np nq"
    using assms(4,5) by (simp add: validate_modify_order_def double_ord_defs)
  have ne: "\<not> dbl_eq (ord_price ord) np" using assms(5) dbl_eq_simps(2) by blast
  have reg: "map_of (ob_order_registry ob) i = Some p"
    using registered [of ob i p] assms(1) p by (auto simp: book_inv_def)
  have "move_to_price (ord_side ord) p k np (w, ob) = Inl (Undefined UnorderedKey)"
    using p at(4) rem assms(5) by (simp add: move_to_price_def Let_def emplace_level_def assert_or_def)
  then show ?thesis
    using reg p valid ne at(3) assms(3)
    by (simp add: modify_order_def modify_order_dispatcher_def active_iff_cancellable)
qed

theorem nan_price_undefined_witness:
  "modify_order 1 dNaN 50 (ex_after ex_two_bids) = Inl (Undefined UnorderedKey)"
proof -
  obtain w ob where s: "ex_after ex_two_bids = (w, ob)" by fastforce
  have "case order_of (snd (ex_after ex_two_bids)) 1 of None \<Rightarrow> False | Some ord \<Rightarrow>
      active ord \<and> ord_quantity_filled ord < 50" "is_nan dNaN" by code_simp+
  then show ?thesis
    using nan_price_undefined [of ob 1 _ 50 dNaN w] ex_after_book [OF ex_two_bids_ok s] s
    by (auto split: option.splits)
qed

text \<open>
  An order of quantity zero is accepted, rests on the book, and is matched: the trade of nothing is
  counted, and the other side's order is marked partially filled.
\<close>

theorem zero_quantity_trades:
  "\<exists>w ob ord. run [Add (ex_order BUY d99 0), Add (ex_order SELL d99 100)] ex_empty = Inr (w, ob) \<and>
     ob_trades_completed ob = 1 \<and> order_of ob 2 = Some ord \<and>
     ord_status ord = PARTIALLY_FILLED \<and> ord_quantity_filled ord = 0"
proof -
  let ?r = "run [Add (ex_order BUY d99 0), Add (ex_order SELL d99 100)] ex_empty"
  have "case ?r of Inl _ \<Rightarrow> False | Inr (w, ob) \<Rightarrow> ob_trades_completed ob = 1 \<and>
      (case order_of ob 2 of None \<Rightarrow> False
       | Some ord \<Rightarrow> ord_status ord = PARTIALLY_FILLED \<and> ord_quantity_filled ord = 0)"
    by code_simp
  then show ?thesis by (auto split: sum.splits option.splits)
qed

end
