(* ===== verification/Book_Crossing.thy ===== *)
theory Book_Crossing
  imports Book_Properties Book_Limits
begin

text \<open>
  What a change of price does that crosses the book: \<open>modify_order\<close> returns before it calls \<open>try_match\<close>,
  and \<open>add_order\<close> only matches when it has made a new level.
\<close>

definition opposite :: "order_side \<Rightarrow> order_side" where
  "opposite sd = (case sd of BUY \<Rightarrow> SELL | SELL \<Rightarrow> BUY)"

lemma opposite_simps [simp]: "opposite BUY = SELL" "opposite SELL = BUY" "opposite sd \<noteq> sd"
  by (simp_all add: opposite_def split: order_side.split)

text \<open>A price of the side \<open>sd\<close> that would be matched with one of the other side.\<close>

definition meets :: "order_side \<Rightarrow> price \<Rightarrow> price \<Rightarrow> bool" where
  "meets sd p q \<longleftrightarrow> (if sd = BUY then p \<ge> q else q \<ge> p)"

section \<open>Crossed books\<close>

lemma queue_key:
  assumes "book_inv ob" "r \<in> set (queue sd ob)"
  shows "\<exists>k \<in> set (map fst (levels_of sd ob)). dbl_eq (rst_price r) k"
proof -
  obtain p where p: "p \<in> set (side_ptrs (levels_of sd ob))" "r = view (the (orders ob p))"
    using assms(2) by (auto simp: queue_def)
  then obtain k lv where k: "(k, lv) \<in> set (levels_of sd ob)" "p \<in> set (live lv)" by (auto simp: side_ptrs_mem)
  then have "level_ok {} (orders ob) (k, lv)" using assms(1) by (auto simp: book_inv_def side_inv_except_def)
  then have "dbl_eq (rst_price r) k" using k(2) p(2) by (simp add: level_ok_def)
  then show ?thesis using k(1) by force
qed

lemma meeting_not_uncrossed:
  assumes "book_inv ob" "r \<in> set (queue sd ob)" "q \<in> set (queue (opposite sd) ob)" "meets sd (rst_price r) (rst_price q)"
  shows "\<not> uncrossed ob"
proof -
  obtain k where k: "k \<in> set (map fst (levels_of sd ob))" "dbl_eq (rst_price r) k" using queue_key [OF assms(1,2)] by blast
  obtain l where l: "l \<in> set (map fst (levels_of (opposite sd) ob))" "dbl_eq (rst_price q) l" using queue_key [OF assms(1,3)] by blast
  have "meets sd k l" using assms(4) k(2) l(2) by (cases sd) (auto simp: meets_def double_ord_defs)
  then show ?thesis using k(1) l(1) unfolding uncrossed_def by (cases sd) (auto simp: meets_def)
qed

lemma uncrossed_same:
  "(\<And>sd. map fst (levels_of sd ob') = map fst (levels_of sd ob)) \<Longrightarrow> uncrossed ob' = uncrossed ob"
  by (metis levels_of.simps uncrossed_def)

lemma emplace_found: "map_find lt k m = Some x \<Longrightarrow> map_try_emplace lt k v m = (False, m)"
  by (induction m) (auto split: if_splits)

lemma map_write_keys [simp]: "map fst (map_write lt k v m) = map fst m"
  by (induction m) auto

lemma level_found:
  assumes "book_inv ob" "k \<in> set (map fst (levels_of sd ob))" "dbl_eq p k"
  shows "\<exists>x. map_find (side_lt sd) p (levels_of sd ob) = Some x \<and> \<not> is_nan p"
proof -
  obtain lv where "(k, lv) \<in> set (levels_of sd ob)" using assms(2) by auto
  then obtain ls1 ls2 where ls: "levels_of sd ob = ls1 @ (k, lv) # ls2" by (meson split_list)
  have "side_inv sd (orders ob) (levels_of sd ob)" using assms(1) by (simp add: book_inv_def)
  from level_at_key(1) [OF this [unfolded ls] assms(3)] show ?thesis
    unfolding ls by (auto simp: level_at_def assert_or_def split: option.splits if_splits)
qed

text \<open>An order at a price that its side has already is not matched, crossed or not.\<close>

lemma add_at_level:
  assumes inv: "book_inv ob" and adm: "admissible (Add client) (w, ob)" "ids_ok w ob"
    and level: "k \<in> set (map fst (levels_of (ord_side client) ob))" "dbl_eq (ord_price client) k"
  shows "\<exists>i w' ob'. add_order client (w, ob) = Inr (i, w', ob') \<and> book_inv ob' \<and>
    ob_trades_completed ob' = ob_trades_completed ob \<and> (\<forall>sd. map fst (levels_of sd ob') = map fst (levels_of sd ob))"
proof -
  obtain i w' ob' where add: "add_order client (w, ob) = Inr (i, w', ob')" "book_inv ob'"
    using add_answered [OF inv adm(2,1)] by (auto simp: perform_def state_inv_def rbind_eq_Inr)
  have room: "pool_room (ob_order_pool ob)" using adm(1) by (simp add: admissible_def)
  let ?pool = "ob_order_pool ob" and ?sd = "ord_side client" and ?price = "ord_price client"
  let ?p = "Slot (pool_block ?pool) (pool_next_free_index ?pool)"
  obtain n w1 ob1 where g: "get_order_id w (ob\<lparr>ob_order_pool := ?pool\<lparr>pool_next_free_index := Suc (pool_next_free_index ?pool)\<rparr>\<rparr>) = (n, w1, ob1)"
    by (metis prod_cases3)
  have 1: "levels_of sd ob1 = levels_of sd ob" "ob_trades_completed ob1 = ob_trades_completed ob" for sd
    using g by (cases sd; auto simp: get_order_id_def Let_def split: if_splits prod.splits)+
  have "pool_store (ob_order_pool ob1) ?p \<noteq> None"
    using g room by (auto simp: get_order_id_def Let_def pool_room_def split: if_splits prod.splits)
  then obtain old where old: "pool_store (ob_order_pool ob1) ?p = Some old" by blast
  obtain slot ob3 b where r: "add_order_dispatcher ?sd ?p (write_order ?p (copy_from_client slot client n) ob1) = Inr ob3"
      "try_match (w1, ob3) = Inr (b, w', ob')"
    using add(1) allocate_room [OF room, of "wd_clock w"] g by (auto simp: add_order_def Let_def rbind_eq_Inr copy_from_client_def)
  let ?ob2 = "write_order ?p (copy_from_client slot client n) ob1"
  obtain ord inserted ls1 k1 lv lv' where d: "deref (store ?ob2) ?p = Inr ord" "emplace_level ?sd (ord_price ord) (levels_of ?sd ?ob2) = Inr (inserted, ls1)"
      "ob3 = (set_levels ?sd (map_write (side_lt ?sd) k1 lv' ls1) ?ob2)\<lparr>ob_try_match_flag := inserted,
         ob_order_registry := AList.update (ord_id ord) ?p (ob_order_registry ?ob2)\<rparr>"
    using r(1) by (auto simp: add_order_dispatcher_def rbind_eq_Inr)
  have "store ?ob2 ?p = Some (copy_from_client slot client n)"
    using pool_store_write [OF old, of "copy_from_client slot client n"] by (simp add: write_order_def del: pool_store_slot)
  then have "ord = copy_from_client slot client n" using d(1) by (simp add: deref_Some del: pool_store_slot)
  then have price: "ord_price ord = ?price" by (simp add: copy_from_client_def)
  have at: "levels_of ?sd ?ob2 = levels_of ?sd ob" by (simp add: 1)
  obtain x where x: "map_find (side_lt ?sd) ?price (levels_of ?sd ob) = Some x" "\<not> is_nan ?price"
    using level_found [OF inv level] by blast
  have "emplace_level ?sd ?price (levels_of ?sd ob) = Inr (False, levels_of ?sd ob)"
    unfolding emplace_level_def emplace_found [OF x(1)] using x(2) by (simp add: assert_or_def)
  then have ls1: "inserted = False" "ls1 = levels_of ?sd ob" using d(2) unfolding at price by simp_all
  have "\<not> ob_try_match_flag ob3" using d(3) ls1(1) by simp
  then have "ob' = ob3" using r(2) by (simp add: try_match_def)
  then have "ob_trades_completed ob' = ob_trades_completed ob" "map fst (levels_of sd ob') = map fst (levels_of sd ob)" for sd
    using d(3) ls1(2) 1 by auto
  then show ?thesis using add by blast
qed

section \<open>The change of price\<close>

text \<open>
  C39: a change of price that crosses the book is carried out and not matched: the order gets its place
  in its queue, no trade is made, and the book is crossed. It stays crossed, and makes no trade, whatever
  orders then come at prices that their side already has.
\<close>

theorem crossing_change_untraded:
  assumes "book_inv ob" "order_of ob i = Some ord" "active ord" "validate_modify_order ord np nq"
    "\<not> is_nan np" "\<not> dbl_eq (ord_price ord) np"
    "r \<in> set (queue (opposite (ord_side ord)) ob)" "meets (ord_side ord) np (rst_price r)"
  shows "\<exists>ob'. modify_order i np nq (w, ob) = Inr (True, wtick w, ob') \<and> book_inv ob' \<and> \<not> uncrossed ob' \<and>
    ob_trades_completed ob' = ob_trades_completed ob \<and>
    (\<forall>client v k. admissible (Add client) (v, ob') \<and> ids_ok v ob' \<and> k \<in> set (map fst (levels_of (ord_side client) ob')) \<and>
       dbl_eq (ord_price client) k \<longrightarrow>
       (\<exists>j v' ob''. add_order client (v, ob') = Inr (j, v', ob'') \<and> \<not> uncrossed ob'' \<and>
          ob_trades_completed ob'' = ob_trades_completed ob))"
proof -
  let ?ord = "modified (wnow w) np nq ord"
  obtain p where p: "orders ob p = Some ord" "ord_id ord = i" using order_of_Some [OF assms(1), of i ord] assms(2) by blast
  obtain ob' where m: "modify_order i np nq (w, ob) = Inr (True, wtick w, ob')" "book_inv ob'"
      "queue (ord_side ord) ob' = spec_enter (ord_side ord) (view ?ord) (spec_remove i (queue (ord_side ord) ob))"
      "\<And>sd. sd \<noteq> ord_side ord \<Longrightarrow> queue sd ob' = queue sd ob" "ob_trades_completed ob' = ob_trades_completed ob"
    using modify_price [OF assms(1) p(1) assms(3,5,6,4), of w] p(2) by blast
  have "view ?ord \<in> set (queue (ord_side ord) ob')" unfolding m(3) by (simp add: spec_enter_def)
  moreover have "r \<in> set (queue (opposite (ord_side ord)) ob')" using assms(7) m(4) by simp
  moreover have "rst_price (view ?ord) = np" using assms(6) by (simp add: modified_def)
  ultimately have crossed: "\<not> uncrossed ob'" using meeting_not_uncrossed [OF m(2)] assms(8) by metis
  have "\<exists>j v' ob''. add_order client (v, ob') = Inr (j, v', ob'') \<and> \<not> uncrossed ob'' \<and> ob_trades_completed ob'' = ob_trades_completed ob"
    if "admissible (Add client) (v, ob')" "ids_ok v ob'" "k \<in> set (map fst (levels_of (ord_side client) ob'))" "dbl_eq (ord_price client) k"
    for client v k
    using add_at_level [OF m(2) that] uncrossed_same [of _ ob'] crossed m(5) by metis
  then show ?thesis using m(1,2,5) crossed by blast
qed

text \<open>A bid at 99 is moved to 101, where there is an ask; then another ask comes at 101.\<close>

theorem crossing_change_untraded_witness:
  "\<exists>w ob' j v' ob''. modify_order 1 d101 100 (ex_after ex_two_sided) = Inr (True, w, ob') \<and> \<not> uncrossed ob' \<and>
     add_order (ex_order SELL d101 10) (w, ob') = Inr (j, v', ob'') \<and> \<not> uncrossed ob'' \<and> ob_trades_completed ob'' = 0"
proof -
  obtain w ob where s: "ex_after ex_two_sided = (w, ob)" by fastforce
  have e: "case order_of (snd (ex_after ex_two_sided)) 1 of None \<Rightarrow> False | Some ord \<Rightarrow>
      active ord \<and> validate_modify_order ord d101 100 \<and> \<not> dbl_eq (ord_price ord) d101 \<and> ord_side ord = BUY"
    "list_ex (\<lambda>r. meets BUY d101 (rst_price r)) (queue SELL (snd (ex_after ex_two_sided)))" "\<not> is_nan d101"
    "ob_trades_completed (snd (ex_after ex_two_sided)) = 0"
    "case modify_order 1 d101 100 (ex_after ex_two_sided) of Inl _ \<Rightarrow> False | Inr (_, v, b) \<Rightarrow>
       admissible (Add (ex_order SELL d101 10)) (v, b) \<and> ids_ok v b \<and> d101 \<in> set (map fst (ob_asks b)) \<and> dbl_eq d101 d101"
    by code_simp+
  obtain ord where ord: "order_of ob 1 = Some ord" "active ord" "validate_modify_order ord d101 100"
      "\<not> dbl_eq (ord_price ord) d101" "ord_side ord = BUY" using e(1) s by (auto split: option.splits)
  obtain r where r: "r \<in> set (queue (opposite (ord_side ord)) ob)" "meets (ord_side ord) d101 (rst_price r)"
    using e(2) s ord(5) by (auto simp: list_ex_iff)
  have inv: "book_inv ob" using ex_after_book [OF ex_two_sided_ok s] by simp
  obtain ob' where m: "modify_order 1 d101 100 (w, ob) = Inr (True, wtick w, ob')" "\<not> uncrossed ob'"
    and later: "\<forall>client v k. admissible (Add client) (v, ob') \<and> ids_ok v ob' \<and> k \<in> set (map fst (levels_of (ord_side client) ob')) \<and>
       dbl_eq (ord_price client) k \<longrightarrow>
       (\<exists>j v' ob''. add_order client (v, ob') = Inr (j, v', ob'') \<and> \<not> uncrossed ob'' \<and>
          ob_trades_completed ob'' = ob_trades_completed ob)"
    using crossing_change_untraded [OF inv ord(1-3) e(3) ord(4) r, of w] by blast
  have "ob_trades_completed ob = 0" using e(4) s by simp
  moreover have "ord_side (ex_order SELL d101 10) = SELL" "ord_price (ex_order SELL d101 10) = d101"
    by (simp_all add: ex_order_def client_order_def)
  ultimately show ?thesis using later [rule_format, of "ex_order SELL d101 10" "wtick w" d101] e(5) m s by auto
qed

end
