(* ===== verification/Book_Growth.thy ===== *)
theory Book_Growth
  imports Book_Crossing
begin

text \<open>
  Books that outgrow their pool. After that most pointers dangle, the invariant of the book is gone, and
  cancelling or modifying an older order follows a dangling pointer (\<open>Book_Limits\<close>); but adding an order
  only looks at the orders that it is matched with. These lemmas say what \<open>add_order\<close> comes to from what
  they ask of the levels alone: that it crosses nothing, or that it meets one order, in its old place or not.
\<close>

section \<open>A pool that may grow\<close>

definition stocked :: "nat \<Rightarrow> orderbook \<Rightarrow> bool" where
  "stocked c ob \<longleftrightarrow> pool_orders (ob_order_pool ob) \<noteq> [] \<and> pool_next_free_index (ob_order_pool ob) = c \<and>
     c \<le> length (pool_orders (ob_order_pool ob)) \<and> pool_capacity (ob_order_pool ob) = length (pool_orders (ob_order_pool ob)) \<and>
     (\<forall>i. c \<le> i \<and> i < length (pool_orders (ob_order_pool ob)) \<longrightarrow> ord_quantity_filled (pool_orders (ob_order_pool ob) ! i) = 0)"

abbreviation pool_length :: "orderbook \<Rightarrow> nat" where
  "pool_length ob \<equiv> length (pool_orders (ob_order_pool ob))"

definition grown :: "nat \<Rightarrow> nat \<Rightarrow> nat" where
  "grown c n = (if c < n then n else 2 * n)"

lemma allocate_stocked:
  assumes "stocked c ob"
  obtains pool clk' where "allocate clk (ob_order_pool ob) = Inr (Slot (pool_block pool) c, pool, clk')"
    "stocked (Suc c) (ob\<lparr>ob_order_pool := pool\<rparr>)" "length (pool_orders pool) = grown c (pool_length ob)"
    "ord_quantity_filled (pool_orders pool ! c) = 0" "c < length (pool_orders pool)"
    "if c < pool_length ob then pool = (ob_order_pool ob)\<lparr>pool_next_free_index := Suc c\<rparr>
     else pool_block pool = Suc (pool_block (ob_order_pool ob))"
proof (cases "c < pool_length ob")
  case True
  have "pool_room (ob_order_pool ob)" using True assms by (simp add: pool_room_def stocked_def)
  from allocate_room [OF this, of clk] show ?thesis
    by (intro that) (use True assms in \<open>simp_all add: stocked_def grown_def\<close>)
next
  case False
  let ?pool = "ob_order_pool ob"
  have full: "c = length (pool_orders ?pool)" "pool_next_free_index ?pool = c" "0 < c" using False assms by (auto simp: stocked_def)
  obtain pool clk1 where r: "reserve_more clk ?pool = (pool, clk1)" by fastforce
  have pool: "pool_orders pool = pool_orders ?pool @ default_orders clk c" "pool_next_free_index pool = c"
    "pool_block pool = Suc (pool_block ?pool)" "pool_capacity pool = 2 * c"
    using r full assms unfolding stocked_def by (auto simp: reserve_more_def vector_reserve_def Let_def)
  have zero: "ord_quantity_filled (pool_orders pool ! i) = 0" if "c \<le> i" "i < length (pool_orders pool)" for i
    using that pool(1) full(1) by (simp add: nth_append default_order_def)
  have "allocate clk ?pool = Inr (Slot (pool_block pool) c, pool\<lparr>pool_next_free_index := Suc c\<rparr>, clk1)"
    using r full pool by (simp add: allocate_def assert_or_def)
  moreover have "length (pool_orders pool) = c + c" using pool(1) full(1) by simp
  then have "Suc c \<le> length (pool_orders pool)" using full(3) by linarith
  ultimately show ?thesis
    by (intro that [of "pool\<lparr>pool_next_free_index := Suc c\<rparr>" clk1]) (use False full pool zero in \<open>simp_all add: stocked_def grown_def Suc_le_eq\<close>)
qed

definition ids_for :: "nat \<Rightarrow> orderbook \<Rightarrow> bool" where
  "ids_for k ob \<longleftrightarrow> unat (ob_next_available_order_id ob) + k \<le> unat (blk_end (ob_order_id_block ob))"

lemma get_order_id_next:
  assumes "ids_for (Suc k) ob"
  shows "get_order_id w ob = (ob_next_available_order_id ob, w, ob\<lparr>ob_next_available_order_id := ob_next_available_order_id ob + 1\<rparr>)"
    "unat (ob_next_available_order_id ob + 1) = Suc (unat (ob_next_available_order_id ob))"
proof -
  have "unat (ob_next_available_order_id ob) + unat (1 :: 64 word) < 2 ^ 64"
    using assms unat64_bound [of "blk_end (ob_order_id_block ob)"] by (simp add: ids_for_def)
  then show "unat (ob_next_available_order_id ob + 1) = Suc (unat (ob_next_available_order_id ob))"
    using unat_add_exact [of "ob_next_available_order_id ob" 1] by simp
  have "ob_next_available_order_id ob \<noteq> blk_end (ob_order_id_block ob)" using assms by (auto simp: ids_for_def)
  then show "get_order_id w ob = (ob_next_available_order_id ob, w, ob\<lparr>ob_next_available_order_id := ob_next_available_order_id ob + 1\<rparr>)"
    by (simp add: get_order_id_def)
qed

text \<open>While there is room the other orders stay where they are; when the pool grows they leave their block.\<close>

definition slots_after :: "order_ptr \<Rightarrow> orderbook \<Rightarrow> order_store \<Rightarrow> bool" where
  "slots_after p ob h \<longleftrightarrow> (\<forall>q. q \<noteq> p \<longrightarrow>
     (if ptr_index p < pool_length ob then h q = store ob q else ptr_block q = pool_block (ob_order_pool ob) \<longrightarrow> h q = None))"

text \<open>\<open>add_order\<close> up to the dispatcher: the order is in the pool, and the levels are as they were.\<close>

definition received :: "order \<Rightarrow> orderbook \<Rightarrow> order_ptr \<Rightarrow> order \<Rightarrow> orderbook \<Rightarrow> bool" where
  "received client ob p ord ob1 \<longleftrightarrow> store ob1 p = Some ord \<and> ord_id ord = ob_next_available_order_id ob \<and>
     ord_price ord = ord_price client \<and> ord_quantity ord = ord_quantity client \<and> ord_quantity_filled ord = 0 \<and>
     ob_next_available_order_id ob1 = ob_next_available_order_id ob + 1 \<and>
     pool_length ob1 = grown (ptr_index p) (pool_length ob) \<and>
     ob_bids ob1 = ob_bids ob \<and> ob_asks ob1 = ob_asks ob \<and> ob_trades_completed ob1 = ob_trades_completed ob \<and>
     slots_after p ob (store ob1)"

lemma add_order_receives:
  assumes stock: "stocked c ob" and ids: "ids_for (Suc k) ob"
  obtains p ord w1 ob1 where "received client ob p ord ob1" "p = Slot (pool_block (ob_order_pool ob1)) c" "stocked (Suc c) ob1" "ids_for k ob1"
    "add_order client (w, ob) = rbind (add_order_dispatcher (ord_side client) p ob1) (\<lambda>ob2.
       rbind (try_match (w1, ob2)) (\<lambda>(_, w2, ob3). Inr (ob_next_available_order_id ob, w2, ob3)))"
proof -
  obtain pool clk where a: "allocate (wd_clock w) (ob_order_pool ob) = Inr (Slot (pool_block pool) c, pool, clk)"
      "stocked (Suc c) (ob\<lparr>ob_order_pool := pool\<rparr>)" "length (pool_orders pool) = grown c (pool_length ob)"
      "ord_quantity_filled (pool_orders pool ! c) = 0" "c < length (pool_orders pool)"
    and same: "if c < pool_length ob then pool = (ob_order_pool ob)\<lparr>pool_next_free_index := Suc c\<rparr>
      else pool_block pool = Suc (pool_block (ob_order_pool ob))"
    by (rule allocate_stocked [OF stock, of "wd_clock w"])
  let ?n = "ob_next_available_order_id ob" and ?p = "Slot (pool_block pool) c"
  let ?ob0 = "ob\<lparr>ob_order_pool := pool, ob_next_available_order_id := ?n + 1\<rparr>"
  let ?ord = "copy_from_client (pool_orders pool ! c) client ?n"
  let ?ob1 = "write_order ?p ?ord ?ob0"
  have id: "get_order_id v (ob\<lparr>ob_order_pool := pool\<rparr>) = (?n, v, ?ob0)" for v
    using get_order_id_next(1) [of k "ob\<lparr>ob_order_pool := pool\<rparr>"] ids by (simp add: ids_for_def)
  have slot: "pool_store pool ?p = Some (pool_orders pool ! c)" using a(5) by simp
  have st: "store ?ob1 = (pool_store pool)(?p \<mapsto> ?ord)" using pool_store_write [OF slot] by (simp add: write_order_def)
  have add: "add_order client (w, ob) = rbind (add_order_dispatcher (ord_side client) ?p ?ob1) (\<lambda>ob2.
       rbind (try_match (w\<lparr>wd_clock := clk\<rparr>, ob2)) (\<lambda>(_, w2, ob3). Inr (?n, w2, ob3)))"
    using a(1,5) id by (simp add: add_order_def Let_def copy_from_client_def)
  have recv: "received client ob ?p ?ord ?ob1"
    unfolding received_def st using a(3,4) same by (auto simp: write_order_def copy_from_client_def slots_after_def pool_store_def split: if_splits)
  have stock1: "stocked (Suc c) ?ob1" using a(2) by (simp add: stocked_def write_order_def pool_write_def nth_list_update)
  have "ids_for k ?ob1" using ids get_order_id_next(2) [OF ids] by (simp add: ids_for_def write_order_def)
  from that [OF recv _ stock1 this add] show ?thesis by (simp add: write_order_def)
qed

section \<open>The levels\<close>

definition aged :: "order_id \<Rightarrow> price_level \<Rightarrow> bool" where
  "aged n lv \<longleftrightarrow> (\<forall>i \<in> fst ` set (lvl_orders_map lv). i < n)"

text \<open>The level that an order makes which is the first at its price.\<close>

definition lone_level :: "price \<Rightarrow> order_ptr \<Rightarrow> order_id \<Rightarrow> price_level" where
  "lone_level price p i =
     \<lparr>lvl_price = price, lvl_order_entries = [new_order_entry p], lvl_queue_head_index = 0, lvl_orders_map = [(i, 0)]\<rparr>"

definition tidy :: "price set \<Rightarrow> order_id \<Rightarrow> order_side \<Rightarrow> side_levels \<Rightarrow> bool" where
  "tidy S n sd ls \<longleftrightarrow> map_sorted (side_lt sd) ls \<and> (\<forall>(k, lv) \<in> set ls. k \<in> S \<and> \<not> is_nan k \<and> aged n lv)"

definition orders_in :: "side_levels \<Rightarrow> nat" where
  "orders_in ls = sum_list (map (\<lambda>(_, lv). level_size lv) ls)"

lemma orders_in_simps [simp]: "orders_in [] = 0" "orders_in ((k, lv) # ls) = level_size lv + orders_in ls" "orders_in (as @ bs) = orders_in as + orders_in bs"
  by (simp_all add: orders_in_def)

lemma totals: "get_total_bid_orders ob = orders_in (ob_bids ob)" "get_total_ask_orders ob = orders_in (ob_asks ob)"
  by (simp_all add: get_total_bid_orders_def get_total_ask_orders_def orders_in_def)

lemma tidy_mono: "tidy S n sd ls \<Longrightarrow> S \<subseteq> T \<Longrightarrow> n \<le> m \<Longrightarrow> tidy T m sd ls"
  unfolding tidy_def aged_def by (fastforce intro: less_le_trans)

lemma map_of_fresh: "\<forall>i \<in> fst ` set m. i < (n :: order_id) \<Longrightarrow> AList.update n v m = m @ [(n, v)]"
  by (induction m) auto

lemma level_add_lone: "h p = Some ord \<Longrightarrow> level_add_order h p (new_price_level price) = Inr (lone_level price p (ord_id ord))"
  by (simp add: level_add_order_def new_price_level_def lone_level_def)

lemma level_add_aged:
  assumes "h p = Some ord" "aged (ord_id ord) lv"
  obtains lv' where "level_add_order h p lv = Inr lv'" "level_size lv' = Suc (level_size lv)" "ord_id ord < m \<Longrightarrow> aged m lv'"
proof -
  have "AList.update (ord_id ord) (length (lvl_order_entries lv)) (lvl_orders_map lv) =
      lvl_orders_map lv @ [(ord_id ord, length (lvl_order_entries lv))]"
    using assms(2) by (intro map_of_fresh) (simp add: aged_def)
  then show ?thesis using assms by (intro that) (auto simp: level_add_order_def Let_def level_size_def aged_def intro: less_trans)
qed

lemma side_order: "strict_weak_order (side_lt sd) (\<lambda>p. \<not> is_nan p)"
  by (cases sd) (simp_all add: ask_map.strict_weak_order_axioms bid_map.strict_weak_order_axioms)

lemma tidy_write:
  assumes "tidy S n sd (as @ (k, lv) # bs)" "aged m lv'" "n \<le> m"
  shows "tidy S m sd (as @ (k, lv') # bs)"
  using tidy_mono [OF assms(1) subset_refl assms(3)] assms(2) strict_weak_order.sorted_write [OF side_order]
  by (auto simp: tidy_def)

definition first_at :: "order_side \<Rightarrow> price \<Rightarrow> side_levels \<Rightarrow> bool" where
  "first_at sd p ls \<longleftrightarrow> (\<forall>(k, _) \<in> set ls. side_lt sd p k)"

lemma dispatch_tidy:
  assumes st: "store ob p = Some ord" and nn: "\<not> is_nan (ord_price ord)"
    and tidy: "tidy S (ord_id ord) sd (levels_of sd ob)" and m: "ord_id ord < m"
  obtains ls f r where
    "add_order_dispatcher sd p ob = Inr ((set_levels sd ls ob)\<lparr>ob_try_match_flag := f, ob_order_registry := r\<rparr>)"
    "tidy (insert (ord_price ord) S) m sd ls" "orders_in ls = Suc (orders_in (levels_of sd ob))"
    "first_at sd (ord_price ord) (levels_of sd ob) \<longrightarrow>
       f \<and> ls = (ord_price ord, lone_level (ord_price ord) p (ord_id ord)) # levels_of sd ob"
proof (cases "map_find (side_lt sd) (ord_price ord) (levels_of sd ob)")
  case (Some x)
  obtain k lv where x: "x = (k, lv)" by fastforce
  have sorted: "map_sorted (side_lt sd) (levels_of sd ob)" and nums: "\<And>y. y \<in> fst ` set (levels_of sd ob) \<Longrightarrow> \<not> is_nan y"
    using tidy by (auto simp: tidy_def)
  obtain as bs where ls: "levels_of sd ob = as @ (k, lv) # bs" "equivalent (side_lt sd) k (ord_price ord)"
      "\<And>w. map_try_emplace (side_lt sd) (ord_price ord) w (levels_of sd ob) = (False, levels_of sd ob)"
    using strict_weak_order.find_split [OF side_order Some [unfolded x] sorted nn nums] by metis
  have k: "aged (ord_id ord) lv" "\<not> is_nan k" using tidy by (auto simp: tidy_def ls(1))
  obtain lv' where lv: "level_add_order (store ob) p lv = Inr lv'" "level_size lv' = Suc (level_size lv)" "aged m lv'"
    using level_add_aged [of "store ob" p ord lv] st k(1) m by metis
  have "map_write (side_lt sd) k lv' (levels_of sd ob) = as @ (k, lv') # bs"
    using strict_weak_order.find_middle(2) [OF side_order sorted [unfolded ls(1)] k(2,2)] nums
      strict_weak_order.lt_irrefl [OF side_order k(2)] unfolding ls(1) by auto
  then have "add_order_dispatcher sd p ob = Inr ((set_levels sd (as @ (k, lv') # bs) ob)\<lparr>ob_try_match_flag := False,
      ob_order_registry := AList.update (ord_id ord) p (ob_order_registry ob)\<rparr>)"
    using st nn ls(3) Some x lv(1) by (simp add: add_order_dispatcher_def emplace_level_def level_at_def assert_or_def)
  moreover have "tidy (insert (ord_price ord) S) m sd (as @ (k, lv') # bs)"
    using tidy_mono [OF tidy_write [OF tidy [unfolded ls(1)] lv(3) less_imp_le [OF m]] _ order_refl] by blast
  moreover have "\<not> first_at sd (ord_price ord) (levels_of sd ob)" using ls(1,2) by (auto simp: first_at_def)
  ultimately show ?thesis using that lv(2) ls(1) by simp
next
  case None
  let ?lone = "lone_level (ord_price ord) p (ord_id ord)"
  have sorted: "map_sorted (side_lt sd) (levels_of sd ob)" and nums: "\<And>y. y \<in> fst ` set (levels_of sd ob) \<Longrightarrow> \<not> is_nan y"
    using tidy by (auto simp: tidy_def)
  obtain as bs where ls: "levels_of sd ob = as @ bs"
      "\<And>v. map_try_emplace (side_lt sd) (ord_price ord) v (levels_of sd ob) = (True, as @ (ord_price ord, v) # bs)"
      "\<And>v. map_sorted (side_lt sd) (as @ (ord_price ord, v) # bs)"
    using strict_weak_order.emplace_split [OF side_order None sorted nn nums] by metis
  have "\<And>y. y \<in> fst ` set as \<Longrightarrow> \<not> is_nan y" using nums ls(1) by auto
  note emplaced = strict_weak_order.find_emplaced [OF side_order ls(3) nn this]
  have "add_order_dispatcher sd p ob = Inr ((set_levels sd (as @ (ord_price ord, ?lone) # bs) ob)\<lparr>ob_try_match_flag := True,
      ob_order_registry := AList.update (ord_id ord) p (ob_order_registry ob)\<rparr>)"
    using st nn ls(2) level_add_lone [of "store ob" p ord "ord_price ord"]
    by (simp add: emplaced add_order_dispatcher_def emplace_level_def level_at_def assert_or_def)
  moreover have "tidy (insert (ord_price ord) S) m sd (as @ (ord_price ord, ?lone) # bs)"
    using tidy_mono [OF tidy subset_insertI less_imp_le [OF m]] ls(1,3) nn m by (auto simp: tidy_def aged_def lone_level_def)
  moreover have "orders_in (as @ (ord_price ord, ?lone) # bs) = Suc (orders_in (levels_of sd ob))"
    by (simp add: ls(1) level_size_def lone_level_def)
  moreover have "as = []" if "first_at sd (ord_price ord) (levels_of sd ob)"
  proof (rule ccontr)
    assume "as \<noteq> []"
    then obtain k lv as' where as: "as = (k, lv) # as'" by (cases as) auto
    then have "side_lt sd k (ord_price ord)" using ls(3) by (simp add: map_sorted_def)
    moreover have "side_lt sd (ord_price ord) k" "\<not> is_nan k" using that nums ls(1) as by (auto simp: first_at_def)
    ultimately show False using strict_weak_order.lt_asym [OF side_order _ nn] by metis
  qed
  ultimately show ?thesis using that ls(1) by (metis append_Nil)
qed

section \<open>Matching\<close>

definition apart :: "price set \<Rightarrow> price set \<Rightarrow> bool" where
  "apart B A \<longleftrightarrow> (\<forall>b \<in> B. \<forall>a \<in> A. \<not> b \<ge> a)"

lemma step_apart:
  assumes "tidy B n BUY (ob_bids ob)" "tidy A n SELL (ob_asks ob)" "apart B A"
  shows "\<exists>f. try_match_step (w, ob) = Inr (Stop (w, ob\<lparr>ob_try_match_flag := f\<rparr>))"
proof (cases "ob_bids ob = [] \<or> ob_asks ob = []")
  case True
  then show ?thesis
    by (intro exI [of _ "ob_try_match_flag ob"]) (auto simp: try_match_step_def split: list.split)
next
  case False
  then obtain b bl bs a al as where heads: "ob_bids ob = (b, bl) # bs" "ob_asks ob = (a, al) # as"
    by (metis neq_Nil_conv surj_pair)
  then have "\<not> b \<ge> a" using assms by (auto simp: tidy_def apart_def)
  then show ?thesis by (intro exI [of _ False]) (simp add: try_match_step_def heads)
qed

lemma try_match_apart:
  assumes "tidy B n BUY (ob_bids ob)" "tidy A n SELL (ob_asks ob)" "apart B A"
  shows "\<exists>f. try_match (w, ob) = Inr (False, w, ob\<lparr>ob_try_match_flag := f\<rparr>)"
proof (cases "ob_try_match_flag ob")
  case False
  then show ?thesis by (intro exI [of _ False]) (simp add: try_match_def)
next
  case True
  then show ?thesis using step_apart [OF assms, of w] by (auto simp: try_match_def try_match_loop.simps)
qed

section \<open>An order that crosses nothing\<close>

text \<open>A book that takes \<open>k\<close> more orders, with prices in \<open>B\<close> and \<open>A\<close>.\<close>

definition calm :: "price set \<Rightarrow> price set \<Rightarrow> nat \<Rightarrow> nat \<Rightarrow> orderbook \<Rightarrow> bool" where
  "calm B A c k ob \<longleftrightarrow> stocked c ob \<and> ids_for k ob \<and> tidy B (ob_next_available_order_id ob) BUY (ob_bids ob) \<and>
     tidy A (ob_next_available_order_id ob) SELL (ob_asks ob)"

definition widened :: "order_side \<Rightarrow> order_side \<Rightarrow> price \<Rightarrow> price set \<Rightarrow> price set" where
  "widened sd sd' p S = (if sd = sd' then insert p S else S)"

text \<open>What \<open>add_order\<close> has come to before it matches.\<close>

definition entered_at :: "order \<Rightarrow> order_id \<Rightarrow> order_ptr \<Rightarrow> order \<Rightarrow> orderbook \<Rightarrow> orderbook \<Rightarrow> bool" where
  "entered_at client i p ord ob ob2 \<longleftrightarrow> store ob2 p = Some ord \<and> ord_id ord = i \<and> ord_quantity ord = ord_quantity client \<and>
     ord_quantity_filled ord = 0 \<and> ob_trades_completed ob2 = ob_trades_completed ob \<and>
     ob_next_available_order_id ob2 = ob_next_available_order_id ob + 1 \<and>
     pool_length ob2 = grown (ptr_index p) (pool_length ob) \<and> ptr_block p = pool_block (ob_order_pool ob2) \<and>
     orders_in (levels_of (ord_side client) ob2) = Suc (orders_in (levels_of (ord_side client) ob)) \<and>
     levels_of (opposite (ord_side client)) ob2 = levels_of (opposite (ord_side client)) ob \<and>
     (first_at (ord_side client) (ord_price client) (levels_of (ord_side client) ob) \<longrightarrow> ob_try_match_flag ob2 \<and>
        levels_of (ord_side client) ob2 = (ord_price client, lone_level (ord_price client) p i) # levels_of (ord_side client) ob) \<and>
     slots_after p ob (store ob2)"

lemma add_order_enters_level:
  assumes calm: "calm B A c (Suc k) ob" and nn: "\<not> is_nan (ord_price client)"
  obtains i p ord w1 ob2 where "entered_at client i p ord ob ob2" "ptr_index p = c"
    "calm (widened (ord_side client) BUY (ord_price client) B) (widened (ord_side client) SELL (ord_price client) A) (Suc c) k ob2"
    "add_order client (w, ob) = rbind (try_match (w1, ob2)) (\<lambda>(_, w2, ob3). Inr (i, w2, ob3))"
proof -
  let ?n = "ob_next_available_order_id ob" and ?sd = "ord_side client"
  have stock: "stocked c ob" and ids: "ids_for (Suc k) ob" and tidy: "tidy B ?n BUY (ob_bids ob)" "tidy A ?n SELL (ob_asks ob)"
    using calm by (simp_all add: calm_def)
  obtain p ord w1 ob1 where r: "received client ob p ord ob1" "p = Slot (pool_block (ob_order_pool ob1)) c" "stocked (Suc c) ob1" "ids_for k ob1"
    "add_order client (w, ob) = rbind (add_order_dispatcher ?sd p ob1) (\<lambda>ob2.
       rbind (try_match (w1, ob2)) (\<lambda>(_, w2, ob3). Inr (?n, w2, ob3)))"
    by (rule add_order_receives [OF stock ids])
  have ord: "store ob1 p = Some ord" "ord_id ord = ?n" "ord_price ord = ord_price client" and next_id: "ob_next_available_order_id ob1 = ?n + 1"
    and same: "ob_bids ob1 = ob_bids ob" "ob_asks ob1 = ob_asks ob" using r(1) by (simp_all add: received_def)
  have later: "?n < ?n + 1" using get_order_id_next(2) [OF ids] by (simp add: word_less_nat_alt)
  have tidy_sd: "tidy (if ?sd = BUY then B else A) (ord_id ord) ?sd (levels_of ?sd ob1)"
    using tidy same ord(2) by (cases ?sd) simp_all
  obtain ls f g where d: "add_order_dispatcher ?sd p ob1 = Inr ((set_levels ?sd ls ob1)\<lparr>ob_try_match_flag := f, ob_order_registry := g\<rparr>)"
      "tidy (insert (ord_price ord) (if ?sd = BUY then B else A)) (?n + 1) ?sd ls" "orders_in ls = Suc (orders_in (levels_of ?sd ob1))"
      "first_at ?sd (ord_price ord) (levels_of ?sd ob1) \<longrightarrow>
         f \<and> ls = (ord_price ord, lone_level (ord_price ord) p (ord_id ord)) # levels_of ?sd ob1"
    by (rule dispatch_tidy [OF ord(1) _ tidy_sd, of "?n + 1"]) (use nn ord later in simp_all)
  let ?ob2 = "(set_levels ?sd ls ob1)\<lparr>ob_try_match_flag := f, ob_order_registry := g\<rparr>"
  have frame: "ob_order_pool ?ob2 = ob_order_pool ob1" "ob_trades_completed ?ob2 = ob_trades_completed ob1"
      "ob_next_available_order_id ?ob2 = ?n + 1" "ob_order_id_block ?ob2 = ob_order_id_block ob1"
      "levels_of ?sd ?ob2 = ls" "levels_of (opposite ?sd) ?ob2 = levels_of (opposite ?sd) ob1"
    using next_id by (cases ?sd; simp)+
  have p: "ptr_index p = c" "ptr_block p = pool_block (ob_order_pool ob1)" using r(2) by simp_all
  have "entered_at client ?n p ord ob ?ob2"
    using r(1) p(2) d(3,4) same frame unfolding entered_at_def received_def by (cases ?sd) simp_all
  moreover have "calm (widened ?sd BUY (ord_price client) B) (widened ?sd SELL (ord_price client) A) (Suc c) k ?ob2"
    using r(3,4) d(2) tidy_mono [OF tidy(1) subset_refl less_imp_le [OF later]] tidy_mono [OF tidy(2) subset_refl less_imp_le [OF later]]
      same next_id ord(3) unfolding calm_def stocked_def ids_for_def widened_def by (cases ?sd) simp_all
  moreover have "add_order client (w, ob) = rbind (try_match (w1, ?ob2)) (\<lambda>(_, w2, ob3). Inr (?n, w2, ob3))"
    unfolding r(5) d(1) rbind_Inr ..
  ultimately show ?thesis using that p(1) by blast
qed

lemma add_apart:
  assumes calm: "calm B A c (Suc k) ob" and nn: "\<not> is_nan (ord_price client)"
    and apart: "apart (widened (ord_side client) BUY (ord_price client) B) (widened (ord_side client) SELL (ord_price client) A)"
  obtains i p ord w' ob' where "add_order client (w, ob) = Inr (i, w', ob')" "entered_at client i p ord ob (ob'\<lparr>ob_try_match_flag := True\<rparr>)"
    "ptr_index p = c" "calm (widened (ord_side client) BUY (ord_price client) B) (widened (ord_side client) SELL (ord_price client) A) (Suc c) k ob'"
proof -
  obtain i p ord w1 ob2 where e: "entered_at client i p ord ob ob2" "ptr_index p = c"
    "calm (widened (ord_side client) BUY (ord_price client) B) (widened (ord_side client) SELL (ord_price client) A) (Suc c) k ob2"
    "add_order client (w, ob) = rbind (try_match (w1, ob2)) (\<lambda>(_, w2, ob3). Inr (i, w2, ob3))"
    by (rule add_order_enters_level [OF calm nn])
  obtain f where f: "try_match (w1, ob2) = Inr (False, w1, ob2\<lparr>ob_try_match_flag := f\<rparr>)"
    using try_match_apart [OF _ _ apart, of "ob_next_available_order_id ob2" ob2 w1] e(3) unfolding calm_def by blast
  have "entered_at client i p ord ob ((ob2\<lparr>ob_try_match_flag := f\<rparr>)\<lparr>ob_try_match_flag := True\<rparr>)"
    using e(1) unfolding entered_at_def by (cases "ord_side client") simp_all
  moreover have "calm (widened (ord_side client) BUY (ord_price client) B) (widened (ord_side client) SELL (ord_price client) A) (Suc c) k (ob2\<lparr>ob_try_match_flag := f\<rparr>)"
    using e(3) by (simp add: calm_def stocked_def ids_for_def)
  ultimately show ?thesis using that e(2,4) f by simp
qed

section \<open>An order that meets its like\<close>

lemma match_at_fills:
  assumes "store ob p = Some ord" "ord_quantity_filled ord = 0"
  obtains ord' where "match_at p (ord_quantity ord) (w, ob) = Inr (wtick w, write_order p ord' ob)"
    "ord_id ord' = ord_id ord" "ord_status ord' = FULLY_FILLED"
  using assms by (simp add: match_at_def match_order_def Let_def)

lemma store_write: "store ob p = Some old \<Longrightarrow> store (write_order p ord ob) = (store ob)(p \<mapsto> ord)"
  by (simp add: write_order_def pool_store_write)

lemma pop_lone:
  assumes "h p = Some ord" "ord_id ord = i" "ord_status ord = FULLY_FILLED"
  obtains lv where "pop_front_order_if_filled h (lone_level k p i) = Inr lv" "level_empty lv"
  using assms by (simp add: pop_front_order_if_filled_def lone_level_def level_empty_def increment_to_valid_def new_order_entry_def assert_or_def)

lemma remove_lone:
  assumes "level_empty lv" "\<not> is_nan k"
  shows "remove_price_level_if_empty sd k (map_write (side_lt sd) k lv ((k, old) # ls)) = Inr ls"
  using assms strict_weak_order.lt_irrefl [OF side_order assms(2)]
  by (simp add: remove_price_level_if_empty_def level_at_def assert_or_def)

lemma step_lone:
  assumes bids: "ob_bids ob = (b, lone_level b q j) # bs" "store ob q = Some bid" "ord_id bid = j" "ord_quantity_filled bid = 0"
    and asks: "ob_asks ob = (a, lone_level a p i) # as" "store ob p = Some ask" "ord_id ask = i" "ord_quantity_filled ask = 0"
    and meet: "q \<noteq> p" "ord_quantity bid = ord_quantity ask" "b \<ge> a" "\<not> is_nan a" "\<not> is_nan b"
  obtains bid' ask' where "try_match_step (w, ob) = Inr (Continue (wtick (wtick w),
    (write_order p ask' (write_order q bid' (ob\<lparr>ob_trades_completed := ob_trades_completed ob + 1\<rparr>)))\<lparr>ob_bids := bs, ob_asks := as\<rparr>))"
proof -
  let ?ob0 = "ob\<lparr>ob_trades_completed := ob_trades_completed ob + 1\<rparr>"
  have fronts: "level_front (lone_level b q j) = Inr q" "level_front (lone_level a p i) = Inr p"
    by (simp_all add: level_front_def lone_level_def new_order_entry_def assert_or_def)
  obtain bid' where bid': "match_at q (ord_quantity bid) (w, ?ob0) = Inr (wtick w, write_order q bid' ?ob0)" "ord_id bid' = j" "ord_status bid' = FULLY_FILLED"
    using match_at_fills [of ?ob0 q bid w] bids(2-4) by auto
  let ?ob1 = "write_order q bid' ?ob0"
  have st1: "store ?ob1 = (store ob)(q \<mapsto> bid')" using store_write [of ?ob0 q bid bid'] bids(2) by simp
  obtain ask' where ask': "match_at p (ord_quantity ask) (wtick w, ?ob1) = Inr (wtick (wtick w), write_order p ask' ?ob1)" "ord_id ask' = i" "ord_status ask' = FULLY_FILLED"
    using match_at_fills [of ?ob1 p ask "wtick w"] asks(2-4) meet(1) st1 by auto
  let ?ob2 = "write_order p ask' ?ob1"
  have st2: "store ?ob2 = (store ob)(q \<mapsto> bid', p \<mapsto> ask')" using store_write [of ?ob1 p ask ask'] asks(2) meet(1) st1 by simp
  have "match_orders q p (w, ?ob0) = Inr (wtick (wtick w), ?ob2)"
    using bids(2,4) asks(2,4) bid'(1) ask'(1) meet(2) by (simp add: match_orders_def available_def)
  moreover obtain bl where "pop_front_order_if_filled (store ?ob2) (lone_level b q j) = Inr bl" "level_empty bl"
    using pop_lone [of "store ?ob2" q bid' j b] bid'(2,3) meet(1) st2 by auto
  moreover obtain al where "pop_front_order_if_filled (store ?ob2) (lone_level a p i) = Inr al" "level_empty al"
    using pop_lone [of "store ?ob2" p ask' i a] ask'(2,3) st2 by auto
  ultimately have "try_match_step (w, ob) = Inr (Continue (wtick (wtick w), ?ob2\<lparr>ob_bids := bs, ob_asks := as\<rparr>))"
    using bids(1) asks(1) fronts meet(3-5) remove_lone [of bl b BUY "lone_level b q j" bs] remove_lone [of al a SELL "lone_level a p i" as]
    by (simp add: try_match_step_def write_order_def)
  then show ?thesis by (rule that)
qed

lemma stocked_write: "stocked c ob \<Longrightarrow> ptr_index p < c \<Longrightarrow> stocked c (write_order p ord ob)"
  by (simp add: stocked_def write_order_def pool_write_def nth_list_update)

text \<open>
  An offer meets a bid of its size, alone at the best price: both are filled and gone. The bid is still
  where it was, since the pool has room for the offer.
\<close>

lemma add_meets:
  assumes calm: "calm (insert b B) A c (Suc k) ob" and sd: "ord_side client = SELL" and room: "c < pool_length ob"
    and bid: "ob_bids ob = (b, lone_level b q j) # bs" "store ob q = Some bid" "ord_id bid = j" "ord_quantity_filled bid = 0"
      "ord_quantity bid = ord_quantity client" "ptr_index q < c" "tidy B (ob_next_available_order_id ob) BUY bs"
    and price: "first_at SELL (ord_price client) (ob_asks ob)" "b \<ge> ord_price client" "\<not> is_nan b" "\<not> is_nan (ord_price client)"
    and apart: "apart B A"
  obtains i w' ob' where "add_order client (w, ob) = Inr (i, w', ob')" "calm B A (Suc c) k ob'" "ob_bids ob' = bs" "ob_asks ob' = ob_asks ob"
    "ob_trades_completed ob' = ob_trades_completed ob + 1" "pool_length ob' = pool_length ob"
proof -
  let ?n = "ob_next_available_order_id ob"
  obtain i p ord w1 ob2 where e: "entered_at client i p ord ob ob2" "ptr_index p = c"
    and calm2: "calm (widened SELL BUY (ord_price client) (insert b B)) (widened SELL SELL (ord_price client) A) (Suc c) k ob2"
    and add: "add_order client (w, ob) = rbind (try_match (w1, ob2)) (\<lambda>(_, w2, ob3). Inr (i, w2, ob3))"
    by (rule add_order_enters_level [OF calm price(4), unfolded sd])
  have 2: "ob_asks ob2 = (ord_price client, lone_level (ord_price client) p i) # ob_asks ob" "ob_bids ob2 = ob_bids ob"
      "ob_try_match_flag ob2" "store ob2 q = store ob q" "store ob2 p = Some ord" "ord_id ord = i" "ord_quantity_filled ord = 0"
      "ord_quantity ord = ord_quantity client" "ob_trades_completed ob2 = ob_trades_completed ob" "pool_length ob2 = pool_length ob"
    using e price(1) bid(6) room unfolding entered_at_def sd by (auto simp: grown_def slots_after_def)
  obtain bid' ord' where s: "try_match_step (w1, ob2) = Inr (Continue (wtick (wtick w1),
    (write_order p ord' (write_order q bid' (ob2\<lparr>ob_trades_completed := ob_trades_completed ob2 + 1\<rparr>)))\<lparr>ob_bids := bs, ob_asks := ob_asks ob\<rparr>))"
    by (rule step_lone [of ob2 b q j bs bid "ord_price client" p i "ob_asks ob" ord w1])
      (use 2 bid e(2) price in auto)
  let ?ob3 = "(write_order p ord' (write_order q bid' (ob2\<lparr>ob_trades_completed := ob_trades_completed ob2 + 1\<rparr>)))\<lparr>ob_bids := bs, ob_asks := ob_asks ob\<rparr>"
  have id: "ob_next_available_order_id ob2 = ?n + 1" using e(1) by (simp add: entered_at_def)
  have "?n < ?n + 1" using get_order_id_next(2) [of k ob] calm by (simp add: calm_def word_less_nat_alt)
  then have "tidy B (?n + 1) BUY bs" "tidy A (?n + 1) SELL (ob_asks ob)"
    using bid(7) calm tidy_mono [OF _ subset_refl less_imp_le] by (auto simp: calm_def)
  moreover have "stocked (Suc c) ?ob3"
  proof -
    have "stocked (Suc c) (ob2\<lparr>ob_trades_completed := ob_trades_completed ob2 + 1\<rparr>)" using calm2 by (simp add: calm_def stocked_def)
    then have "stocked (Suc c) (write_order p ord' (write_order q bid' (ob2\<lparr>ob_trades_completed := ob_trades_completed ob2 + 1\<rparr>)))"
      using bid(6) e(2) by (intro stocked_write) simp_all
    then show ?thesis by (simp add: stocked_def)
  qed
  ultimately have calm3: "calm B A (Suc c) k ?ob3" using calm2 id by (simp add: calm_def ids_for_def write_order_def)
  obtain f where "try_match_step (wtick (wtick w1), ?ob3) = Inr (Stop (wtick (wtick w1), ?ob3\<lparr>ob_try_match_flag := f\<rparr>))"
    using step_apart [OF _ _ apart, of "?n + 1" ?ob3 "wtick (wtick w1)"] calm3 id unfolding calm_def by (auto simp: write_order_def)
  then have "try_match (w1, ob2) = Inr (True, wtick (wtick w1), ?ob3\<lparr>ob_try_match_flag := f\<rparr>)"
    using s 2(3) by (simp add: try_match_def try_match_loop.simps [of False] try_match_loop.simps [of True])
  then have "add_order client (w, ob) = Inr (i, wtick (wtick w1), ?ob3\<lparr>ob_try_match_flag := f\<rparr>)" using add by simp
  then show ?thesis
    by (rule that) (use calm3 2(9,10) in \<open>simp_all add: calm_def stocked_def ids_for_def write_order_def\<close>)
qed

text \<open>If the pool grows for the offer, the bid has moved, and the level still points at where it was.\<close>

lemma add_dangles:
  assumes calm: "calm B A c (Suc k) ob" and sd: "ord_side client = SELL" and full: "c = pool_length ob"
    and bid: "ob_bids ob = (b, lone_level b q j) # bs" "store ob q = Some bid" "ptr_index q < c"
    and price: "first_at SELL (ord_price client) (ob_asks ob)" "b \<ge> ord_price client" "\<not> is_nan (ord_price client)"
  shows "add_order client (w, ob) = Inl (Undefined DanglingPointer)"
proof -
  obtain i p ord w1 ob2 where e: "entered_at client i p ord ob ob2" "ptr_index p = c"
    and add: "add_order client (w, ob) = rbind (try_match (w1, ob2)) (\<lambda>(_, w2, ob3). Inr (i, w2, ob3))"
    by (rule add_order_enters_level [OF calm price(3), unfolded sd])
  have "ptr_block q = pool_block (ob_order_pool ob)" using bid(2) by (auto simp: pool_store_def split: if_splits)
  moreover have "q \<noteq> p" using bid(3) e(2) by auto
  ultimately have 2: "ob_asks ob2 = (ord_price client, lone_level (ord_price client) p i) # ob_asks ob" "ob_bids ob2 = ob_bids ob"
      "ob_try_match_flag ob2" "store ob2 q = None"
    using e price(1) bid(3) full unfolding entered_at_def sd by (auto simp: slots_after_def)
  have "level_front (lone_level b q j) = Inr q" "level_front (lone_level (ord_price client) p i) = Inr p"
    by (simp_all add: level_front_def lone_level_def new_order_entry_def assert_or_def)
  then have "try_match_step (w1, ob2) = Inl (Undefined DanglingPointer)"
    using 2 bid(1) price(2) by (simp add: try_match_step_def match_orders_def)
  then show ?thesis using add 2(3) by (simp add: try_match_def try_match_loop.simps)
qed

end
