(* ===== verification/Book_Requeue.thy ===== *)
theory Book_Requeue
  imports Book_Growth
begin

text \<open>
  What follows when a lone order's quantity is increased at its price (\<open>Book_Limits.lone_increase_breaks\<close>).
  The head of its level is then a dead entry that points at the order, in front of the valid one. As soon
  as another order is queued at the level, filling the first one pops it twice, and the second pop erases
  its id through \<open>end()\<close>. The book's invariant is gone by then, so these lemmas follow the code on what
  is left of it: the orders in the pool (\<open>orders_inv\<close>), and the first level of either side.
\<close>

section \<open>A level whose head is dead\<close>

lemma dead_head_add:
  assumes dead: "dead_head p i lv" and q: "h q = Some ord" "ord_id ord \<noteq> i"
  shows "\<exists>lv'. level_add_order h q lv = Inr lv' \<and> dead_head p i lv' \<and> ord_id ord \<in> fst ` set (lvl_orders_map lv')"
proof -
  let ?es = "lvl_order_entries lv @ [new_order_entry q]" and ?m = "AList.update (ord_id ord) (length (lvl_order_entries lv)) (lvl_orders_map lv)"
  have add: "level_add_order h q lv = Inr (lv\<lparr>lvl_order_entries := ?es, lvl_orders_map := ?m\<rparr>)"
    using q(1) by (simp add: level_add_order_def Let_def)
  have keys: "fst ` set ?m = insert (ord_id ord) (fst ` set (lvl_orders_map lv))" by (simp add: dom_update)
  obtain m where m: "m < length (lvl_order_entries lv)" "lvl_queue_head_index lv < m"
      "ent_order (lvl_order_entries lv ! lvl_queue_head_index lv) = p" "lvl_order_entries lv ! m = new_order_entry p"
      "\<forall>j. lvl_queue_head_index lv \<le> j \<and> j < m \<longrightarrow> \<not> ent_is_valid (lvl_order_entries lv ! j)" "i \<in> fst ` set (lvl_orders_map lv)"
    using dead by (auto simp: dead_head_def)
  have "dead_head p i (lv\<lparr>lvl_order_entries := ?es, lvl_orders_map := ?m\<rparr>)"
    unfolding dead_head_def using m keys by (auto simp: nth_append intro!: exI [of _ m])
  then show ?thesis using add keys by simp
qed

lemma dead_head_front: "dead_head p i lv \<Longrightarrow> level_front lv = Inr p"
  by (auto simp: dead_head_def level_front_def assert_or_def)

text \<open>The first pop moves the head to the valid entry of the same order, whose id is no longer in the map.\<close>

lemma dead_head_pop:
  assumes dead: "dead_head p i lv" and p: "h p = Some ord" "ord_id ord = i" "ord_status ord = FULLY_FILLED"
    and j: "j \<in> fst ` set (lvl_orders_map lv)" "j \<noteq> i"
  obtains lv' where "pop_front_order_if_filled h lv = Inr lv'" "\<not> level_empty lv'" "level_front lv' = Inr p"
    "\<forall>h' ord'. h' p = Some ord' \<and> ord_id ord' = i \<and> ord_status ord' = FULLY_FILLED \<longrightarrow>
       pop_front_order_if_filled h' lv' = Inl (Undefined EndIterator)"
proof -
  let ?n = "lvl_queue_head_index lv" and ?es = "lvl_order_entries lv" and ?map = "AList.delete i (lvl_orders_map lv)"
  obtain m where m: "m < length ?es" "?n < m" "ent_order (?es ! ?n) = p" "?es ! m = new_order_entry p"
      "\<And>j. ?n \<le> j \<Longrightarrow> j < m \<Longrightarrow> \<not> ent_is_valid (?es ! j)" "i \<in> fst ` set (lvl_orders_map lv)"
    using dead by (auto simp: dead_head_def)
  let ?es' = "?es[?n := (?es ! ?n)\<lparr>ent_is_valid := False\<rparr>]"
  obtain k where k: "skip_invalid ?es' ?n = Inr k" "?n \<le> k" "k < length ?es'" "ent_is_valid (?es' ! k)"
      "\<And>n. ?n \<le> n \<Longrightarrow> n < k \<Longrightarrow> \<not> ent_is_valid (?es' ! n)"
    using skip_invalid_finds [of ?n m ?es'] m(1,2,4) by (auto simp: new_order_entry_def)
  have valid: "ent_is_valid (?es' ! m)" using m(1,2,4) by (simp add: new_order_entry_def)
  have "\<not> ent_is_valid (?es' ! n)" if "?n \<le> n" "n < m" for n using that m(1,2,5) by (cases "n = ?n") simp_all
  then have km: "k = m" using k(2,4,5) valid m(2) by (metis less_imp_le linorder_neqE_nat)
  have keys: "fst ` set ?map = fst ` set (lvl_orders_map lv) - {i}" by (auto simp: AList.delete_eq)
  then have ne: "?map \<noteq> []" "map_of ?map i = None" using j by (auto simp: map_of_eq_None_iff)
  have "map_of (lvl_orders_map lv) i \<noteq> None" "\<not> level_empty lv" using m(6) by (auto simp: map_of_eq_None_iff level_empty_def)
  moreover have "?n < length ?es" using m(1,2) by simp
  ultimately have pop: "pop_front_order_if_filled h lv =
      Inr (lv\<lparr>lvl_orders_map := ?map, lvl_order_entries := ?es', lvl_queue_head_index := m\<rparr>)"
    using p m(3) ne(1) k(1) km
    by (simp add: pop_front_order_if_filled_def Let_def assert_or_def increment_to_valid_def level_empty_def)
  have front: "m < length ?es'" "ent_order (?es' ! m) = p" using m by (simp_all add: new_order_entry_def)
  show ?thesis
  proof (rule that [OF pop])
    show "\<forall>h' ord'. h' p = Some ord' \<and> ord_id ord' = i \<and> ord_status ord' = FULLY_FILLED \<longrightarrow>
        pop_front_order_if_filled h' (lv\<lparr>lvl_orders_map := ?map, lvl_order_entries := ?es', lvl_queue_head_index := m\<rparr>) =
        Inl (Undefined EndIterator)"
      using front ne by (simp add: pop_front_order_if_filled_def Let_def assert_or_def level_empty_def)
  qed (use front ne in \<open>simp_all add: level_empty_def level_front_def assert_or_def\<close>)
qed

lemma pop_lone_unfilled:
  "h p = Some ord \<Longrightarrow> ord_status ord \<noteq> FULLY_FILLED \<Longrightarrow> pop_front_order_if_filled h (lone_level k p i) = Inr (lone_level k p i)"
  by (simp add: pop_front_order_if_filled_def lone_level_def level_empty_def new_order_entry_def assert_or_def)

lemma lone_level_simps [simp]: "level_front (lone_level k p i) = Inr p" "\<not> level_empty (lone_level k p i)"
  by (simp_all add: level_front_def lone_level_def new_order_entry_def assert_or_def level_empty_def)

section \<open>Adding an order, on the orders' invariant alone\<close>

lemma add_order_slot:
  assumes oi: "orders_inv ob" and room: "pool_room (ob_order_pool ob)" and ids: "ids_ok w ob" "ids_room w ob"
  obtains i p ord w1 ob1 where
    "add_order client (w, ob) = rbind (add_order_dispatcher (ord_side client) p ob1) (\<lambda>ob2.
       rbind (try_match (w1, ob2)) (\<lambda>(_, w2, ob3). Inr (i, w2, ob3)))"
    "accepted ord client i" "orders ob p = None" "orders ob1 = (orders ob)(p \<mapsto> ord)" "\<forall>sd. levels_of sd ob1 = levels_of sd ob"
    "orders_inv (ob1\<lparr>ob_order_registry := AList.update i p (ob_order_registry ob1)\<rparr>)"
    "\<forall>q o'. orders ob q = Some o' \<longrightarrow> ord_id o' \<noteq> i"
proof -
  let ?pool = "ob_order_pool ob"
  let ?p = "Slot (pool_block ?pool) (pool_next_free_index ?pool)"
  let ?pool' = "?pool\<lparr>pool_next_free_index := Suc (pool_next_free_index ?pool)\<rparr>"
  let ?slot = "pool_orders ?pool ! pool_next_free_index ?pool" and ?ob0 = "ob\<lparr>ob_order_pool := ?pool'\<rparr>"
  have pr: "pristine ?pool" using oi by (simp add: orders_inv_def)
  note slot = next_slot [OF pr room]
  obtain i w1 ob1 where g: "get_order_id w ?ob0 = (i, w1, ob1)" by (cases "get_order_id w ?ob0") auto
  have "ids_ok w ?ob0" "ids_room w ?ob0" using ids by (simp_all add: ids_ok_def ids_room_def)
  note id = get_order_id_fresh [OF this g]
  let ?ord = "copy_from_client ?slot client i" and ?ob2 = "write_order ?p (copy_from_client ?slot client i) ob1"
  note ord = copy_from_client_new [OF slot(5,6), of client i]
  have o2: "orders ?ob2 = (orders ob)(?p \<mapsto> ?ord)" using slot(3) id(5) by (simp add: write_order_def)
  have older: "ord_id o' < i" if "orders ob q = Some o'" for q o'
    using that oi id(1) by (auto simp: orders_inv_def intro: less_le_trans)
  have "held ?pool' ?p = Some ?slot" using slot(4) by (simp add: held_def)
  then have "pristine (ob_order_pool ?ob2)" using pristine_write [OF slot(2)] id(5) by (simp add: write_order_def)
  moreover have "registry_ok (orders ?ob2) (AList.update i ?p (ob_order_registry ?ob2))"
    using registry_ok_new [of "orders ob" "ob_order_registry ob" ?p ?ord] oi slot(1) older ord(3) o2 id(6)
    by (force simp: orders_inv_def write_order_def)
  moreover have "order_wf o' \<and> ord_id o' < ob_next_available_order_id ob1" if "orders ?ob2 q = Some o'" for q o'
    using that oi id(2) older ord(1,3) unfolding o2 orders_inv_def by (fastforce split: if_splits)
  ultimately have "orders_inv (?ob2\<lparr>ob_order_registry := AList.update i ?p (ob_order_registry ?ob2)\<rparr>)"
    by (simp add: orders_inv_def write_order_def)
  moreover have "add_order client (w, ob) = rbind (add_order_dispatcher (ord_side client) ?p ?ob2) (\<lambda>ob2.
      rbind (try_match (w1, ob2)) (\<lambda>(_, w2, ob3). Inr (i, w2, ob3)))"
    using allocate_room [OF room] g slot(4) id(5) ord(4) by (simp add: add_order_def Let_def)
  moreover have "accepted ?ord client i" using ord by (simp add: accepted_def)
  moreover have "levels_of sd ?ob2 = levels_of sd ob" for sd using id(7) by simp
  moreover have "ord_id o' \<noteq> i" if "orders ob q = Some o'" for q o' using older [OF that] by blast
  ultimately show ?thesis using that [of ?p ?ob2] slot(1) o2 by blast
qed

section \<open>A book whose best level has a dead head\<close>

text \<open>
  The order at \<open>p\<close> is the one behind the dead head of the best level of \<open>sd\<close>, and no order of the other side meets its
  price; \<open>crowd\<close> says that another order is queued at the level.
\<close>

definition stuck :: "bool \<Rightarrow> order_side \<Rightarrow> order_ptr \<Rightarrow> order \<Rightarrow> price \<Rightarrow> orderbook \<Rightarrow> bool" where
  "stuck crowd sd p ord np ob \<longleftrightarrow> orders_inv ob \<and> orders ob p = Some ord \<and>
     (\<exists>k lv ls. levels_of sd ob = (k, lv) # ls \<and> dbl_eq np k \<and> dead_head p (ord_id ord) lv \<and>
        (crowd \<longrightarrow> (\<exists>j \<in> fst ` set (lvl_orders_map lv). j \<noteq> ord_id ord))) \<and>
     (case levels_of (opposite sd) ob of [] \<Rightarrow> True | (a, _) # _ \<Rightarrow> \<not> is_nan a \<and> \<not> meets sd np a)"

lemma stuck_crowds:
  assumes stuck: "stuck crowd sd p ord np ob" and adm: "admissible (Add client) (w, ob)" "ids_ok w ob"
    and client: "ord_side client = sd" "dbl_eq (ord_price client) np"
  shows "\<exists>i w' ob'. add_order client (w, ob) = Inr (i, w', ob') \<and> stuck True sd p ord np ob'"
proof -
  have oi: "orders_inv ob" and p: "orders ob p = Some ord"
    and opp: "case levels_of (opposite sd) ob of [] \<Rightarrow> True | (a, _) # _ \<Rightarrow> \<not> is_nan a \<and> \<not> meets sd np a"
    using stuck by (simp_all add: stuck_def)
  obtain k lv ls where lev: "levels_of sd ob = (k, lv) # ls" "dbl_eq np k" "dead_head p (ord_id ord) lv"
    using stuck by (auto simp: stuck_def)
  have room: "pool_room (ob_order_pool ob)" and ids: "ids_room w ob" using adm(1) by (simp_all add: admissible_def)
  obtain i q o1 w1 ob1 where add: "add_order client (w, ob) = rbind (add_order_dispatcher (ord_side client) q ob1) (\<lambda>ob2.
       rbind (try_match (w1, ob2)) (\<lambda>(_, w2, ob3). Inr (i, w2, ob3)))"
    and o1: "accepted o1 client i" and q: "orders ob q = None" "orders ob1 = (orders ob)(q \<mapsto> o1)"
    and same: "\<forall>sd. levels_of sd ob1 = levels_of sd ob"
    and oi1: "orders_inv (ob1\<lparr>ob_order_registry := AList.update i q (ob_order_registry ob1)\<rparr>)"
    and fresh: "\<forall>q o'. orders ob q = Some o' \<longrightarrow> ord_id o' \<noteq> i"
    by (rule add_order_slot [OF oi room adm(2) ids, of client])
  have st: "store ob1 q = Some o1" using q(2) held_store by simp
  have id: "ord_id o1 = i" "ord_price o1 = ord_price client" using o1 by (simp_all add: accepted_def)
  have new: "i \<noteq> ord_id ord" using fresh p by blast
  obtain lv' where lv': "level_add_order (store ob1) q lv = Inr lv'" "dead_head p (ord_id ord) lv'" "i \<in> fst ` set (lvl_orders_map lv')"
    using dead_head_add [OF lev(3), of "store ob1" q o1] st id new by auto
  have eq: "dbl_eq k (ord_price client)" using dbl_eq_simps(3) [OF dbl_eq_simps(4) [OF client(2) lev(2)]] .
  note nan = dbl_eq_simps(1,2) [OF eq]
  have eqv: "equivalent (side_lt sd) k (ord_price client)" "equivalent (side_lt sd) k k" "\<not> is_nan (ord_price client)"
    using equivalent_side_lt [OF nan, of sd] equivalent_side_lt [OF nan(1,1), of sd] eq dbl_eq_simps(5) [OF nan(1)] nan by simp_all
  let ?ob2 = "(set_levels sd ((k, lv') # ls) ob1)\<lparr>ob_try_match_flag := False, ob_order_registry := AList.update i q (ob_order_registry ob1)\<rparr>"
  have "add_order_dispatcher sd q ob1 = Inr ?ob2"
    using st id eqv lev(1) lv'(1)
    by (simp add: add_order_dispatcher_def emplace_level_def level_at_def assert_or_def same)
  then have "add_order client (w, ob) = Inr (i, w1, ?ob2)" unfolding add client(1) by (simp add: try_match_def)
  moreover have "orders_inv ?ob2" using oi1 by (simp add: orders_inv_def)
  then have "stuck True sd p ord np ?ob2"
    using p q lev(2) lv'(2,3) new opp unfolding stuck_def by (auto simp: same)
  ultimately show ?thesis by blast
qed

lemma meets_first:
  assumes "meets sd np p" "\<not> meets sd np a" "\<not> is_nan np" "\<not> is_nan a" "\<not> is_nan p"
  shows "side_lt (opposite sd) p a" "\<not> side_lt (opposite sd) a p"
  using assms by (cases sd; simp add: meets_def double_ord_defs std_less_def std_greater_def)+

lemma match_pair:
  assumes oi: "orders_inv ob" and ord: "orders ob p = Some x" "orders ob q = Some y" "p \<noteq> q"
  obtains t u ob2 where "match_orders p q (w, ob) = Inr (wtick (wtick w), ob2)"
    "orders ob2 = (orders ob)(p \<mapsto> filled_by t (min (available x) (available y)) x, q \<mapsto> filled_by u (min (available x) (available y)) y)"
    "orders_inv ob2" "ob_bids ob2 = ob_bids ob" "ob_asks ob2 = ob_asks ob"
proof -
  let ?m = "min (available x) (available y)"
  let ?x = "filled_by (wnow w) ?m x" and ?y = "filled_by (wnow (wtick w)) ?m y"
  let ?ob1 = "write_order p ?x ob"
  have wf: "order_wf ?x" "order_wf ?y" using oi ord order_wf_filled_by by (auto simp: orders_inv_def)
  have o1: "orders ?ob1 = (orders ob)(p \<mapsto> ?x)" using orders_write [OF ord(1)] by simp
  then have q: "orders ?ob1 q = Some y" using ord by simp
  have "orders_inv ?ob1" using orders_inv_write [OF oi ord(1) _ wf(1)] by simp
  then have "orders_inv (write_order q ?y ?ob1)" using orders_inv_write [OF _ q _ wf(2)] by simp
  moreover have "orders (write_order q ?y ?ob1) = (orders ob)(p \<mapsto> ?x, q \<mapsto> ?y)" using orders_write [OF q] o1 by simp
  ultimately show ?thesis using that match_orders_ok [OF oi ord(3,1,2), of w] by (simp add: write_order_def)
qed

lemma keep_level:
  "\<not> is_nan k \<Longrightarrow> \<not> level_empty lv' \<Longrightarrow> remove_price_level_if_empty sd k (map_write (side_lt sd) k lv' ((k, lv) # ls)) = Inr ((k, lv') # ls)"
  using strict_weak_order.lt_irrefl [OF side_order, of k sd] by (simp add: remove_price_level_if_empty_def level_at_def assert_or_def)

text \<open>A turn of the matching loop, by the fronts of the two best levels.\<close>

lemma step_fronts:
  assumes oi: "orders_inv ob" and lev: "levels_of sd ob = (k, lv) # ls" "levels_of (opposite sd) ob = (a, al) # as"
    and meet: "meets sd k a" "\<not> is_nan k" "\<not> is_nan a" and front: "level_front lv = Inr p" "level_front al = Inr q"
    and ord: "orders ob p = Some x" "orders ob q = Some y" "p \<noteq> q"
  defines "m \<equiv> min (available x) (available y)"
  obtains t u ob2 where "orders ob2 = (orders ob)(p \<mapsto> filled_by t m x, q \<mapsto> filled_by u m y)" "orders_inv ob2"
    "\<forall>e al'. pop_front_order_if_filled (store ob2) lv = Inl e \<and> pop_front_order_if_filled (store ob2) al = Inr al' \<longrightarrow>
       try_match_step (w, ob) = Inl e"
    "\<forall>lv' al'. pop_front_order_if_filled (store ob2) lv = Inr lv' \<and> pop_front_order_if_filled (store ob2) al = Inr al' \<and>
       \<not> level_empty lv' \<and> \<not> level_empty al' \<longrightarrow>
       try_match_step (w, ob) = Inr (Continue (wtick (wtick w), set_levels sd ((k, lv') # ls) (set_levels (opposite sd) ((a, al') # as) ob2)))"
proof (cases sd)
  case BUY
  let ?ob0 = "ob\<lparr>ob_trades_completed := ob_trades_completed ob + 1\<rparr>"
  have oi0: "orders_inv ?ob0" using oi orders_inv_frame [of ?ob0 ob] by simp
  have sides: "ob_bids ob = (k, lv) # ls" "ob_asks ob = (a, al) # as" "k \<ge> a" using lev meet(1) BUY by (simp_all add: meets_def)
  obtain t u ob2 where m: "match_orders p q (w, ?ob0) = Inr (wtick (wtick w), ob2)"
      "orders ob2 = (orders ?ob0)(p \<mapsto> filled_by t m x, q \<mapsto> filled_by u m y)" "orders_inv ob2"
      "ob_bids ob2 = ob_bids ?ob0" "ob_asks ob2 = ob_asks ?ob0"
    unfolding m_def by (rule match_pair [OF oi0 _ _ ord(3), of x y w]) (use ord in simp_all)
  show ?thesis
    by (rule that [of ob2 t u]) (use m front sides BUY keep_level [OF meet(2), of _ BUY lv ls] keep_level [OF meet(3), of _ SELL al as]
      in \<open>simp_all add: try_match_step_def del: map_write.simps\<close>)
next
  case SELL
  let ?ob0 = "ob\<lparr>ob_trades_completed := ob_trades_completed ob + 1\<rparr>"
  have oi0: "orders_inv ?ob0" using oi orders_inv_frame [of ?ob0 ob] by simp
  have sides: "ob_bids ob = (a, al) # as" "ob_asks ob = (k, lv) # ls" "a \<ge> k" using lev meet(1) SELL by (simp_all add: meets_def)
  have comm: "min (available x) (available y) = min (available y) (available x)" by (simp add: min.commute)
  obtain u t ob2 where m: "match_orders q p (w, ?ob0) = Inr (wtick (wtick w), ob2)"
      "orders ob2 = (orders ?ob0)(q \<mapsto> filled_by u m y, p \<mapsto> filled_by t m x)" "orders_inv ob2"
      "ob_bids ob2 = ob_bids ?ob0" "ob_asks ob2 = ob_asks ?ob0"
    unfolding m_def comm by (rule match_pair [OF oi0 _ _ ord(3) [symmetric], of y x w]) (use ord in simp_all)
  show ?thesis
    by (rule that [of ob2 t u]) (use m front sides SELL ord(3) keep_level [OF meet(2), of _ SELL lv ls] keep_level [OF meet(3), of _ BUY al as]
      in \<open>simp_all add: try_match_step_def fun_upd_twist del: map_write.simps\<close>)
qed

text \<open>
  An order of the other side that meets the price and asks for more than the first order has left: the first
  turn fills that order and pops it, the second pops it again.
\<close>

lemma stuck_fault:
  assumes stuck: "stuck True sd p ord np ob" and adm: "admissible (Add client) (w, ob)" "ids_ok w ob"
    and client: "ord_side client = opposite sd" "meets sd np (ord_price client)" "available ord < ord_quantity client"
  shows "add_order client (w, ob) = Inl (Undefined EndIterator)"
proof -
  let ?op = "opposite sd" and ?price = "ord_price client"
  have oi: "orders_inv ob" and p: "orders ob p = Some ord"
    and opp: "case levels_of ?op ob of [] \<Rightarrow> True | (a, _) # _ \<Rightarrow> \<not> is_nan a \<and> \<not> meets sd np a"
    using stuck by (simp_all add: stuck_def)
  obtain k lv ls j where lev: "levels_of sd ob = (k, lv) # ls" "dbl_eq np k" "dead_head p (ord_id ord) lv"
      "j \<in> fst ` set (lvl_orders_map lv)" "j \<noteq> ord_id ord"
    using stuck unfolding stuck_def by blast
  have nan: "\<not> is_nan np" "\<not> is_nan k" "\<not> is_nan ?price" using dbl_eq_simps(1,2) [OF lev(2)] adm(1) by (simp_all add: admissible_def)
  have meet: "meets sd k ?price" using client(2) lev(2) by (cases sd) (auto simp: meets_def double_ord_defs)
  have room: "pool_room (ob_order_pool ob)" and ids: "ids_room w ob" using adm(1) by (simp_all add: admissible_def)
  obtain i q o1 w1 ob1 where add: "add_order client (w, ob) = rbind (add_order_dispatcher (ord_side client) q ob1) (\<lambda>ob2.
       rbind (try_match (w1, ob2)) (\<lambda>(_, w2, ob3). Inr (i, w2, ob3)))"
    and o1: "accepted o1 client i" and q: "orders ob q = None" "orders ob1 = (orders ob)(q \<mapsto> o1)"
    and same: "\<forall>sd. levels_of sd ob1 = levels_of sd ob"
    and oi1: "orders_inv (ob1\<lparr>ob_order_registry := AList.update i q (ob_order_registry ob1)\<rparr>)"
    and "\<forall>q o'. orders ob q = Some o' \<longrightarrow> ord_id o' \<noteq> i"
    by (rule add_order_slot [OF oi room adm(2) ids, of client])
  have st: "store ob1 q = Some o1" and pq: "p \<noteq> q" using q p held_store by auto
  have id: "ord_id o1 = i" "ord_price o1 = ?price" "available o1 = ord_quantity client"
    using o1 by (simp_all add: accepted_def available_def)
  let ?lone = "lone_level ?price q i"
  let ?ob2 = "(set_levels ?op ((?price, ?lone) # levels_of ?op ob) ob1)\<lparr>ob_try_match_flag := True,
    ob_order_registry := AList.update i q (ob_order_registry ob1)\<rparr>"
  have first: "map_try_emplace (side_lt ?op) ?price v (levels_of ?op ob) = (True, (?price, v) # levels_of ?op ob)" for v
    using opp meets_first [OF client(2) _ nan(1) _ nan(3)] by (cases "levels_of ?op ob") auto
  have "\<not> side_lt ?op ?price ?price" using strict_weak_order.lt_irrefl [OF side_order nan(3)] .
  then have "add_order_dispatcher ?op q ob1 = Inr ?ob2"
    using st id first nan(3) level_add_lone [of "store ob1" q o1 ?price]
    by (simp add: add_order_dispatcher_def emplace_level_def level_at_def assert_or_def same)
  then have match: "add_order client (w, ob) = rbind (try_match (w1, ?ob2)) (\<lambda>(_, w2, ob3). Inr (i, w2, ob3))"
    unfolding add client(1) by simp
  have two: "levels_of sd ?ob2 = (k, lv) # ls" "levels_of ?op ?ob2 = (?price, ?lone) # levels_of ?op ob"
    using lev(1) same [rule_format, of BUY] same [rule_format, of SELL] by (cases sd, simp_all)
  have three: "orders ?ob2 p = Some ord" "orders ?ob2 q = Some o1" "orders_inv ?ob2" "ob_try_match_flag ?ob2"
    using q(2) pq p oi1 orders_inv_frame [of ?ob2 "ob1\<lparr>ob_order_registry := AList.update i q (ob_order_registry ob1)\<rparr>"] by simp_all
  let ?m = "available ord"
  have m: "min (available ord) (available o1) = ?m" using id(3) client(3) by simp
  obtain t u ob3 where 3: "orders ob3 = (orders ?ob2)(p \<mapsto> filled_by t ?m ord, q \<mapsto> filled_by u ?m o1)" "orders_inv ob3"
      "\<forall>e al'. pop_front_order_if_filled (store ob3) lv = Inl e \<and> pop_front_order_if_filled (store ob3) ?lone = Inr al' \<longrightarrow>
         try_match_step (w1, ?ob2) = Inl e"
      "\<forall>lv' al'. pop_front_order_if_filled (store ob3) lv = Inr lv' \<and> pop_front_order_if_filled (store ob3) ?lone = Inr al' \<and>
         \<not> level_empty lv' \<and> \<not> level_empty al' \<longrightarrow>
         try_match_step (w1, ?ob2) = Inr (Continue (wtick (wtick w1), set_levels sd ((k, lv') # ls)
           (set_levels ?op ((?price, al') # levels_of ?op ob) ob3)))"
    by (rule step_fronts [OF three(3) two meet nan(2,3) dead_head_front [OF lev(3)] lone_level_simps(1) three(1,2) pq, of w1, unfolded m])
  let ?x = "filled_by t ?m ord" and ?y = "filled_by u ?m o1"
  have x: "orders ob3 p = Some ?x" "ord_id ?x = ord_id ord" "ord_status ?x = FULLY_FILLED" and y: "orders ob3 q = Some ?y"
    using 3(1) pq by (simp_all add: status_filled_by)
  have wf: "order_wf ord" "order_wf o1" using three(1-3) by (auto simp: orders_inv_def)
  have y': "ord_status ?y \<noteq> FULLY_FILLED" "available ?y = available o1 - ?m" "available ?x = 0"
    using client(3) id(3) available_filled_by order_wf_filled_le [OF wf(1)] order_wf_filled_le [OF wf(2)]
    by (simp_all add: status_filled_by)
  obtain lv' where lv': "pop_front_order_if_filled (store ob3) lv = Inr lv'" "\<not> level_empty lv'" "level_front lv' = Inr p"
    "\<forall>h' ord'. h' p = Some ord' \<and> ord_id ord' = ord_id ord \<and> ord_status ord' = FULLY_FILLED \<longrightarrow>
       pop_front_order_if_filled h' lv' = Inl (Undefined EndIterator)"
    by (rule dead_head_pop [where h = "store ob3" and ord = ?x, OF lev(3) held_store [OF x(1)] x(2,3) lev(4,5)])
  have lone: "pop_front_order_if_filled (store ob3) ?lone = Inr ?lone" by (rule pop_lone_unfilled [where h = "store ob3" and ord = ?y, OF held_store [OF y] y'(1)])
  let ?ob4 = "set_levels sd ((k, lv') # ls) (set_levels ?op ((?price, ?lone) # levels_of ?op ob) ob3)"
  have step1: "try_match_step (w1, ?ob2) = Inr (Continue (wtick (wtick w1), ?ob4))"
    using 3(4) lv'(1,2) lone lone_level_simps(2) by blast
  have four: "levels_of sd ?ob4 = (k, lv') # ls" "levels_of ?op ?ob4 = (?price, ?lone) # levels_of ?op ob"
      "orders ?ob4 p = Some ?x" "orders ?ob4 q = Some ?y" "orders_inv ?ob4"
    using x(1) y 3(2) by (cases sd, simp_all)
  have m0: "min (available ?x) (available ?y) = 0" using y'(3) by simp
  obtain t' u' ob5 where 5: "orders ob5 = (orders ?ob4)(p \<mapsto> filled_by t' 0 ?x, q \<mapsto> filled_by u' 0 ?y)"
      "\<forall>e al'. pop_front_order_if_filled (store ob5) lv' = Inl e \<and> pop_front_order_if_filled (store ob5) ?lone = Inr al' \<longrightarrow>
         try_match_step (wtick (wtick w1), ?ob4) = Inl e"
    by (rule step_fronts [OF four(5,1,2) meet nan(2,3) lv'(3) lone_level_simps(1) four(3,4) pq, of "wtick (wtick w1)", unfolded m0]) blast
  have x5: "orders ob5 p = Some (filled_by t' 0 ?x)" "orders ob5 q = Some (filled_by u' 0 ?y)" using 5(1) pq by simp_all
  have "available ?y \<noteq> 0" using client(3) id(3) y'(2) by auto
  then have "pop_front_order_if_filled (store ob5) ?lone = Inr ?lone"
    by (intro pop_lone_unfilled [where h = "store ob5" and ord = "filled_by u' 0 ?y", OF held_store [OF x5(2)]]) (simp add: status_filled_by)
  moreover have "pop_front_order_if_filled (store ob5) lv' = Inl (Undefined EndIterator)"
    using lv'(4) [rule_format, of "store ob5" "filled_by t' 0 ?x"] held_store [OF x5(1)] by (simp add: status_filled_by y'(3))
  ultimately have "try_match_step (wtick (wtick w1), ?ob4) = Inl (Undefined EndIterator)" using 5(2) by blast
  then have "try_match (w1, ?ob2) = Inl (Undefined EndIterator)"
    using step1 three(4) by (simp add: try_match_def try_match_loop.simps [of False] try_match_loop.simps [of True])
  then show ?thesis using match by simp
qed

section \<open>The increase, another order, and a trade\<close>

lemma best_level_first:
  assumes inv: "book_inv ob" and lev: "levels_of sd ob = ls1 @ (k, lv) # ls2" and k: "dbl_eq np k"
    and best: "\<forall>r \<in> set (queue sd ob). \<not> side_lt sd (rst_price r) np"
  shows "ls1 = []"
proof (rule ccontr)
  assume "ls1 \<noteq> []"
  then obtain k1 lv1 ls where ls1: "ls1 = (k1, lv1) # ls" by (cases ls1) auto
  have si: "side_inv sd (orders ob) ((k1, lv1) # ls @ (k, lv) # ls2)" using inv lev ls1 by (metis append_Cons book_inv_def)
  then have "live lv1 \<noteq> []" "\<forall>q \<in> set (live lv1). dbl_eq (ord_price (the (orders ob q))) k1" "side_lt sd k1 k"
    by (auto simp: side_inv_except_def level_ok_def map_sorted_def)
  then obtain q where q: "q \<in> set (live lv1)" "dbl_eq (ord_price (the (orders ob q))) k1" "side_lt sd k1 k"
    by (metis hd_in_set)
  then have "side_lt sd (ord_price (the (orders ob q))) np"
    using k by (cases sd) (auto simp: std_less_def std_greater_def double_ord_defs)
  moreover have "view (the (orders ob q)) \<in> set (queue sd ob)" using q(1) lev ls1 by (simp add: queue_def)
  ultimately show False using best by force
qed

lemma stuck_by_increase:
  assumes inv: "book_inv ob" "uncrossed ob" and p: "orders ob p = Some ord" "active ord"
    and ok: "validate_modify_order ord np nq" "dbl_eq (ord_price ord) np" "nq > ord_quantity ord"
      "\<not> shares_level ord (queue (ord_side ord) ob)"
    and best: "\<forall>r \<in> set (queue (ord_side ord) ob). \<not> side_lt (ord_side ord) (rst_price r) np"
  obtains ob1 where "modify_order (ord_id ord) np nq (w, ob) = Inr (True, w, ob1)"
    "stuck False (ord_side ord) p (set_quantity nq ord) np ob1"
proof -
  let ?sd = "ord_side ord" and ?ord = "set_quantity nq ord"
  obtain k lv ls1 ls2 lv2 where lev: "levels_of ?sd ob = ls1 @ (k, lv) # ls2" "dbl_eq (ord_price ord) k" "dead_head p (ord_id ord) lv2"
    and "\<not> level_inv (orders (write_order p ?ord ob)) lv2"
    and m: "modify_order (ord_id ord) np nq (w, ob) = Inr (True, w, set_levels ?sd (ls1 @ (k, lv2) # ls2) (write_order p ?ord ob))"
    by (rule modify_lone_result [OF inv(1) p ok])
  let ?ob1 = "set_levels ?sd ((k, lv2) # ls2) (write_order p ?ord ob)"
  have np: "dbl_eq np k" using dbl_eq_simps(4) [OF dbl_eq_simps(3) [OF ok(2)] lev(2)] .
  have ls1: "ls1 = []" by (rule best_level_first [OF inv(1) lev(1) np best])
  have oi: "orders_inv ob" using inv(1) by (simp add: book_inv_def)
  then have "order_wf ?ord" using p ok(1)
    by (auto simp: orders_inv_def order_wf_def set_quantity_def validate_modify_order_def active_def not_le)
  then have oi1: "orders_inv ?ob1" using orders_inv_write [OF oi p(1)] by (simp add: set_quantity_def)
  have "\<not> is_nan a \<and> \<not> meets ?sd np a" if "levels_of (opposite ?sd) ob = (a, al) # as" for a al as
  proof -
    have "side_inv (opposite ?sd) (orders ob) (levels_of (opposite ?sd) ob)" using inv(1) by (simp add: book_inv_def)
    then have "\<not> is_nan a" using side_inv_keys that by fastforce
    moreover have "\<not> meets ?sd k a" using inv(2) that lev(1) ls1 by (cases ?sd) (auto simp: uncrossed_def meets_def)
    ultimately show ?thesis using np by (cases ?sd) (auto simp: meets_def double_ord_defs)
  qed
  then have "stuck False ?sd p ?ord np ?ob1"
    using oi1 orders_write [OF p(1)] np lev(3) unfolding stuck_def by (auto simp: set_quantity_def split: list.split)
  then show ?thesis using that m ls1 by simp
qed

text \<open>
  C38: in a consistent and uncrossed book, increasing the quantity of an active order that is alone at the
  best price of its side, at that price, answers true and sets a trap. Whatever order is then added at that
  price is accepted; and after that, any order of the other side that meets the price and asks for more than
  the increased order has left makes \<open>add_order\<close> erase an id through \<open>end()\<close>, which is undefined: the level
  pops the increased order twice. Both additions are admissible: the pool has room, there are ids left, and
  their prices are numbers.
\<close>

theorem lone_increase_then_fault:
  assumes "book_inv ob" "uncrossed ob" "order_of ob i = Some ord" "active ord" "validate_modify_order ord np nq"
    "dbl_eq (ord_price ord) np" "nq > ord_quantity ord" "\<not> shares_level ord (queue (ord_side ord) ob)"
    "\<forall>r \<in> set (queue (ord_side ord) ob). \<not> side_lt (ord_side ord) (rst_price r) np"
  shows "\<exists>ob1. modify_order i np nq (w, ob) = Inr (True, w, ob1) \<and>
    (\<forall>c1 v. admissible (Add c1) (v, ob1) \<and> ids_ok v ob1 \<and> ord_side c1 = ord_side ord \<and> dbl_eq (ord_price c1) np \<longrightarrow>
      (\<exists>j v' ob2. add_order c1 (v, ob1) = Inr (j, v', ob2) \<and>
        (\<forall>c2 u. admissible (Add c2) (u, ob2) \<and> ids_ok u ob2 \<and> ord_side c2 = opposite (ord_side ord) \<and>
            meets (ord_side ord) np (ord_price c2) \<and> nq - ord_quantity_filled ord < ord_quantity c2 \<longrightarrow>
          add_order c2 (u, ob2) = Inl (Undefined EndIterator))))"
proof -
  obtain p where p: "orders ob p = Some ord" "ord_id ord = i" using order_of_Some [OF assms(1), of i ord] assms(3) by blast
  obtain ob1 where m: "modify_order i np nq (w, ob) = Inr (True, w, ob1)" "stuck False (ord_side ord) p (set_quantity nq ord) np ob1"
    using stuck_by_increase [OF assms(1,2) p(1) assms(4-9)] p(2) by metis
  have "available (set_quantity nq ord) = nq - ord_quantity_filled ord" by (simp add: set_quantity_def available_def)
  then show ?thesis using m stuck_crowds [OF m(2)] stuck_fault by (metis (no_types, lifting))
qed

text \<open>The bid of 100 at 99 becomes one of 200, another bid comes at 99, and then an ask of 220.\<close>

theorem lone_increase_then_fault_witness:
  "run [Modify 1 d99 200, Add (ex_order BUY d99 50), Add (ex_order SELL d99 220)]
     (ex_after [Add (ex_order BUY d99 100)]) = Inl (Undefined EndIterator)"
proof -
  let ?c1 = "ex_order BUY d99 50" and ?c2 = "ex_order SELL d99 220"
  obtain w ob where s: "ex_after [Add (ex_order BUY d99 100)] = (w, ob)" by fastforce
  have "all_admissible [Add (ex_order BUY d99 100)] ex_empty"
    "case order_of (snd (ex_after [Add (ex_order BUY d99 100)])) 1 of None \<Rightarrow> False | Some ord \<Rightarrow>
      active ord \<and> validate_modify_order ord d99 200 \<and> dbl_eq (ord_price ord) d99 \<and> 200 > ord_quantity ord \<and>
      \<not> shares_level ord (queue (ord_side ord) (snd (ex_after [Add (ex_order BUY d99 100)]))) \<and>
      ord_side ord = BUY \<and> 200 - ord_quantity_filled ord < ord_quantity ?c2"
    "uncrossed (snd (ex_after [Add (ex_order BUY d99 100)]))"
    "\<forall>r \<in> set (queue BUY (snd (ex_after [Add (ex_order BUY d99 100)]))). \<not> side_lt BUY (rst_price r) d99"
    "case modify_order 1 d99 200 (ex_after [Add (ex_order BUY d99 100)]) of Inl _ \<Rightarrow> False | Inr (_, v, b) \<Rightarrow>
       admissible (Add ?c1) (v, b) \<and> ids_ok v b \<and> (case add_order ?c1 (v, b) of Inl _ \<Rightarrow> False | Inr (_, u, b2) \<Rightarrow>
         admissible (Add ?c2) (u, b2) \<and> ids_ok u b2)"
    "ord_side ?c1 = BUY \<and> dbl_eq (ord_price ?c1) d99 \<and> ord_side ?c2 = SELL \<and> meets BUY d99 (ord_price ?c2)"
    by code_simp+
  note e = this [unfolded s snd_conv]
  obtain ord where ord: "order_of ob 1 = Some ord" "active ord" "validate_modify_order ord d99 200" "dbl_eq (ord_price ord) d99"
      "200 > ord_quantity ord" "\<not> shares_level ord (queue (ord_side ord) ob)" "ord_side ord = BUY"
      "200 - ord_quantity_filled ord < ord_quantity ?c2" using e(2) by (auto split: option.splits)
  have inv: "book_inv ob" using ex_after_book [OF e(1) s] by simp
  from lone_increase_then_fault [OF inv e(3) ord(1-6), unfolded ord(7), OF e(4), of w]
  obtain ob1 where m: "modify_order 1 d99 200 (w, ob) = Inr (True, w, ob1)"
    and later: "\<And>c1 v. admissible (Add c1) (v, ob1) \<and> ids_ok v ob1 \<and> ord_side c1 = BUY \<and> dbl_eq (ord_price c1) d99 \<Longrightarrow>
      \<exists>j v' ob2. add_order c1 (v, ob1) = Inr (j, v', ob2) \<and>
        (\<forall>c2 u. admissible (Add c2) (u, ob2) \<and> ids_ok u ob2 \<and> ord_side c2 = opposite BUY \<and>
            meets BUY d99 (ord_price c2) \<and> 200 - ord_quantity_filled ord < ord_quantity c2 \<longrightarrow>
          add_order c2 (u, ob2) = Inl (Undefined EndIterator))" by blast
  obtain j v ob2 where a: "add_order ?c1 (w, ob1) = Inr (j, v, ob2)" "admissible (Add ?c2) (v, ob2)" "ids_ok v ob2"
      "admissible (Add ?c1) (w, ob1)" "ids_ok w ob1"
    using e(5) m by (auto split: sum.splits)
  have "add_order ?c2 (v, ob2) = Inl (Undefined EndIterator)" using later [of ?c1 w] a e(6) ord(8) by auto
  then show ?thesis using s m a(1) by (simp add: perform_def)
qed

end
