(* ===== verification/Spsc_Queue.thy ===== *)
theory Spsc_Queue
  imports Prelude
begin

text \<open>
  \<open>include/spsc_queue.h\<close>: the ring buffer that carries commands from the producer to a worker. Here
  its operations are whole calls, one after the other, as each side sees its own; the interleaving
  of the two sides, atomic access by atomic access, is in \<open>Spsc_Threads\<close>. The contract of a bounded
  queue is the locale \<open>bounded_fifo\<close>, of which the ring buffer is the interpretation. One slot is
  always left free, so a buffer of \<open>n\<close> slots holds \<open>n - 1\<close> items.
\<close>

section \<open>The interface\<close>

locale bounded_fifo =
  fixes inv :: "'q \<Rightarrow> bool"
    and items :: "'q \<Rightarrow> 'a list"
    and room :: "'q \<Rightarrow> nat"
    and put :: "'a \<Rightarrow> 'q \<Rightarrow> (bool \<times> 'q) result"
    and get :: "'q \<Rightarrow> ('a option \<times> 'q) result"
  assumes put_ok: "inv q \<Longrightarrow> 0 < room q \<Longrightarrow>
      \<exists>q'. put x q = Inr (True, q') \<and> inv q' \<and> items q' = items q @ [x] \<and> Suc (room q') = room q"
    and put_full: "inv q \<Longrightarrow> room q = 0 \<Longrightarrow> put x q = Inr (False, q)"
    and get_ok: "inv q \<Longrightarrow> items q = x # xs \<Longrightarrow>
      \<exists>q'. get q = Inr (Some x, q') \<and> inv q' \<and> items q' = xs \<and> room q' = Suc (room q)"
    and get_empty: "inv q \<Longrightarrow> items q = [] \<Longrightarrow> get q = Inr (None, q)"
begin

fun put_all :: "'a list \<Rightarrow> 'q \<Rightarrow> (nat \<times> 'q) result" where
  "put_all [] q = Inr (0, q)"
| "put_all (x # xs) q =
     rbind (put x q) (\<lambda>(ok, q1). rbind (put_all xs q1) (\<lambda>(n, q2). Inr (if ok then Suc n else n, q2)))"

fun get_many :: "nat \<Rightarrow> 'q \<Rightarrow> ('a list \<times> 'q) result" where
  "get_many 0 q = Inr ([], q)"
| "get_many (Suc n) q =
     rbind (get q) (\<lambda>(x, q1). rbind (get_many n q1) (\<lambda>(xs, q2).
       Inr (case x of None \<Rightarrow> xs | Some y \<Rightarrow> y # xs, q2)))"

text \<open>As many items are accepted as there is room for; the rest are refused.\<close>

lemma put_all_ok:
  "inv q \<Longrightarrow> \<exists>q'. put_all xs q = Inr (min (room q) (length xs), q') \<and> inv q' \<and>
     items q' = items q @ take (room q) xs \<and> room q' = room q - length xs"
proof (induction xs arbitrary: q)
  case Nil
  then show ?case by simp
next
  case (Cons x xs)
  show ?case
  proof (cases "room q")
    case 0
    then have p: "put x q = Inr (False, q)" using put_full Cons.prems by simp
    obtain q' where "put_all xs q = Inr (min (room q) (length xs), q')" "inv q'"
        "items q' = items q @ take (room q) xs" "room q' = room q - length xs"
      using Cons.IH [OF Cons.prems] by blast
    then show ?thesis using p 0 by simp
  next
    case (Suc n)
    then obtain q1 where p: "put x q = Inr (True, q1)" "inv q1" "items q1 = items q @ [x]" "Suc (room q1) = room q"
      using put_ok [of q x] Cons.prems by auto
    obtain q' where "put_all xs q1 = Inr (min (room q1) (length xs), q')" "inv q'"
        "items q' = items q1 @ take (room q1) xs" "room q' = room q1 - length xs"
      using Cons.IH [OF p(2)] by blast
    then show ?thesis using p Suc by simp
  qed
qed

text \<open>Polling takes the items out in the order in which they went in, and then finds nothing.\<close>

lemma get_many_ok:
  "inv q \<Longrightarrow> \<exists>q'. get_many n q = Inr (take n (items q), q') \<and> inv q' \<and> items q' = drop n (items q) \<and>
     room q' = room q + min n (length (items q))"
proof (induction n arbitrary: q)
  case 0
  then show ?case by simp
next
  case (Suc n)
  show ?case
  proof (cases "items q")
    case Nil
    then have g: "get q = Inr (None, q)" using get_empty Suc.prems by simp
    obtain q' where "get_many n q = Inr (take n (items q), q')" "inv q'" "items q' = drop n (items q)"
        "room q' = room q + min n (length (items q))"
      using Suc.IH [OF Suc.prems] by blast
    then show ?thesis using g Nil by simp
  next
    case (Cons x xs)
    then obtain q1 where g: "get q = Inr (Some x, q1)" "inv q1" "items q1 = xs" "room q1 = Suc (room q)"
      using get_ok [OF Suc.prems] by blast
    obtain q' where "get_many n q1 = Inr (take n (items q1), q')" "inv q'" "items q' = drop n (items q1)"
        "room q' = room q1 + min n (length (items q1))"
      using Suc.IH [OF g(2)] by blast
    then show ?thesis using g Cons by simp
  qed
qed

text \<open>What goes in while there is room comes out in the same order.\<close>

lemma round_trip:
  assumes "inv q" "items q = []" "length xs \<le> room q"
  shows "\<exists>q1 q2. put_all xs q = Inr (length xs, q1) \<and> get_many (length xs) q1 = Inr (xs, q2) \<and>
    inv q2 \<and> items q2 = [] \<and> room q2 = room q"
proof -
  obtain q1 where q1: "put_all xs q = Inr (length xs, q1)" "inv q1" "items q1 = xs" "room q1 = room q - length xs"
    using put_all_ok [OF assms(1), of xs] assms(2,3) by auto
  obtain q2 where "get_many (length xs) q1 = Inr (xs, q2)" "inv q2" "items q2 = []"
      "room q2 = room q1 + length xs"
    using get_many_ok [OF q1(2), of "length xs"] q1(3) by auto
  then show ?thesis using q1 assms(3) by auto
qed

end

section \<open>The ring buffer\<close>

text \<open>The indices stay below the buffer's size, a \<open>size_t\<close>, so that \<open>head + 1\<close> does not wrap around.\<close>

record 'a spsc_queue =
  spsc_buffer :: "'a list"
  spsc_head :: nat
  spsc_tail :: nat

text \<open>The constructor, given the value-initialised items that the vector starts with.\<close>

definition new_spsc_queue :: "'a list \<Rightarrow> 'a spsc_queue" where
  "new_spsc_queue initial = \<lparr>spsc_buffer = initial, spsc_head = 0, spsc_tail = 0\<rparr>"

definition spsc_move :: "'a spsc_queue \<Rightarrow> 'a spsc_queue" where
  "spsc_move other =
     \<lparr>spsc_buffer = spsc_buffer other, spsc_head = spsc_head other, spsc_tail = spsc_tail other\<rparr>"

definition ring_next :: "nat \<Rightarrow> 'a spsc_queue \<Rightarrow> nat result" where
  "ring_next i q =
     rbind (assert_or (spsc_buffer q \<noteq> []) DivisionByZero) (\<lambda>_. Inr ((i + 1) mod length (spsc_buffer q)))"

definition spsc_push :: "'a \<Rightarrow> 'a spsc_queue \<Rightarrow> (bool \<times> 'a spsc_queue) result" where
  "spsc_push item q =
     (let head = spsc_head q in
      rbind (ring_next head q) (\<lambda>next.
      if next = spsc_tail q then Inr (False, q)
      else
        rbind (assert_or (head < length (spsc_buffer q)) OutOfRange) (\<lambda>_.
        Inr (True, q\<lparr>spsc_buffer := (spsc_buffer q)[head := item], spsc_head := next\<rparr>))))"

text \<open>
  The overload for an rvalue moves the item; \<open>mv\<close> is what a moved-from item is left as, and the
  caller's item comes back with the result.
\<close>

definition spsc_push_move :: "('a \<Rightarrow> 'a) \<Rightarrow> 'a \<Rightarrow> 'a spsc_queue \<Rightarrow> (bool \<times> 'a \<times> 'a spsc_queue) result" where
  "spsc_push_move mv item q =
     (let head = spsc_head q in
      rbind (ring_next head q) (\<lambda>next.
      if next = spsc_tail q then Inr (False, item, q)
      else
        rbind (assert_or (head < length (spsc_buffer q)) OutOfRange) (\<lambda>_.
        Inr (True, mv item, q\<lparr>spsc_buffer := (spsc_buffer q)[head := item], spsc_head := next\<rparr>))))"

definition spsc_pop :: "('a \<Rightarrow> 'a) \<Rightarrow> 'a spsc_queue \<Rightarrow> ('a option \<times> 'a spsc_queue) result" where
  "spsc_pop mv q =
     (let tail = spsc_tail q in
      if tail = spsc_head q then Inr (None, q)
      else
        rbind (assert_or (tail < length (spsc_buffer q)) OutOfRange) (\<lambda>_.
        let item = spsc_buffer q ! tail; buffer = (spsc_buffer q)[tail := mv item] in
        rbind (ring_next tail q) (\<lambda>next.
          Inr (Some item, q\<lparr>spsc_buffer := buffer, spsc_tail := next\<rparr>))))"

section \<open>The ring buffer is a bounded queue\<close>

definition spsc_inv :: "'a spsc_queue \<Rightarrow> bool" where
  "spsc_inv q \<longleftrightarrow> spsc_head q < length (spsc_buffer q) \<and> spsc_tail q < length (spsc_buffer q)"

definition spsc_size :: "'a spsc_queue \<Rightarrow> nat" where
  "spsc_size q =
     (if spsc_tail q \<le> spsc_head q then spsc_head q - spsc_tail q
      else length (spsc_buffer q) - spsc_tail q + spsc_head q)"

definition spsc_items :: "'a spsc_queue \<Rightarrow> 'a list" where
  "spsc_items q =
     map (\<lambda>k. spsc_buffer q ! ((spsc_tail q + k) mod length (spsc_buffer q))) [0..<spsc_size q]"

definition spsc_room :: "'a spsc_queue \<Rightarrow> nat" where
  "spsc_room q = length (spsc_buffer q) - 1 - spsc_size q"

lemma spsc_items_length [simp]: "length (spsc_items q) = spsc_size q"
  by (simp add: spsc_items_def)

lemma spsc_inv_nonempty: "spsc_inv q \<Longrightarrow> spsc_buffer q \<noteq> []"
  by (auto simp: spsc_inv_def)

lemma ring_next_ok: "spsc_inv q \<Longrightarrow> ring_next i q = Inr ((i + 1) mod length (spsc_buffer q))"
  by (simp add: ring_next_def spsc_inv_nonempty)

text \<open>Distances around the ring.\<close>

lemma ring_step:
  fixes h t n :: nat
  assumes "h < n" "t < n"
  shows "(h + 1) mod n = (if h + 1 = n then 0 else h + 1)"
  using assms by auto

lemma spsc_size_lt: "spsc_inv q \<Longrightarrow> spsc_size q < length (spsc_buffer q)"
  by (auto simp: spsc_inv_def spsc_size_def)

lemma spsc_full: "spsc_inv q \<Longrightarrow> spsc_room q = 0 \<longleftrightarrow> (spsc_head q + 1) mod length (spsc_buffer q) = spsc_tail q"
  by (auto simp: spsc_inv_def spsc_room_def spsc_size_def mod_Suc)

lemma spsc_empty: "spsc_inv q \<Longrightarrow> spsc_size q = 0 \<longleftrightarrow> spsc_tail q = spsc_head q"
  by (auto simp: spsc_inv_def spsc_size_def)

text \<open>The item at distance \<open>k\<close> from the tail sits at the head only for \<open>k = size\<close>.\<close>

lemma ring_index:
  assumes "spsc_inv q" "k < length (spsc_buffer q)"
  shows "(spsc_tail q + k) mod length (spsc_buffer q) = spsc_head q \<longleftrightarrow> k = spsc_size q"
    "(spsc_tail q + k) mod length (spsc_buffer q) = spsc_tail q \<longleftrightarrow> k = 0"
proof -
  let ?n = "length (spsc_buffer q)"
  have "(spsc_tail q + k) mod ?n = (if spsc_tail q + k < ?n then spsc_tail q + k else spsc_tail q + k - ?n)"
    using assms by (auto simp: spsc_inv_def mod_if)
  then show "(spsc_tail q + k) mod ?n = spsc_head q \<longleftrightarrow> k = spsc_size q"
    "(spsc_tail q + k) mod ?n = spsc_tail q \<longleftrightarrow> k = 0"
    using assms by (auto simp: spsc_inv_def spsc_size_def)
qed

lemma spsc_push_ok:
  assumes inv: "spsc_inv q" and room: "0 < spsc_room q"
  shows "\<exists>q'. spsc_push x q = Inr (True, q') \<and> spsc_inv q' \<and> spsc_items q' = spsc_items q @ [x] \<and>
    Suc (spsc_room q') = spsc_room q"
proof -
  let ?n = "length (spsc_buffer q)" and ?h = "spsc_head q"
  let ?q = "q\<lparr>spsc_buffer := (spsc_buffer q)[?h := x], spsc_head := (?h + 1) mod ?n\<rparr>"
  have ne: "(?h + 1) mod ?n \<noteq> spsc_tail q" using spsc_full [OF inv] room by simp
  have push: "spsc_push x q = Inr (True, ?q)"
    using ne inv ring_next_ok [OF inv, of ?h] by (simp add: spsc_push_def Let_def spsc_inv_def)
  have inv': "spsc_inv ?q" using inv spsc_inv_nonempty [OF inv] by (simp add: spsc_inv_def)
  have size: "spsc_size ?q = Suc (spsc_size q)"
    using inv ne by (auto simp: spsc_inv_def spsc_size_def mod_Suc)
  have "spsc_items ?q = spsc_items q @ [x]"
  proof (rule nth_equalityI)
    show "length (spsc_items ?q) = length (spsc_items q @ [x])" using size by simp
    fix k
    assume "k < length (spsc_items ?q)"
    then have k: "k < Suc (spsc_size q)" using size by simp
    then have kn: "k < ?n" using spsc_size_lt [OF inv] by simp
    show "spsc_items ?q ! k = (spsc_items q @ [x]) ! k"
      using k size ring_index(1) [OF inv kn] inv
      by (cases "k = spsc_size q") (auto simp: spsc_items_def nth_append spsc_inv_def)
  qed
  moreover have "Suc (spsc_room ?q) = spsc_room q" using size room by (simp add: spsc_room_def)
  ultimately show ?thesis using push inv' by blast
qed

lemma spsc_push_full: "spsc_inv q \<Longrightarrow> spsc_room q = 0 \<Longrightarrow> spsc_push x q = Inr (False, q)"
  using spsc_full [of q] by (simp add: spsc_push_def ring_next_ok)

lemma spsc_pop_ok:
  assumes inv: "spsc_inv q" and items: "spsc_items q = x # xs"
  shows "\<exists>q'. spsc_pop mv q = Inr (Some x, q') \<and> spsc_inv q' \<and> spsc_items q' = xs \<and>
    spsc_room q' = Suc (spsc_room q)"
proof -
  let ?n = "length (spsc_buffer q)" and ?t = "spsc_tail q"
  let ?q = "q\<lparr>spsc_buffer := (spsc_buffer q)[?t := mv (spsc_buffer q ! ?t)], spsc_tail := (?t + 1) mod ?n\<rparr>"
  have size: "spsc_size q = Suc (length xs)" using arg_cong [OF items, of length] by simp
  then have ne: "?t \<noteq> spsc_head q" using spsc_empty [OF inv] by simp
  have x: "x = spsc_buffer q ! ?t"
  proof -
    have "spsc_items q ! 0 = spsc_buffer q ! ?t" using size inv by (simp add: spsc_items_def spsc_inv_def del: upt_Suc)
    then show ?thesis using items by simp
  qed
  have pop: "spsc_pop mv q = Inr (Some x, ?q)"
    using ne inv ring_next_ok [OF inv, of ?t] x by (simp add: spsc_pop_def Let_def spsc_inv_def)
  have inv': "spsc_inv ?q" using inv spsc_inv_nonempty [OF inv] by (simp add: spsc_inv_def)
  have size': "Suc (spsc_size ?q) = spsc_size q"
    using inv ne by (auto simp: spsc_inv_def spsc_size_def mod_Suc)
  have "spsc_items ?q = xs"
  proof (rule nth_equalityI)
    show len: "length (spsc_items ?q) = length xs" using size size' by simp
    fix k
    assume "k < length (spsc_items ?q)"
    then have k: "k < length xs" using len by simp
    then have kn: "Suc k < ?n" using spsc_size_lt [OF inv] size by simp
    have "xs ! k = spsc_items q ! Suc k" using items by simp
    also have "\<dots> = spsc_buffer q ! ((?t + Suc k) mod ?n)" using k size by (simp add: spsc_items_def del: upt_Suc)
    finally have xk: "xs ! k = spsc_buffer q ! ((?t + Suc k) mod ?n)" .
    have "((?t + 1) mod ?n + k) mod ?n = (?t + Suc k) mod ?n" by (simp add: mod_simps)
    moreover have "(?t + Suc k) mod ?n \<noteq> ?t" using ring_index(2) [OF inv kn] by simp
    ultimately show "spsc_items ?q ! k = xs ! k" using k size size' xk by (simp add: spsc_items_def)
  qed
  moreover have "spsc_room ?q = Suc (spsc_room q)"
    using size' spsc_size_lt [OF inv] by (simp add: spsc_room_def)
  ultimately show ?thesis using pop inv' by blast
qed

lemma spsc_pop_empty: "spsc_inv q \<Longrightarrow> spsc_items q = [] \<Longrightarrow> spsc_pop mv q = Inr (None, q)"
  using spsc_empty [of q] by (simp add: spsc_pop_def flip: length_0_conv)

interpretation spsc: bounded_fifo spsc_inv spsc_items spsc_room spsc_push "spsc_pop mv" for mv
  by unfold_locales (fact spsc_push_ok spsc_push_full spsc_pop_ok spsc_pop_empty)+

lemma new_spsc_queue_inv:
  assumes "initial \<noteq> []"
  shows "spsc_inv (new_spsc_queue initial)" "spsc_items (new_spsc_queue initial) = []"
    "spsc_room (new_spsc_queue initial) = length initial - 1"
  using assms by (simp_all add: new_spsc_queue_def spsc_inv_def spsc_items_def spsc_size_def spsc_room_def)

text \<open>The two overloads of \<open>push\<close> queue the same; the second leaves its argument moved from.\<close>

lemma spsc_push_move_push:
  "spsc_push_move mv x q = rbind (spsc_push x q) (\<lambda>(ok, q'). Inr (ok, if ok then mv x else x, q'))"
proof (cases "ring_next (spsc_head q) q")
  case (Inl e)
  then show ?thesis by (simp add: spsc_push_move_def spsc_push_def)
next
  case (Inr n)
  then show ?thesis by (simp add: spsc_push_move_def spsc_push_def assert_or_def Let_def)
qed

text \<open>A queue of capacity zero is empty to its consumer, and divides by zero for its producer.\<close>

lemma spsc_capacity_zero:
  "spsc_push x (new_spsc_queue []) = Inl (Undefined DivisionByZero)"
  "spsc_pop mv (new_spsc_queue []) = Inr (None, new_spsc_queue [])"
  by (simp_all add: spsc_push_def spsc_pop_def new_spsc_queue_def ring_next_def assert_or_def)

section \<open>Property\<close>

text \<open>
  C32: a queue of capacity \<open>n\<close> accepts the first \<open>n - 1\<close> of any items pushed into it, refuses the rest,
  and gives the accepted ones back in order, whatever moved-from items are left as; and it is then as
  roomy as it was.
\<close>

theorem queue_round_trip:
  assumes "initial \<noteq> []"
  shows "\<exists>q1 q2. spsc.put_all xs (new_spsc_queue initial) = Inr (min (length initial - 1) (length xs), q1) \<and>
    spsc.get_many mv (length xs) q1 = Inr (take (length initial - 1) xs, q2) \<and>
    spsc_items q2 = [] \<and> spsc_room q2 = length initial - 1"
proof -
  note new = new_spsc_queue_inv [OF assms]
  obtain q1 where q1: "spsc.put_all xs (new_spsc_queue initial) = Inr (min (length initial - 1) (length xs), q1)"
      "spsc_inv q1" "spsc_items q1 = take (length initial - 1) xs" "spsc_room q1 = length initial - 1 - length xs"
    using spsc.put_all_ok [OF new(1), of xs] new(2,3) by auto
  obtain q2 where "spsc.get_many mv (length xs) q1 = Inr (take (length xs) (spsc_items q1), q2)"
      "spsc_items q2 = drop (length xs) (spsc_items q1)"
      "spsc_room q2 = spsc_room q1 + min (length xs) (length (spsc_items q1))"
    using spsc.get_many_ok [OF q1(2), of mv "length xs"] by blast
  moreover have "spsc_room q1 + min (length xs) (length (spsc_items q1)) = length initial - 1"
    using q1(3,4) assms by (cases initial) (auto simp: min_def simp del: spsc_items_length)
  moreover have "take (length xs) (take (length initial - 1) xs) = take (length initial - 1) xs" by (simp add: min_def)
  ultimately show ?thesis using q1(1,3) by (simp del: take_take)
qed

theorem queue_round_trip_witness:
  "\<exists>q1 q2. spsc.put_all [1, 2, 3, 4 :: int] (new_spsc_queue [0, 0, 0]) = Inr (2, q1) \<and>
     spsc.get_many (\<lambda>_. 0) 4 q1 = Inr ([1, 2], q2)"
proof -
  have eq: "length [1, 2, 3, 4 :: int] = 4" "min (length [0, 0, 0 :: int] - 1) 4 = 2"
    "take (length [0, 0, 0 :: int] - 1) [1, 2, 3, 4 :: int] = [1, 2]" by simp_all
  have "[0, 0, 0 :: int] \<noteq> []" by simp
  from queue_round_trip [OF this, of "[1, 2, 3, 4]" "\<lambda>_. 0", unfolded eq] show ?thesis by blast
qed

end
