(* ===== verification/Spsc_Threads.thy ===== *)
theory Spsc_Threads
  imports Spsc_Queue
begin

text \<open>
  The two threads of \<open>spsc_queue.h\<close>, one access to shared memory at a time. The producer runs
  \<open>push\<close>, the consumer \<open>pop\<close>, each again and again; between any two accesses the other thread
  may go on. \<open>_head\<close> and \<open>_tail\<close> are atomics: a thread sees its own stores, and an acquire load of
  the other thread's index returns any value of its modification order that is not older than what
  the thread has seen before, so a load may be stale. With the value the thread also sees what the
  other thread did before it stored the value; that no slot is ever accessed by both threads at once
  is one of the theorems, and makes the shared buffer below adequate.
\<close>

section \<open>The steps of the two threads\<close>

text \<open>Where a thread is in its function, with the locals that it has read.\<close>

datatype 'a push_at =
    PushIdle
  | PushCheck 'a nat nat   \<comment> \<open>item, \<open>head\<close>, \<open>next\<close>: about to load \<open>_tail\<close>\<close>
  | PushWrite 'a nat nat   \<comment> \<open>there is room: about to write the slot\<close>
  | PushStore 'a nat       \<comment> \<open>about to store \<open>next\<close> into \<open>_head\<close>\<close>

datatype 'a pop_at =
    PopIdle
  | PopCheck nat           \<comment> \<open>\<open>tail\<close>: about to load \<open>_head\<close>\<close>
  | PopRead nat            \<comment> \<open>there is an item: about to move it out of its slot\<close>
  | PopStore 'a nat        \<comment> \<open>about to store the next index into \<open>_tail\<close>\<close>

text \<open>
  \<open>th_heads\<close> and \<open>th_tails\<close> are the modification orders of the two atomics, the first value being
  the one that the constructor stores; \<open>th_seen_tails\<close> is the position of the value of \<open>_tail\<close> that
  the producer last loaded. \<open>th_pushed\<close> and \<open>th_popped\<close> record the items of the calls that returned true.
\<close>

record 'a threads =
  th_buffer :: "'a list"
  th_heads :: "nat list"
  th_tails :: "nat list"
  th_push :: "'a push_at"
  th_pop :: "'a pop_at"
  th_seen_tails :: nat
  th_seen_heads :: nat
  th_pushed :: "'a list"
  th_popped :: "'a list"

definition start_threads :: "'a list \<Rightarrow> 'a threads" where
  "start_threads initial =
     \<lparr>th_buffer = initial, th_heads = [0], th_tails = [0], th_push = PushIdle, th_pop = PopIdle,
      th_seen_tails = 0, th_seen_heads = 0, th_pushed = [], th_popped = []\<rparr>"

inductive thread_step :: "('a \<Rightarrow> 'a) \<Rightarrow> 'a threads \<Rightarrow> 'a threads \<Rightarrow> bool" for mv where
  push_begin: "th_push s = PushIdle \<Longrightarrow> th_buffer s \<noteq> [] \<Longrightarrow>
    thread_step mv s (s\<lparr>th_push :=
      PushCheck x (last (th_heads s)) ((last (th_heads s) + 1) mod length (th_buffer s))\<rparr>)"
| push_check: "th_push s = PushCheck x h n \<Longrightarrow> th_seen_tails s \<le> k \<Longrightarrow> k < length (th_tails s) \<Longrightarrow>
    thread_step mv s (s\<lparr>th_push := (if n = th_tails s ! k then PushIdle else PushWrite x h n),
      th_seen_tails := k\<rparr>)"
| push_write: "th_push s = PushWrite x h n \<Longrightarrow>
    thread_step mv s (s\<lparr>th_push := PushStore x n, th_buffer := (th_buffer s)[h := x]\<rparr>)"
| push_publish: "th_push s = PushStore x n \<Longrightarrow>
    thread_step mv s (s\<lparr>th_push := PushIdle, th_heads := th_heads s @ [n], th_pushed := th_pushed s @ [x]\<rparr>)"
| pop_begin: "th_pop s = PopIdle \<Longrightarrow> thread_step mv s (s\<lparr>th_pop := PopCheck (last (th_tails s))\<rparr>)"
| pop_check: "th_pop s = PopCheck t \<Longrightarrow> th_seen_heads s \<le> k \<Longrightarrow> k < length (th_heads s) \<Longrightarrow>
    thread_step mv s (s\<lparr>th_pop := (if t = th_heads s ! k then PopIdle else PopRead t), th_seen_heads := k\<rparr>)"
| pop_read: "th_pop s = PopRead t \<Longrightarrow>
    thread_step mv s (s\<lparr>th_pop := PopStore (th_buffer s ! t) t,
      th_buffer := (th_buffer s)[t := mv (th_buffer s ! t)]\<rparr>)"
| pop_publish: "th_pop s = PopStore x t \<Longrightarrow>
    thread_step mv s (s\<lparr>th_pop := PopIdle, th_tails := th_tails s @ [(t + 1) mod length (th_buffer s)],
      th_popped := th_popped s @ [x]\<rparr>)"

inductive threads_reach :: "('a \<Rightarrow> 'a) \<Rightarrow> 'a list \<Rightarrow> 'a threads \<Rightarrow> bool" for mv initial where
  start: "threads_reach mv initial (start_threads initial)"
| step: "threads_reach mv initial s \<Longrightarrow> thread_step mv s s' \<Longrightarrow> threads_reach mv initial s'"

section \<open>The invariant\<close>

lemma mod_window:
  assumes "a \<le> b" "b < a + n"
  shows "a mod n = b mod n \<longleftrightarrow> a = (b :: nat)"
proof
  assume "a mod n = b mod n"
  then have "n dvd b - a" using assms(1) mod_eq_dvd_iff_nat [of a b n] by metis
  moreover have "b - a < n" using assms by simp
  ultimately have "b - a = 0" by (metis dvd_imp_le not_le not_gr0)
  then show "a = b" using assms(1) by simp
qed simp

text \<open>
  With \<open>P\<close> items pushed and \<open>C\<close> popped: both modification orders count around the ring, each thread's
  view of the other is behind but close enough, and the slots from \<open>C\<close> (past the one being read) up
  to \<open>P\<close> hold the items that are still to be popped.
\<close>

definition ring_order :: "nat \<Rightarrow> nat \<Rightarrow> nat list \<Rightarrow> bool" where
  "ring_order n c xs \<longleftrightarrow> xs = map (\<lambda>k. k mod n) [0..<Suc c]"

fun push_ok :: "nat \<Rightarrow> 'a threads \<Rightarrow> bool" where
  "push_ok n s \<longleftrightarrow> (let p = length (th_pushed s) in
     case th_push s of
       PushIdle \<Rightarrow> True
     | PushCheck x h nx \<Rightarrow> h = p mod n \<and> nx = Suc p mod n
     | PushWrite x h nx \<Rightarrow> h = p mod n \<and> nx = Suc p mod n \<and> Suc p < th_seen_tails s + n
     | PushStore x nx \<Rightarrow> nx = Suc p mod n \<and> Suc p < th_seen_tails s + n \<and> th_buffer s ! (p mod n) = x)"

fun pop_ok :: "nat \<Rightarrow> 'a threads \<Rightarrow> bool" where
  "pop_ok n s \<longleftrightarrow> (let c = length (th_popped s) in
     case th_pop s of
       PopIdle \<Rightarrow> True
     | PopCheck t \<Rightarrow> t = c mod n
     | PopRead t \<Rightarrow> t = c mod n \<and> c < th_seen_heads s
     | PopStore x t \<Rightarrow> t = c mod n \<and> c < th_seen_heads s \<and> x = th_pushed s ! c)"

definition first_held :: "'a threads \<Rightarrow> nat" where
  "first_held s = (case th_pop s of PopStore _ _ \<Rightarrow> Suc (length (th_popped s)) | _ \<Rightarrow> length (th_popped s))"

definition threads_inv :: "nat \<Rightarrow> 'a threads \<Rightarrow> bool" where
  "threads_inv n s \<longleftrightarrow>
     0 < n \<and> length (th_buffer s) = n \<and>
     ring_order n (length (th_pushed s)) (th_heads s) \<and> ring_order n (length (th_popped s)) (th_tails s) \<and>
     th_seen_tails s \<le> length (th_popped s) \<and> length (th_pushed s) < th_seen_tails s + n \<and>
     length (th_popped s) \<le> th_seen_heads s \<and> th_seen_heads s \<le> length (th_pushed s) \<and>
     push_ok n s \<and> pop_ok n s \<and>
     th_popped s = take (length (th_popped s)) (th_pushed s) \<and>
     (\<forall>k. first_held s \<le> k \<and> k < length (th_pushed s) \<longrightarrow> th_buffer s ! (k mod n) = th_pushed s ! k)"

lemma ring_order_simps:
  assumes "ring_order n c xs"
  shows "last xs = c mod n" "k < length xs \<Longrightarrow> xs ! k = k mod n" "k < length xs \<longleftrightarrow> k \<le> c"
    "ring_order n (Suc c) (xs @ [Suc c mod n])"
proof -
  show "last xs = c mod n" using assms by (simp add: ring_order_def)
  have len: "length xs = Suc c" using assms by (simp add: ring_order_def del: upt_Suc)
  show "k < length xs \<Longrightarrow> xs ! k = k mod n" using assms len by (simp add: ring_order_def del: upt_Suc)
  show "k < length xs \<longleftrightarrow> k \<le> c" using len by auto
  show "ring_order n (Suc c) (xs @ [Suc c mod n])" using assms by (simp add: ring_order_def)
qed

lemma start_inv: "initial \<noteq> [] \<Longrightarrow> threads_inv (length initial) (start_threads initial)"
  by (simp add: threads_inv_def start_threads_def ring_order_def)

text \<open>The slot that the producer fills next is none of those that the consumer still has to empty.\<close>

lemma free_slot:
  assumes "threads_inv n s" "Suc (length (th_pushed s)) < th_seen_tails s + n"
    "length (th_popped s) \<le> k" "k < length (th_pushed s)"
  shows "k mod n \<noteq> length (th_pushed s) mod n"
proof -
  have "length (th_pushed s) < k + n" using assms by (simp add: threads_inv_def)
  then show ?thesis using mod_window [of k "length (th_pushed s)" n] assms(4) by simp
qed

lemma threads_inv_step:
  assumes "thread_step mv s s'" and inv: "threads_inv n s"
  shows "threads_inv n s'"
  using assms(1)
proof cases
  case (push_begin x)
  then show ?thesis using inv ring_order_simps(1) [of n "length (th_pushed s)" "th_heads s"]
    by (auto simp: threads_inv_def Let_def mod_Suc_eq first_held_def cong: pop_at.case_cong)
next
  case (push_check x h nx k)
  let ?p = "length (th_pushed s)" and ?c = "length (th_popped s)"
  have rt: "ring_order n ?c (th_tails s)" using inv by (simp add: threads_inv_def)
  have k: "th_tails s ! k = k mod n" "k \<le> ?c"
    using ring_order_simps(2,3) [OF rt, of k] push_check by auto
  have h: "h = ?p mod n" "nx = Suc ?p mod n" using inv push_check by (auto simp: threads_inv_def Let_def)
  have w: "?p < k + n" using inv push_check by (simp add: threads_inv_def)
  have kp: "k \<le> Suc ?p" using inv k by (simp add: threads_inv_def)
  have "Suc ?p < k + n" if "nx \<noteq> k mod n"
  proof (rule ccontr)
    assume "\<not> Suc ?p < k + n"
    then have "Suc ?p = k + n" using w by simp
    then show False using that h by simp
  qed
  then show ?thesis using inv push_check k h w
    by (auto simp: threads_inv_def Let_def first_held_def cong: pop_at.case_cong)
next
  case (push_write x h nx)
  let ?p = "length (th_pushed s)"
  have h: "h = ?p mod n" "nx = Suc ?p mod n" "Suc ?p < th_seen_tails s + n" "0 < n" "length (th_buffer s) = n"
    using inv push_write by (auto simp: threads_inv_def Let_def)
  have other: "(th_buffer s)[h := x] ! (k mod n) = th_pushed s ! k"
    if "first_held s \<le> k" "k < ?p" for k
  proof -
    have "length (th_popped s) \<le> k" using that(1) by (auto simp: first_held_def split: pop_at.splits)
    then show ?thesis using free_slot [OF inv h(3) _ that(2)] inv that h by (auto simp: threads_inv_def)
  qed
  show ?thesis using inv push_write h other
    by (auto simp: threads_inv_def Let_def first_held_def cong: pop_at.case_cong)
next
  case (push_publish x nx)
  let ?p = "length (th_pushed s)"
  have r: "ring_order n ?p (th_heads s)" using inv by (simp add: threads_inv_def)
  have h: "nx = Suc ?p mod n" "Suc ?p < th_seen_tails s + n" "th_buffer s ! (?p mod n) = x"
    using inv push_publish by (auto simp: threads_inv_def Let_def)
  have c: "length (th_popped s) \<le> ?p" using inv by (simp add: threads_inv_def)
  have po: "pop_ok n s'" using inv push_publish
    by (auto simp: threads_inv_def Let_def nth_append split: pop_at.splits)
  have "first_held s' = first_held s" using push_publish by (simp add: first_held_def cong: pop_at.case_cong)
  moreover have "th_popped s' = take (length (th_popped s')) (th_pushed s')"
    using inv push_publish c by (simp add: threads_inv_def)
  ultimately show ?thesis using inv push_publish h po ring_order_simps(4) [OF r]
    by (auto simp: threads_inv_def nth_append less_Suc_eq)
next
  case pop_begin
  then show ?thesis using inv ring_order_simps(1) [of n "length (th_popped s)" "th_tails s"]
    by (auto simp: threads_inv_def Let_def first_held_def cong: push_at.case_cong)
next
  case (pop_check t k)
  let ?p = "length (th_pushed s)" and ?c = "length (th_popped s)"
  have rt: "ring_order n ?p (th_heads s)" using inv by (simp add: threads_inv_def)
  have k: "th_heads s ! k = k mod n" "k \<le> ?p"
    using ring_order_simps(2,3) [OF rt, of k] pop_check by auto
  have t: "t = ?c mod n" "?c \<le> k" using inv pop_check by (auto simp: threads_inv_def Let_def)
  have "?c < k" if "t \<noteq> k mod n" using that t by (cases "?c = k") auto
  then show ?thesis using inv pop_check k t
    by (auto simp: threads_inv_def Let_def first_held_def cong: push_at.case_cong)
next
  case (pop_read t)
  let ?p = "length (th_pushed s)" and ?c = "length (th_popped s)"
  have t: "t = ?c mod n" "?c < ?p" "?p < ?c + n" "length (th_buffer s) = n" "0 < n" "first_held s = ?c"
    using inv pop_read by (auto simp: threads_inv_def Let_def first_held_def)
  then have x: "th_buffer s ! t = th_pushed s ! ?c" using inv by (auto simp: threads_inv_def)
  have other: "(th_buffer s)[t := y] ! (k mod n) = th_buffer s ! (k mod n)" if "?c < k" "k < ?c + n" for k y
    using mod_window [of ?c k n] that t by auto
  have po: "push_ok n s'"
  proof (cases "th_push s")
    case (PushStore y nx)
    then show ?thesis using inv pop_read other [of ?p] t by (auto simp: threads_inv_def Let_def)
  qed (use inv pop_read in \<open>auto simp: threads_inv_def Let_def\<close>)
  show ?thesis using inv pop_read t x other po
    by (auto simp: threads_inv_def Let_def first_held_def)
next
  case (pop_publish x t)
  let ?c = "length (th_popped s)"
  have r: "ring_order n ?c (th_tails s)" using inv by (simp add: threads_inv_def)
  have t: "t = ?c mod n" "?c < th_seen_heads s" "x = th_pushed s ! ?c" "?c < length (th_pushed s)"
    using inv pop_publish by (auto simp: threads_inv_def Let_def)
  have "th_popped s' = take (length (th_popped s')) (th_pushed s')"
    using inv pop_publish t by (simp add: threads_inv_def take_Suc_conv_app_nth)
  moreover have "first_held s' = first_held s" using pop_publish by (simp add: first_held_def)
  moreover have "(t + 1) mod n = Suc ?c mod n" using t by (simp add: mod_Suc_eq)
  ultimately show ?thesis using inv pop_publish t ring_order_simps(4) [OF r]
    by (auto simp: threads_inv_def Let_def cong: push_at.case_cong)
qed

lemma reach_inv: "threads_reach mv initial s \<Longrightarrow> initial \<noteq> [] \<Longrightarrow> threads_inv (length initial) s"
  by (induction rule: threads_reach.induct) (auto intro: start_inv threads_inv_step)

section \<open>Whole calls\<close>

text \<open>The queue as an object, and the runs of one thread that make up a call.\<close>

definition th_queue :: "'a threads \<Rightarrow> 'a spsc_queue" where
  "th_queue s = \<lparr>spsc_buffer = th_buffer s, spsc_head = last (th_heads s), spsc_tail = last (th_tails s)\<rparr>"

lemma last_index: "ring_order n c xs \<Longrightarrow> xs ! c = last xs \<and> c < length xs"
  by (simp add: ring_order_def nth_append)

text \<open>A call of \<open>push\<close> that loads the latest \<open>_tail\<close> is \<open>spsc_push\<close>.\<close>

lemma push_call:
  assumes inv: "threads_inv n s" and idle: "th_push s = PushIdle"
    and push: "spsc_push x (th_queue s) = Inr (ok, q')"
  shows "\<exists>s'. (thread_step mv)\<^sup>*\<^sup>* s s' \<and> th_queue s' = q' \<and> th_push s' = PushIdle \<and> th_pop s' = th_pop s \<and>
    th_pushed s' = th_pushed s @ (if ok then [x] else []) \<and> th_popped s' = th_popped s"
proof -
  let ?h = "last (th_heads s)" and ?N = "length (th_buffer s)" and ?k = "length (th_popped s)"
  let ?n = "(?h + 1) mod ?N"
  have ne: "th_buffer s \<noteq> []" "?h < ?N" and lt: "th_tails s ! ?k = last (th_tails s)" "?k < length (th_tails s)"
    and seen: "th_seen_tails s \<le> ?k"
    using inv last_index [of n ?k "th_tails s"] ring_order_simps(1) [of n "length (th_pushed s)" "th_heads s"]
    by (auto simp: threads_inv_def)
  let ?s1 = "s\<lparr>th_push := PushCheck x ?h ?n\<rparr>"
  let ?s2 = "?s1\<lparr>th_push := (if ?n = th_tails s ! ?k then PushIdle else PushWrite x ?h ?n), th_seen_tails := ?k\<rparr>"
  have 1: "thread_step mv s ?s1" by (rule push_begin [OF idle ne(1)])
  have 2: "thread_step mv ?s1 ?s2" using push_check [of ?s1 x ?h ?n ?k mv] lt seen by simp
  show ?thesis
  proof (cases "?n = last (th_tails s)")
    case True
    then have "ok = False" "q' = th_queue s"
      using push ne by (auto simp: spsc_push_def th_queue_def ring_next_def Let_def)
    moreover have "th_queue ?s2 = th_queue s" by (simp add: th_queue_def)
    moreover have "(thread_step mv)\<^sup>*\<^sup>* s ?s2"
      using 1 2 by (meson converse_rtranclp_into_rtranclp rtranclp.rtrancl_refl)
    ultimately show ?thesis using True lt(1) by (intro exI [of _ ?s2]) simp
  next
    case False
    let ?s3 = "?s2\<lparr>th_push := PushStore x ?n, th_buffer := (th_buffer s)[?h := x]\<rparr>"
    let ?s4 = "?s3\<lparr>th_push := PushIdle, th_heads := th_heads s @ [?n], th_pushed := th_pushed s @ [x]\<rparr>"
    have 3: "thread_step mv ?s2 ?s3" using push_write [of ?s2 x ?h ?n mv] False lt(1) by simp
    have 4: "thread_step mv ?s3 ?s4" using push_publish [of ?s3 x ?n mv] by simp
    have "(thread_step mv)\<^sup>*\<^sup>* s ?s4" using 1 2 3 4 by (meson converse_rtranclp_into_rtranclp rtranclp.rtrancl_refl)
    moreover have "ok = True" "q' = th_queue ?s4"
      using push ne False by (auto simp: spsc_push_def th_queue_def ring_next_def Let_def)
    ultimately show ?thesis by (intro exI [of _ ?s4]) simp
  qed
qed

lemma pop_call:
  assumes inv: "threads_inv n s" and idle: "th_pop s = PopIdle"
    and pop: "spsc_pop mv (th_queue s) = Inr (r, q')"
  shows "\<exists>s'. (thread_step mv)\<^sup>*\<^sup>* s s' \<and> th_queue s' = q' \<and> th_pop s' = PopIdle \<and> th_push s' = th_push s \<and>
    th_popped s' = th_popped s @ (case r of None \<Rightarrow> [] | Some x \<Rightarrow> [x]) \<and> th_pushed s' = th_pushed s"
proof -
  let ?t = "last (th_tails s)" and ?N = "length (th_buffer s)" and ?k = "length (th_pushed s)"
  have ne: "th_buffer s \<noteq> []" "?t < ?N" and lt: "th_heads s ! ?k = last (th_heads s)" "?k < length (th_heads s)"
    and seen: "th_seen_heads s \<le> ?k"
    using inv last_index [of n ?k "th_heads s"] ring_order_simps(1) [of n "length (th_popped s)" "th_tails s"]
    by (auto simp: threads_inv_def)
  let ?s1 = "s\<lparr>th_pop := PopCheck ?t\<rparr>"
  let ?s2 = "?s1\<lparr>th_pop := (if ?t = th_heads s ! ?k then PopIdle else PopRead ?t), th_seen_heads := ?k\<rparr>"
  have 1: "thread_step mv s ?s1" by (rule pop_begin [OF idle])
  have 2: "thread_step mv ?s1 ?s2" using pop_check [of ?s1 ?t ?k mv] lt seen by simp
  show ?thesis
  proof (cases "?t = last (th_heads s)")
    case True
    then have "r = None" "q' = th_queue s" using pop by (auto simp: spsc_pop_def th_queue_def Let_def)
    moreover have "th_queue ?s2 = th_queue s" by (simp add: th_queue_def)
    moreover have "(thread_step mv)\<^sup>*\<^sup>* s ?s2"
      using 1 2 by (meson converse_rtranclp_into_rtranclp rtranclp.rtrancl_refl)
    ultimately show ?thesis using True lt(1) by (intro exI [of _ ?s2]) simp
  next
    case False
    let ?x = "th_buffer s ! ?t"
    let ?s3 = "?s2\<lparr>th_pop := PopStore ?x ?t, th_buffer := (th_buffer s)[?t := mv ?x]\<rparr>"
    let ?s4 = "?s3\<lparr>th_pop := PopIdle, th_tails := th_tails s @ [(?t + 1) mod ?N], th_popped := th_popped s @ [?x]\<rparr>"
    have 3: "thread_step mv ?s2 ?s3" using pop_read [of ?s2 ?t mv] False lt(1) by simp
    have 4: "thread_step mv ?s3 ?s4" using pop_publish [of ?s3 ?x ?t mv] by simp
    have "(thread_step mv)\<^sup>*\<^sup>* s ?s4" using 1 2 3 4 by (meson converse_rtranclp_into_rtranclp rtranclp.rtrancl_refl)
    moreover have "r = Some ?x" "q' = th_queue ?s4"
      using pop ne False by (auto simp: spsc_pop_def th_queue_def ring_next_def Let_def)
    ultimately show ?thesis by (intro exI [of _ ?s4]) simp
  qed
qed

text \<open>Between calls, the queue holds exactly the items pushed and not yet popped.\<close>

lemma idle_items:
  assumes inv: "threads_inv n s" and idle: "th_pop s = PopIdle"
  shows "spsc_inv (th_queue s)" "spsc_items (th_queue s) = drop (length (th_popped s)) (th_pushed s)"
proof -
  let ?p = "length (th_pushed s)" and ?c = "length (th_popped s)"
  have n: "0 < n" "length (th_buffer s) = n" "?c \<le> ?p" "?p < ?c + n" "first_held s = ?c"
    using inv idle by (auto simp: threads_inv_def first_held_def)
  have hd: "last (th_heads s) = ?p mod n" and tl: "last (th_tails s) = ?c mod n"
    using inv ring_order_simps(1) by (auto simp: threads_inv_def)
  show 1: "spsc_inv (th_queue s)" using n hd tl by (simp add: spsc_inv_def th_queue_def)
  have "(?c mod n + (?p - ?c)) mod n = ?p mod n" using n(3) by (metis le_add_diff_inverse mod_add_left_eq)
  then have size: "spsc_size (th_queue s) = ?p - ?c"
    using ring_index(1) [OF 1, of "?p - ?c"] n hd tl by (simp add: th_queue_def)
  have "spsc_items (th_queue s) ! k = drop ?c (th_pushed s) ! k" if "k < ?p - ?c" for k
  proof -
    have "th_buffer s ! ((?c + k) mod n) = th_pushed s ! (?c + k)"
      using inv n(5) that by (simp add: threads_inv_def)
    then show ?thesis using that size tl n(2,3)
      by (simp add: spsc_items_def th_queue_def mod_add_left_eq)
  qed
  then show "spsc_items (th_queue s) = drop ?c (th_pushed s)" using size by (intro nth_equalityI) simp_all
qed

lemma reach_steps: "(thread_step mv)\<^sup>*\<^sup>* s s' \<Longrightarrow> threads_reach mv initial s \<Longrightarrow> threads_reach mv initial s'"
  by (induction rule: rtranclp_induct) (auto intro: threads_reach.step)

section \<open>Properties\<close>

text \<open>
  C7: however the two threads interleave, and however stale the indices are that they load of each
  other, the items popped are a prefix of the items pushed, in order: none is lost, repeated or torn;
  and never more than the capacity less one are in the queue.
\<close>

theorem threads_fifo:
  assumes "threads_reach mv initial s" "initial \<noteq> []"
  shows "th_popped s = take (length (th_popped s)) (th_pushed s) \<and>
    length (th_popped s) \<le> length (th_pushed s) \<and>
    length (th_pushed s) - length (th_popped s) \<le> length initial - 1"
  using reach_inv [OF assms] by (auto simp: threads_inv_def)

text \<open>A run: the producer pushes 5 and starts to push 6 while the consumer pops.\<close>

definition ex_run :: "nat threads" where
  "ex_run = (let s = start_threads [0, 0, 0] in
     s\<lparr>th_buffer := [5, 0, 0], th_heads := [0, 1], th_pushed := [5], th_push := PushWrite 6 1 2,
       th_pop := PopRead 0, th_seen_heads := 1\<rparr>)"

lemma ex_run_reach: "threads_reach (\<lambda>_. 0) [0, 0, 0] ex_run"
proof -
  let ?s0 = "start_threads [0, 0, 0 :: nat]" and ?st = "thread_step (\<lambda>_. 0 :: nat)"
  let ?s1 = "?s0\<lparr>th_push := PushCheck 5 0 1\<rparr>"
  let ?s2 = "?s1\<lparr>th_push := PushWrite 5 0 1, th_seen_tails := 0\<rparr>"
  let ?s3 = "?s2\<lparr>th_push := PushStore 5 1, th_buffer := [5, 0, 0]\<rparr>"
  let ?s4 = "?s3\<lparr>th_push := PushIdle, th_heads := [0, 1], th_pushed := [5]\<rparr>"
  let ?s5 = "?s4\<lparr>th_push := PushCheck 6 1 2\<rparr>"
  let ?s6 = "?s5\<lparr>th_push := PushWrite 6 1 2, th_seen_tails := 0\<rparr>"
  let ?s7 = "?s6\<lparr>th_pop := PopCheck 0\<rparr>"
  let ?s8 = "?s7\<lparr>th_pop := PopRead 0, th_seen_heads := 1\<rparr>"
  have "?st ?s0 ?s1" "?st ?s4 ?s5" "?st ?s6 ?s7"
    using push_begin [of ?s0 "\<lambda>_. 0" 5] push_begin [of ?s4 "\<lambda>_. 0" 6] pop_begin [of ?s6 "\<lambda>_. 0"]
    by (simp_all add: start_threads_def numeral_2_eq_2)
  moreover have "?st ?s1 ?s2" "?st ?s5 ?s6" "?st ?s7 ?s8"
    using push_check [of ?s1 5 0 1 0 "\<lambda>_. 0"] push_check [of ?s5 6 1 2 0 "\<lambda>_. 0"]
      pop_check [of ?s7 0 1 "\<lambda>_. 0"] by (simp_all add: start_threads_def)
  moreover have "?st ?s2 ?s3" "?st ?s3 ?s4"
    using push_write [of ?s2 5 0 1 "\<lambda>_. 0"] push_publish [of ?s3 5 1 "\<lambda>_. 0"] by (simp_all add: start_threads_def)
  ultimately have "threads_reach (\<lambda>_. 0) [0, 0, 0] ?s8"
    by (meson threads_reach.step threads_reach.start)
  moreover have "?s8 = ex_run" by (simp add: ex_run_def start_threads_def)
  ultimately show ?thesis by simp
qed

theorem threads_fifo_witness:
  "th_popped ex_run = [] \<and> length (th_pushed ex_run) - length (th_popped ex_run) \<le> 2"
proof -
  have "th_popped ex_run = []" by (simp add: ex_run_def start_threads_def)
  then show ?thesis using threads_fifo [OF ex_run_reach] by simp
qed

text \<open>
  C8: the two threads never race for a slot: when the producer is about to write one, the consumer is
  not about to move an item out of the same one.
\<close>

theorem threads_exclusive:
  assumes "threads_reach mv initial s" "initial \<noteq> []" "th_push s = PushWrite x h n" "th_pop s = PopRead t"
  shows "h \<noteq> t \<and> h < length (th_buffer s) \<and> t < length (th_buffer s)"
proof -
  let ?p = "length (th_pushed s)" and ?c = "length (th_popped s)" and ?N = "length initial"
  have inv: "threads_inv ?N s" by (rule reach_inv [OF assms(1,2)])
  have a: "h = ?p mod ?N" "Suc ?p < th_seen_tails s + ?N" "t = ?c mod ?N" "?c < ?p"
    "0 < ?N" "length (th_buffer s) = ?N"
    using inv assms(3,4) by (auto simp: threads_inv_def Let_def)
  then show ?thesis using free_slot [OF inv a(2), of ?c] by auto
qed

theorem threads_exclusive_witness:
  "\<exists>h t x n. th_push ex_run = PushWrite x h n \<and> th_pop ex_run = PopRead t \<and> h \<noteq> t"
proof -
  have "th_push ex_run = PushWrite 6 1 2" "th_pop ex_run = PopRead 0" by (simp_all add: ex_run_def)
  then show ?thesis using threads_exclusive [OF ex_run_reach] by blast
qed

text \<open>
  C31: nothing pushed is stuck: whenever the consumer is between two calls and an item has been pushed
  that it has not popped, a call of \<open>pop\<close> that loads the latest \<open>_head\<close> returns the oldest such item,
  whatever the producer is in the middle of.
\<close>

theorem threads_pop_next:
  assumes "threads_reach mv initial s" "initial \<noteq> []" "th_pop s = PopIdle"
    "length (th_popped s) < length (th_pushed s)"
  shows "\<exists>s'. (thread_step mv)\<^sup>*\<^sup>* s s' \<and> th_pop s' = PopIdle \<and> th_push s' = th_push s \<and>
    th_pushed s' = th_pushed s \<and> th_popped s' = th_popped s @ [th_pushed s ! length (th_popped s)]"
proof -
  let ?c = "length (th_popped s)"
  have inv: "threads_inv (length initial) s" by (rule reach_inv [OF assms(1,2)])
  note items = idle_items [OF inv assms(3)]
  have "spsc_items (th_queue s) = th_pushed s ! ?c # drop (Suc ?c) (th_pushed s)"
    using items(2) Cons_nth_drop_Suc [OF assms(4)] by simp
  then obtain q' where "spsc_pop mv (th_queue s) = Inr (Some (th_pushed s ! ?c), q')"
    using spsc.get_ok [OF items(1)] by blast
  from pop_call [OF inv assms(3) this] show ?thesis by auto
qed

theorem threads_pop_next_witness:
  "\<exists>s s'. threads_reach (\<lambda>_. 0 :: nat) [0, 0] s \<and> (thread_step (\<lambda>_. 0))\<^sup>*\<^sup>* s s' \<and> th_popped s' = [7]"
proof -
  have start: "threads_reach (\<lambda>_. 0 :: nat) [0, 0] (start_threads [0, 0])" by (rule threads_reach.start)
  have inv: "threads_inv 2 (start_threads [0, 0 :: nat])"
    using start_inv [of "[0, 0 :: nat]"] by (simp add: numeral_2_eq_2)
  have "spsc_push 7 (th_queue (start_threads [0, 0 :: nat])) =
      Inr (True, \<lparr>spsc_buffer = [7, 0], spsc_head = 1, spsc_tail = 0\<rparr>)"
    by (simp add: spsc_push_def th_queue_def start_threads_def ring_next_def)
  from push_call [OF inv _ this, of "\<lambda>_. 0"] obtain s where
    s: "(thread_step (\<lambda>_. 0 :: nat))\<^sup>*\<^sup>* (start_threads [0, 0]) s" "th_pop s = PopIdle" "th_pushed s = [7 :: nat]" "th_popped s = []"
    by (auto simp: start_threads_def)
  have reach: "threads_reach (\<lambda>_. 0) [0, 0] s" by (rule reach_steps [OF s(1) start])
  from threads_pop_next [OF reach _ s(2)] s(3,4) reach show ?thesis by auto
qed

end
