(* ===== verification/Book_Group.thy ===== *)
theory Book_Group
  imports Book_Example
begin

text \<open>
  Several books on one id allocator, as the workers of the program run them. \<open>id_space\<close> is what a book
  has used or may still use of the ids without drawing another block; the spaces of different books
  are disjoint, whatever requests the books answer, so an order id names one order in the whole program.
\<close>

section \<open>The ids of a book\<close>

definition held_ids :: "orderbook \<Rightarrow> order_id set" where
  "held_ids ob = {i. \<exists>p ord. orders ob p = Some ord \<and> ord_id ord = i}"

definition id_space :: "orderbook \<Rightarrow> order_id set" where
  "id_space ob = held_ids ob \<union>
     {i. ob_next_available_order_id ob \<le> i \<and> i < blk_end (ob_order_id_block ob)}"

definition ids_grow :: "world \<Rightarrow> orderbook \<Rightarrow> world \<Rightarrow> orderbook \<Rightarrow> bool" where
  "ids_grow w ob w' ob' \<longleftrightarrow>
     (wd_ids w' = wd_ids w \<and> id_space ob' \<subseteq> id_space ob) \<or>
     (block_left (wd_ids w) \<and> wd_ids w' = snd (get_next_id_block (wd_ids w)) \<and>
      id_space ob' \<subseteq> id_space ob \<union>
        {i. ida_global_counter (wd_ids w) \<le> i \<and> i < ida_global_counter (wd_ids w')})"

lemma id_space_below:
  assumes "book_inv ob" "ids_ok w ob" "i \<in> id_space ob"
  shows "i < ida_global_counter (wd_ids w)"
proof (cases "i \<in> held_ids ob")
  case True
  then have "i < ob_next_available_order_id ob"
    using assms(1) by (auto simp: held_ids_def book_inv_def orders_inv_def)
  then show ?thesis using assms(2) unfolding ids_ok_def by (meson less_le_trans)
next
  case False
  then have "i < blk_end (ob_order_id_block ob)" using assms(3) by (simp add: id_space_def)
  then show ?thesis using assms(2) unfolding ids_ok_def by (meson less_le_trans)
qed

lemma held_ids_upd:
  assumes "orders ob p = Some old" "orders ob' = (orders ob)(p \<mapsto> new)" "ord_id new = ord_id old"
  shows "held_ids ob' = held_ids ob"
proof -
  have "(\<exists>q ord. orders ob' q = Some ord \<and> ord_id ord = i) \<longleftrightarrow> (\<exists>q ord. orders ob q = Some ord \<and> ord_id ord = i)" for i
    using assms by (metis fun_upd_apply option.inject)
  then show ?thesis by (simp add: held_ids_def)
qed

lemma held_ids_settles:
  assumes "settles ts ob ob'"
  shows "held_ids ob' = held_ids ob"
proof -
  have r: "rel_option (settled ts) (orders ob p) (orders ob' p)" for p using assms by (simp add: settles_def)
  have "(\<exists>a. orders ob' p = Some a \<and> ord_id a = i) \<longleftrightarrow> (\<exists>a. orders ob p = Some a \<and> ord_id a = i)" for p i
    using r [of p] by (cases "orders ob p"; cases "orders ob' p") (auto simp: settled_def)
  then show ?thesis by (simp add: held_ids_def)
qed

lemma id_space_keeps: "keeps ob ob' \<Longrightarrow> held_ids ob' = held_ids ob \<Longrightarrow> id_space ob' = id_space ob"
  by (simp add: id_space_def keeps_def)

lemma ids_drawn_space:
  assumes ok: "ids_ok w ob" "ids_room w ob" and ok': "ids_ok w' ob'" and dr: "ids_drawn w ob i w' ob'"
    and held: "held_ids ob' = insert i (held_ids ob)" and lt: "i < ob_next_available_order_id ob'"
  shows "ids_grow w ob w' ob'"
proof -
  have next': "ob_next_available_order_id ob' = i + 1" using dr by (simp add: ids_drawn_def)
  have end': "i < blk_end (ob_order_id_block ob')" using lt ok' by (auto simp: ids_ok_def)
  have above: "i \<le> j" if "ob_next_available_order_id ob' \<le> j" for j using that lt by auto
  show ?thesis
  proof (cases "ob_next_available_order_id ob = blk_end (ob_order_id_block ob)")
    case True
    let ?c = "ida_global_counter (wd_ids w)"
    have left: "block_left (wd_ids w)" using ok(2) True by (simp add: ids_room_def)
    have blk: "(ob_order_id_block ob', wd_ids w') = get_next_id_block (wd_ids w)" "i = blk_start (ob_order_id_block ob')"
      using dr True by (simp_all add: ids_drawn_def)
    then have w': "wd_ids w' = snd (get_next_id_block (wd_ids w))" "i = ?c"
        "blk_end (ob_order_id_block ob') = ida_global_counter (wd_ids w')"
      by (simp_all add: get_next_id_block_def Let_def)
    have "id_space ob' \<subseteq> id_space ob \<union> {j. ?c \<le> j \<and> j < ida_global_counter (wd_ids w')}"
      using held end' above w'(2,3) by (auto simp: id_space_def)
    then show ?thesis using left w'(1) by (simp add: ids_grow_def)
  next
    case False
    then have same: "i = ob_next_available_order_id ob" "ob_order_id_block ob' = ob_order_id_block ob" "wd_ids w' = wd_ids w"
      using dr by (simp_all add: ids_drawn_def)
    have "id_space ob' \<subseteq> id_space ob" using held end' above same by (auto simp: id_space_def)
    then show ?thesis using same(3) by (simp add: ids_grow_def)
  qed
qed

lemma ids_stay:
  "wd_ids w' = wd_ids w \<Longrightarrow> keeps ob ob' \<Longrightarrow> held_ids ob' = held_ids ob \<Longrightarrow> ids_grow w ob w' ob'"
  using id_space_keeps by (simp add: ids_grow_def)

lemma wtick_ids [simp]: "wd_ids (wtick w) = wd_ids w"
  by (simp add: wtick_def)

lemma add_ids_grow:
  assumes b: "book_inv ob" "ids_ok w ob" and adm: "admissible (Add client) (w, ob)"
    and p: "perform (Add client) (w, ob) = Inr (w', ob')"
  shows "ids_grow w ob w' ob'"
proof -
  have a: "pool_room (ob_order_pool ob)" "ids_room w ob" "\<not> is_nan (ord_price client)"
    using adm by (simp_all add: admissible_def)
  obtain i q ord w1 ob1 where add: "add_order client (w, ob) =
      rbind (try_match (w1, ob1)) (\<lambda>(_, w2, ob2). Inr (i, w2, ob2))"
    and ent: "entered ord i q ob ob1" and ob1: "book_inv ob1" "ids_ok w1 ob1" and dr: "ids_drawn w ob i w1 ob1"
    by (rule add_order_enters [OF b(1) a(1) b(2) a(2,3)])
  obtain c w2 ob2 ts where m: "try_match (w1, ob1) = Inr (c, w2, ob2)" "wd_ids w2 = wd_ids w1" "settles ts ob1 ob2"
    using try_match_total [OF ob1(1)] by blast
  have out: "w' = w2" "ob' = ob2" using p add m(1) by (simp_all add: perform_def)
  have o1: "orders ob1 = (orders ob)(q \<mapsto> ord)" "orders ob q = None" "ord_id ord = i"
    using ent by (simp_all add: entered_def)
  have "held_ids ob1 = insert i (held_ids ob)"
  proof -
    have "(\<exists>x a. orders ob1 x = Some a \<and> ord_id a = j) \<longleftrightarrow>
        j = i \<or> (\<exists>x a. orders ob x = Some a \<and> ord_id a = j)" for j
      using o1 by (metis fun_upd_apply option.distinct(1) option.inject)
    then show ?thesis by (auto simp: held_ids_def)
  qed
  moreover have "orders ob1 q = Some ord" using o1 by simp
  then have "i < ob_next_available_order_id ob1"
    using ob1(1) o1(3) unfolding book_inv_def orders_inv_def by blast
  ultimately have "ids_grow w ob w1 ob1" by (intro ids_drawn_space [OF b(2) a(2) ob1(2) dr])
  moreover have "id_space ob2 = id_space ob1"
    using id_space_keeps held_ids_settles [OF m(3)] m(3) by (simp add: settles_def)
  ultimately show ?thesis using out m(2) by (simp add: ids_grow_def)
qed

lemma cancel_ids_grow:
  assumes b: "book_inv ob" and p: "perform (Cancel i) (w, ob) = Inr (w', ob')"
  shows "ids_grow w ob w' ob'"
proof (cases "\<exists>q ord. orders ob q = Some ord \<and> ord_id ord = i \<and> active ord")
  case True
  then obtain q ord where q: "orders ob q = Some ord" "ord_id ord = i" "active ord" by blast
  let ?c = "snd (cancel (wnow w) ord)"
  obtain ob2 where c: "cancel_order i (w, ob) = Inr (True, wtick w, ob2)" "orders ob2 = (orders ob)(q \<mapsto> ?c)"
      "\<exists>ls. ob2 = set_levels (ord_side ord) ls (write_order q ?c ob)"
    using cancel_active [OF b q(1,3), of w] q(2) by blast
  have out: "w' = wtick w" "ob' = ob2" using p c(1) by (simp_all add: perform_def)
  have "keeps ob ob2" using c(3) by auto
  then show ?thesis unfolding out using held_ids_upd [OF q(1) c(2)] by (intro ids_stay) simp_all
next
  case False
  then have "cancel_order i (w, ob) = Inr (False, w, ob)" using cancel_refused [OF b] by blast
  then show ?thesis using ids_stay [of w w ob ob] p by (simp add: perform_def)
qed

lemma modify_keeps:
  assumes b: "book_inv ob" and adm: "admissible (Modify i np nq) (w, ob)"
    and q: "orders ob q = Some ord" "ord_id ord = i" "active ord" "validate_modify_order ord np nq"
  shows "\<exists>c w' ob' new. modify_order i np nq (w, ob) = Inr (c, w', ob') \<and> wd_ids w' = wd_ids w \<and>
    keeps ob ob' \<and> orders ob' = (orders ob)(q \<mapsto> new) \<and> ord_id new = ord_id ord"
proof -
  have ord: "order_of ob i = Some ord" using order_of_Some [OF b] q by blast
  have np: "\<not> is_nan np" using adm by (simp add: admissible_def)
  consider (price) "\<not> dbl_eq (ord_price ord) np" | (up) "dbl_eq (ord_price ord) np" "nq > ord_quantity ord"
    | (down) "dbl_eq (ord_price ord) np" "nq \<le> ord_quantity ord" by fastforce
  then show ?thesis
  proof cases
    case price
    obtain ob2 where "modify_order i np nq (w, ob) = Inr (True, wtick w, ob2)"
        "orders ob2 = (orders ob)(q \<mapsto> modified (wnow w) np nq ord)" "keeps ob ob2"
      using modify_price [OF b q(1,3) np price q(4), of w] q(2) by blast
    then show ?thesis
      by (intro exI [of _ True] exI [of _ "wtick w"] exI [of _ ob2] exI [of _ "modified (wnow w) np nq ord"]) simp
  next
    case up
    have "shares_level ord (queue (ord_side ord) ob)" using adm ord up by (simp add: admissible_def)
    from modify_increase [OF b q(1,3,4) up this, of w]
    obtain ob2 ls where "modify_order i np nq (w, ob) = Inr (True, w, ob2)"
        "orders ob2 = (orders ob)(q \<mapsto> set_quantity nq ord)"
        "ob2 = set_levels (ord_side ord) ls (write_order q (set_quantity nq ord) ob)"
      using q(2) by blast
    then show ?thesis by (intro exI [of _ True] exI [of _ w] exI [of _ ob2] exI [of _ "set_quantity nq ord"]) simp
  next
    case down
    let ?ob2 = "if ord_quantity ord = nq then ob else write_order q (set_quantity nq ord) ob"
    let ?new = "if ord_quantity ord = nq then ord else set_quantity nq ord"
    have "orders ?ob2 = (orders ob)(q \<mapsto> ?new)" using orders_write [OF q(1)] q(1) by auto
    moreover have "modify_order i np nq (w, ob) = Inr (ord_quantity ord \<noteq> nq, w, ?ob2)"
      using modify_reduce(1) [OF b q(1,3,4) down] q(2) by simp
    ultimately show ?thesis by (intro exI [of _ "ord_quantity ord \<noteq> nq"] exI [of _ w] exI [of _ ?ob2] exI [of _ ?new]) simp
  qed
qed

lemma modify_ids_grow:
  assumes b: "book_inv ob" and adm: "admissible (Modify i np nq) (w, ob)"
    and p: "perform (Modify i np nq) (w, ob) = Inr (w', ob')"
  shows "ids_grow w ob w' ob'"
proof (cases "\<exists>q ord. orders ob q = Some ord \<and> ord_id ord = i \<and> active ord \<and> validate_modify_order ord np nq")
  case True
  then obtain q ord where q: "orders ob q = Some ord" "ord_id ord = i" "active ord" "validate_modify_order ord np nq"
    by blast
  obtain c w2 ob2 new where m: "modify_order i np nq (w, ob) = Inr (c, w2, ob2)" "wd_ids w2 = wd_ids w"
      "keeps ob ob2" "orders ob2 = (orders ob)(q \<mapsto> new)" "ord_id new = ord_id ord"
    using modify_keeps [OF b adm q] by blast
  then show ?thesis using ids_stay [OF m(2,3) held_ids_upd [OF q(1) m(4,5)]] p by (simp add: perform_def)
next
  case False
  then have "modify_order i np nq (w, ob) = Inr (False, w, ob)" using modify_refused [OF b] by blast
  then show ?thesis using ids_stay [of w w ob ob] p by (simp add: perform_def)
qed

lemma perform_ids_grow:
  "state_inv (w, ob) \<Longrightarrow> admissible r (w, ob) \<Longrightarrow> perform r (w, ob) = Inr (w', ob') \<Longrightarrow> ids_grow w ob w' ob'"
  by (cases r) (auto simp: state_inv_def intro: add_ids_grow cancel_ids_grow modify_ids_grow)

lemma perform_instrument:
  assumes "state_inv (w, ob)" "admissible r (w, ob)" "perform r (w, ob) = Inr (w', ob')"
  shows "ob_instrument ob' = ob_instrument ob"
proof (cases r)
  case (Add client)
  have a: "pool_room (ob_order_pool ob)" "ids_room w ob" "\<not> is_nan (ord_price client)"
    using assms(2) Add by (simp_all add: admissible_def)
  have b: "book_inv ob" "ids_ok w ob" using assms(1) by (simp_all add: state_inv_def)
  obtain i q ord w1 ob1 where add: "add_order client (w, ob) =
      rbind (try_match (w1, ob1)) (\<lambda>(_, w2, ob2). Inr (i, w2, ob2))"
    and ent: "entered ord i q ob ob1" and ob1: "book_inv ob1"
    by (rule add_order_enters [OF b(1) a(1) b(2) a(2,3)])
  obtain c w2 ob2 ts where m: "try_match (w1, ob1) = Inr (c, w2, ob2)" "settles ts ob1 ob2"
    using try_match_total [OF ob1] by blast
  then show ?thesis using assms(3) add ent Add by (simp add: perform_def entered_def settles_def keeps_def)
next
  case (Cancel i)
  have b: "book_inv ob" using assms(1) by (simp add: state_inv_def)
  show ?thesis
  proof (cases "\<exists>q ord. orders ob q = Some ord \<and> ord_id ord = i \<and> active ord")
    case True
    then obtain q ord where q: "orders ob q = Some ord" "ord_id ord = i" "active ord" by blast
    obtain ob2 where c: "cancel_order i (w, ob) = Inr (True, wtick w, ob2)"
        "\<exists>ls. ob2 = set_levels (ord_side ord) ls (write_order q (snd (cancel (wnow w) ord)) ob)"
      using cancel_active [OF b q(1,3), of w] q(2) by blast
    then show ?thesis using assms(3) Cancel by (auto simp: perform_def)
  next
    case False
    then show ?thesis using cancel_refused [OF b] assms(3) Cancel by (simp add: perform_def)
  qed
next
  case (Modify i np nq)
  have b: "book_inv ob" using assms(1) by (simp add: state_inv_def)
  show ?thesis
  proof (cases "\<exists>q ord. orders ob q = Some ord \<and> ord_id ord = i \<and> active ord \<and> validate_modify_order ord np nq")
    case True
    then show ?thesis using modify_keeps [OF b] assms(2,3) Modify by (fastforce simp: perform_def keeps_def)
  next
    case False
    then show ?thesis using modify_refused [OF b] assms(3) Modify by (simp add: perform_def)
  qed
qed

section \<open>A group of books\<close>

definition group_inv :: "world \<Rightarrow> orderbook list \<Rightarrow> bool" where
  "group_inv w obs \<longleftrightarrow> (\<forall>ob \<in> set obs. state_inv (w, ob)) \<and>
     (\<forall>i < length obs. \<forall>j < length obs. i \<noteq> j \<longrightarrow> id_space (obs ! i) \<inter> id_space (obs ! j) = {})"

lemma ids_grow_counter:
  "ids_grow w ob w' ob' \<Longrightarrow> ida_block_size (wd_ids w') = ida_block_size (wd_ids w) \<and>
     ida_global_counter (wd_ids w) \<le> ida_global_counter (wd_ids w')"
  by (auto simp: ids_grow_def block_left_def)

lemma ids_ok_later:
  assumes "ids_ok w ob" "ida_block_size (wd_ids w') = ida_block_size (wd_ids w)"
    "ida_global_counter (wd_ids w) \<le> ida_global_counter (wd_ids w')"
  shows "ids_ok w' ob"
  using assms by (auto simp: ids_ok_def)

lemma ids_grow_disjoint:
  assumes "ids_grow w ob w' ob'" "id_space ob \<inter> id_space other = {}" "state_inv (w, other)"
  shows "id_space ob' \<inter> id_space other = {}"
proof -
  have below: "i < ida_global_counter (wd_ids w)" if "i \<in> id_space other" for i
    using id_space_below assms(3) that by (auto simp: state_inv_def)
  have "i \<in> id_space ob \<or> ida_global_counter (wd_ids w) \<le> i" if "i \<in> id_space ob'" for i
    using assms(1) that by (auto simp: ids_grow_def)
  then show ?thesis using assms(2) below by (fastforce simp: not_less [symmetric])
qed

lemma group_perform:
  assumes inv: "group_inv w obs" and k: "k < length obs" and adm: "admissible r (w, obs ! k)"
  shows "\<exists>w' ob'. perform r (w, obs ! k) = Inr (w', ob') \<and> group_inv w' (obs[k := ob'])"
proof -
  have s: "state_inv (w, ob)" if "ob \<in> set obs" for ob using inv that by (simp add: group_inv_def)
  then have sk: "state_inv (w, obs ! k)" using k by simp
  obtain w' ob' where p: "perform r (w, obs ! k) = Inr (w', ob')" "state_inv (w', ob')"
    using admissible_answered [OF sk adm] by auto
  have grow: "ids_grow w (obs ! k) w' ob'" by (rule perform_ids_grow [OF sk adm p(1)])
  have later: "state_inv (w', ob)" if "ob \<in> set obs" for ob
    using s [OF that] ids_ok_later ids_grow_counter [OF grow] by (auto simp: state_inv_def)
  have dis: "id_space ob' \<inter> id_space (obs ! j) = {}" if "j < length obs" "j \<noteq> k" for j
    using ids_grow_disjoint [OF grow _ s [of "obs ! j"]] inv that k by (simp add: group_inv_def)
  have "id_space (obs[k := ob'] ! i) \<inter> id_space (obs[k := ob'] ! j) = {}"
    if ij: "i < length obs" "j < length obs" "i \<noteq> j" for i j
  proof -
    consider "i = k" "j \<noteq> k" | "i \<noteq> k" "j = k" | "i \<noteq> k" "j \<noteq> k" using ij(3) by blast
    then show ?thesis using dis [of i] dis [of j] inv ij k
      by cases (simp_all add: group_inv_def Int_commute)
  qed
  then have "group_inv w' (obs[k := ob'])"
    using later p(2) set_update_subset_insert [of obs k ob'] by (auto simp: group_inv_def)
  then show ?thesis using p(1) by blast
qed

lemma group_ids_unique:
  assumes "group_inv w obs" "i < length obs" "j < length obs" "orders (obs ! i) p = Some a"
    "orders (obs ! j) q = Some b" "ord_id a = ord_id b"
  shows "i = j \<and> p = q"
proof -
  have "ord_id a \<in> id_space (obs ! i)" "ord_id a \<in> id_space (obs ! j)"
    using assms(4-6) by (auto simp: id_space_def held_ids_def)
  then have "i = j" using assms(1-3) by (auto simp: group_inv_def)
  moreover have "orders_inv (obs ! i)" using assms(1,2) by (simp add: group_inv_def state_inv_def book_inv_def)
  ultimately show ?thesis using ids_unique [of "obs ! i" p a q b] assms(4-6) by simp
qed

text \<open>New books that the allocator has room for are a group.\<close>

lemma group_new:
  assumes new: "new_orderbook_sized n instr r w = (ob, w')" and left: "block_left (wd_ids w)"
    "0 < ida_block_size (wd_ids w)" and inv: "group_inv w obs"
  shows "group_inv w' (obs @ [ob])" "wd_ids w' = snd (get_next_id_block (wd_ids w))"
proof -
  show ids: "wd_ids w' = snd (get_next_id_block (wd_ids w))"
    using new by (auto simp: new_orderbook_sized_def Let_def split: prod.splits)
  have st: "state_inv (w', ob)"
    using new_orderbook_inv(1) [OF new] new_orderbook_ids [OF new left] by (simp add: state_inv_def)
  have later: "state_inv (w', o1)" if "o1 \<in> set obs" for o1
    using inv that ids_ok_later [of w o1 w'] ids left(1) by (auto simp: group_inv_def state_inv_def block_left_def)
  have nx: "ob_next_available_order_id ob = ida_global_counter (wd_ids w)"
    using new by (auto simp: new_orderbook_sized_def Let_def get_next_id_block_def split: prod.splits)
  have "ida_global_counter (wd_ids w) \<le> i" if "i \<in> id_space ob" for i
    using that nx new_orderbook_inv(3) [OF new] by (auto simp: id_space_def held_ids_def)
  then have "id_space o1 \<inter> id_space ob = {}" if "o1 \<in> set obs" for o1
    using id_space_below [of o1 w] inv that by (fastforce simp: group_inv_def state_inv_def not_less [symmetric])
  then have dis: "id_space (obs ! i) \<inter> id_space ob = {}" "id_space ob \<inter> id_space (obs ! i) = {}"
    if "i < length obs" for i using that nth_mem by blast+
  have "id_space ((obs @ [ob]) ! i) \<inter> id_space ((obs @ [ob]) ! j) = {}"
    if ij: "i < Suc (length obs)" "j < Suc (length obs)" "i \<noteq> j" for i j
  proof -
    consider "i < length obs" "j < length obs" | "i < length obs" "j = length obs" | "i = length obs" "j < length obs"
      using ij by linarith
    then show ?thesis using dis inv ij(3) by cases (simp_all add: group_inv_def nth_append)
  qed
  then show "group_inv w' (obs @ [ob])"
    using inv st later by (simp add: group_inv_def ball_Un)
qed

section \<open>Books that are created and answer requests in any order\<close>

text \<open>
  Any thread may create a book, perform a request or draw a block next, and time passes as it likes;
  the allocator has a block left whenever a new book or another thread draws one.
\<close>

inductive books_reach :: "world \<Rightarrow> orderbook list \<Rightarrow> bool" where
  no_books: "0 < ida_block_size (wd_ids w) \<Longrightarrow> books_reach w []"
| opened: "books_reach w obs \<Longrightarrow> block_left (wd_ids w) \<Longrightarrow> new_orderbook_sized n instr r w = (ob, w') \<Longrightarrow>
    books_reach w' (obs @ [ob])"
| answered: "books_reach w obs \<Longrightarrow> k < length obs \<Longrightarrow> admissible r (w, obs ! k) \<Longrightarrow>
    perform r (w, obs ! k) = Inr (w', ob') \<Longrightarrow> books_reach w' (obs[k := ob'])"
| drawn_elsewhere: "books_reach w obs \<Longrightarrow> block_left (wd_ids w) \<Longrightarrow>
    books_reach (w\<lparr>wd_ids := snd (get_next_id_block (wd_ids w))\<rparr>) obs"
| time_goes_on: "books_reach w obs \<Longrightarrow> books_reach (w\<lparr>wd_clock := c\<rparr>) obs"

lemma ids_ok_clock [simp]: "ids_ok (w\<lparr>wd_clock := c\<rparr>) ob = ids_ok w ob"
  by (simp add: ids_ok_def)

lemma group_inv_clock [simp]: "group_inv (w\<lparr>wd_clock := c\<rparr>) obs = group_inv w obs"
  by (simp add: group_inv_def state_inv_def)

lemma books_reach_inv: "books_reach w obs \<Longrightarrow> group_inv w obs \<and> 0 < ida_block_size (wd_ids w)"
proof (induction rule: books_reach.induct)
  case (no_books w)
  then show ?case by (simp add: group_inv_def)
next
  case (opened w obs n instr r ob w')
  then show ?case using group_new [OF opened.hyps(3,2), of obs] by simp
next
  case (answered w obs k r w' ob')
  have "state_inv (w, obs ! k)" using answered by (simp add: group_inv_def)
  from perform_ids_grow [OF this answered.hyps(3,4)] show ?case
    using group_perform [of w obs k r] answered ids_grow_counter by fastforce
next
  case (drawn_elsewhere w obs)
  then show ?case using ids_ok_later [of w _ "w\<lparr>wd_ids := snd (get_next_id_block (wd_ids w))\<rparr>"]
    by (auto simp: group_inv_def state_inv_def block_left_def)
next
  case (time_goes_on w obs c)
  then show ?case by simp
qed

text \<open>
  C24: whatever books share an id allocator, and in whatever order they are created and answer
  requests, an order id names one order: two different orders, of one book or of two, have
  different ids, and each lies below the allocator's counter.
\<close>

theorem order_ids_unique:
  assumes "books_reach w obs" "i < length obs" "j < length obs"
    "orders (obs ! i) p = Some a" "orders (obs ! j) q = Some b" "(i, p) \<noteq> (j, q)"
  shows "ord_id a \<noteq> ord_id b \<and> ord_id a < ida_global_counter (wd_ids w)"
proof
  have inv: "group_inv w obs" using books_reach_inv [OF assms(1)] by simp
  show "ord_id a \<noteq> ord_id b" using group_ids_unique [OF inv assms(2-5)] assms(6) by blast
  have "ord_id a \<in> id_space (obs ! i)" using assms(4) by (auto simp: id_space_def held_ids_def)
  then show "ord_id a < ida_global_counter (wd_ids w)"
    using id_space_below [of "obs ! i" w] inv assms(2) by (simp add: group_inv_def state_inv_def)
qed

text \<open>Two books, with one order each.\<close>

definition ex_two_books :: "world \<times> orderbook list" where
  "ex_two_books =
     (let (b1, w1) = new_orderbook_sized 2 ''SPY'' 10 ex_world;
          (b2, w2) = new_orderbook_sized 2 ''QQQ'' 10 w1 in
      case perform (Add (ex_order BUY d99 100)) (w2, b1) of Inl _ \<Rightarrow> (w2, []) | Inr (w3, b1') \<Rightarrow>
      (case perform (Add (ex_order BUY d99 100)) (w3, b2) of Inl _ \<Rightarrow> (w3, []) | Inr (w4, b2') \<Rightarrow>
        (w4, [b1', b2'])))"

lemma ex_two_books_reach: "books_reach (fst ex_two_books) (snd ex_two_books)"
proof -
  let ?a = "Add (ex_order BUY d99 100)"
  obtain b1 w1 where b1: "new_orderbook_sized 2 ''SPY'' 10 ex_world = (b1, w1)" by fastforce
  obtain b2 w2 where b2: "new_orderbook_sized 2 ''QQQ'' 10 w1 = (b2, w2)" by fastforce
  note eq = b1 b2 ex_two_books_def
  have ok: "case new_orderbook_sized 2 ''SPY'' 10 ex_world of (b1, w1) \<Rightarrow>
      block_left (wd_ids w1) \<and> (case new_orderbook_sized 2 ''QQQ'' 10 w1 of (b2, w2) \<Rightarrow>
        admissible ?a (w2, b1) \<and> (case perform ?a (w2, b1) of Inl _ \<Rightarrow> False | Inr (w3, b1') \<Rightarrow>
          admissible ?a (w3, b2) \<and> fault_of (perform ?a (w3, b2)) = None))" by code_simp
  then have ok': "block_left (wd_ids w1)" "admissible ?a (w2, b1)" unfolding b1 b2 by (simp_all add: b2)
  obtain w3 b1' where p1: "perform ?a (w2, b1) = Inr (w3, b1')"
    using ok by (cases "perform ?a (w2, b1)") (auto simp: b1 b2)
  obtain w4 b2' where p2: "perform ?a (w3, b2) = Inr (w4, b2')"
    using ok by (cases "perform ?a (w3, b2)") (auto simp: b1 b2 p1 fault_of_def)
  have "block_left (wd_ids ex_world)" "0 < ida_block_size (wd_ids ex_world)" by code_simp+
  then have "books_reach w1 [b1]" using opened [OF no_books _ b1] by simp
  then have "books_reach w2 [b1, b2]" using opened [OF _ ok'(1) b2] by fastforce
  then have "books_reach w3 [b1', b2]" using answered [of w2 "[b1, b2]" 0 ?a w3 b1'] ok'(2) p1 by simp
  moreover have "admissible ?a (w3, b2)" using ok by (simp add: b1 b2 p1)
  ultimately have "books_reach w4 [b1', b2']" using answered [of w3 "[b1', b2]" 1 ?a w4 b2'] p2 by simp
  moreover have "fst ex_two_books = w4" "snd ex_two_books = [b1', b2']" by (simp_all add: ex_two_books_def b1 b2 p1 p2)
  ultimately show ?thesis by (simp del: list.simps)
qed

theorem order_ids_unique_witness:
  "\<exists>p q a b. orders (snd ex_two_books ! 0) p = Some a \<and> orders (snd ex_two_books ! 1) q = Some b \<and>
     ord_id a \<noteq> ord_id b \<and> ord_id a < ida_global_counter (wd_ids (fst ex_two_books))"
proof -
  have len: "length (snd ex_two_books) = 2"
    and known: "order_of (snd ex_two_books ! 0) 1 \<noteq> None" "order_of (snd ex_two_books ! 1) 1000001 \<noteq> None"
    by code_simp+
  have "book_inv (snd ex_two_books ! 0)" "book_inv (snd ex_two_books ! 1)"
    using books_reach_inv [OF ex_two_books_reach] len by (auto simp: group_inv_def state_inv_def)
  then obtain p q a b where ord: "orders (snd ex_two_books ! 0) p = Some a" "orders (snd ex_two_books ! 1) q = Some b"
    using known order_of_Some by fastforce
  have "(0 :: nat, p) \<noteq> (1, q)" "0 < length (snd ex_two_books)" "1 < length (snd ex_two_books)" using len by simp_all
  from order_ids_unique [OF ex_two_books_reach this(2,3) ord this(1)] ord show ?thesis by blast
qed

end
