(* ===== verification/Order_Routing.thy ===== *)
theory Order_Routing
  imports Book_Group Spsc_Queue
begin

text \<open>
  \<open>include/order_routing_system.h\<close>: the books and the queue of each worker, and the router that gives
  the worker of an instrument. \<open>build_order_routing_system\<close> deals the instruments out in turn; its
  lemmas say which worker has which instrument, that the router agrees, and that every book starts
  empty, consistent and with ids of its own.
\<close>

section \<open>State\<close>

record worker_context =
  wc_orderbooks :: "orderbook list"
  wc_queue :: "order_command spsc_queue"
  wc_reserve_space_per_instrument :: nat

record order_routing_system =
  ors_worker_contexts :: "worker_context list"
  ors_instrument_router :: "(instrument \<times> nat) list"

section \<open>Construction\<close>

text \<open>The commands that the queue's vector starts with, each a default order at its own time.\<close>

definition default_commands :: "clock \<Rightarrow> nat \<Rightarrow> order_command list" where
  "default_commands c n = map (\<lambda>i. default_command (clk_reading c (clk_ticks c + i))) [0..<n]"

text \<open>
  As for a single book, the size of the pools is an argument of the \<open>_sized\<close> variants, which the code
  fixes to \<open>SPACE_RESERVE\<close>.
\<close>

fun new_books_sized :: "nat \<Rightarrow> instrument list \<Rightarrow> nat \<Rightarrow> world \<Rightarrow> orderbook list \<times> world" where
  "new_books_sized pool_size [] r_space w = ([], w)"
| "new_books_sized pool_size (instr # instrs) r_space w =
     (let (ob, w1) = new_orderbook_sized pool_size instr r_space w;
          (obs, w2) = new_books_sized pool_size instrs r_space w1
      in (ob # obs, w2))"

definition new_worker_context_sized ::
    "nat \<Rightarrow> instrument list \<Rightarrow> nat \<Rightarrow> nat \<Rightarrow> world \<Rightarrow> worker_context \<times> world" where
  "new_worker_context_sized pool_size instruments queue_cap r_space w =
     (let queue = new_spsc_queue (default_commands (wd_clock w) queue_cap);
          (books, w1) = new_books_sized pool_size instruments r_space
            (w\<lparr>wd_clock := later queue_cap (wd_clock w)\<rparr>)
      in (\<lparr>wc_orderbooks = books, wc_queue = queue, wc_reserve_space_per_instrument = r_space\<rparr>, w1))"

text \<open>\<open>emplace\<close> leaves a key that is there alone.\<close>

definition router_emplace :: "instrument \<Rightarrow> nat \<Rightarrow> (instrument \<times> nat) list \<Rightarrow> (instrument \<times> nat) list" where
  "router_emplace instr idx router =
     (case map_of router instr of None \<Rightarrow> router @ [(instr, idx)] | Some _ \<Rightarrow> router)"

text \<open>The first loop, from the \<open>i\<close>-th instrument on.\<close>

fun distribute ::
    "nat \<Rightarrow> nat \<Rightarrow> instrument list \<Rightarrow> instrument list list \<times> (instrument \<times> nat) list \<Rightarrow>
       (instrument list list \<times> (instrument \<times> nat) list) result" where
  "distribute num_workers i [] acc = Inr acc"
| "distribute num_workers i (instr # instrs) (sets, router) =
     rbind (assert_or (num_workers \<noteq> 0) DivisionByZero) (\<lambda>_.
     let allocated_worker_idx = i mod num_workers in
     distribute num_workers (Suc i) instrs
       (sets[allocated_worker_idx := sets ! allocated_worker_idx @ [instr]],
        router_emplace instr allocated_worker_idx router))"

text \<open>The second loop.\<close>

fun new_contexts_sized ::
    "nat \<Rightarrow> instrument list list \<Rightarrow> nat \<Rightarrow> nat \<Rightarrow> world \<Rightarrow> worker_context list \<times> world" where
  "new_contexts_sized pool_size [] queue_cap r_space w = ([], w)"
| "new_contexts_sized pool_size (instrs # sets) queue_cap r_space w =
     (let (ctx, w1) = new_worker_context_sized pool_size instrs queue_cap r_space w;
          (ctxs, w2) = new_contexts_sized pool_size sets queue_cap r_space w1
      in (ctx # ctxs, w2))"

definition build_order_routing_system_sized ::
    "nat \<Rightarrow> instrument list \<Rightarrow> nat \<Rightarrow> nat \<Rightarrow> nat \<Rightarrow> world \<Rightarrow> (order_routing_system \<times> world) result" where
  "build_order_routing_system_sized pool_size instruments num_workers queue_cap total_reserve_space w =
     rbind (assert_or (length instruments \<noteq> 0) DivisionByZero) (\<lambda>_.
     let reserve_space_per_instrument = total_reserve_space div length instruments + 1 in
     rbind (distribute num_workers 0 instruments (replicate num_workers [], [])) (\<lambda>(sets, router).
     let (ctxs, w1) = new_contexts_sized pool_size sets queue_cap reserve_space_per_instrument w
     in Inr (\<lparr>ors_worker_contexts = ctxs, ors_instrument_router = router\<rparr>, w1)))"

definition build_order_routing_system ::
    "instrument list \<Rightarrow> nat \<Rightarrow> nat \<Rightarrow> nat \<Rightarrow> world \<Rightarrow> (order_routing_system \<times> world) result" where
  "build_order_routing_system = build_order_routing_system_sized SPACE_RESERVE"

section \<open>Who gets what\<close>

text \<open>The instruments at the positions that are \<open>w\<close> modulo \<open>n\<close>, in their order.\<close>

definition share :: "nat \<Rightarrow> nat \<Rightarrow> nat \<Rightarrow> instrument list \<Rightarrow> instrument list" where
  "share n w i instrs = map snd (filter (\<lambda>(k, _). k mod n = w) (enumerate i instrs))"

text \<open>The worker of the first occurrence of an instrument.\<close>

fun first_worker :: "nat \<Rightarrow> nat \<Rightarrow> instrument list \<Rightarrow> instrument \<Rightarrow> nat option" where
  "first_worker n i [] x = None"
| "first_worker n i (instr # instrs) x = (if instr = x then Some (i mod n) else first_worker n (Suc i) instrs x)"

lemma map_of_router_emplace:
  "map_of (router_emplace k v m) x = (if x = k \<and> map_of m k = None then Some v else map_of m x)"
  by (auto simp: router_emplace_def map_add_def split: option.splits)

lemma distribute_spec:
  assumes "0 < n" "length sets = n"
  shows "\<exists>sets' router'. distribute n i instrs (sets, router) = Inr (sets', router') \<and> length sets' = n \<and>
    (\<forall>w < n. sets' ! w = sets ! w @ share n w i instrs) \<and>
    (\<forall>x. map_of router' x = (case map_of router x of None \<Rightarrow> first_worker n i instrs x | Some v \<Rightarrow> Some v))"
  using assms(2)
proof (induction instrs arbitrary: i sets router)
  case Nil
  then show ?case by (auto simp: share_def split: option.splits)
next
  case (Cons instr instrs)
  let ?w = "i mod n"
  let ?sets = "sets[?w := sets ! ?w @ [instr]]" and ?router = "router_emplace instr ?w router"
  have w: "?w < n" using assms(1) by simp
  obtain sets' router' where d: "distribute n (Suc i) instrs (?sets, ?router) = Inr (sets', router')"
      "length sets' = n" "\<forall>w < n. sets' ! w = ?sets ! w @ share n w (Suc i) instrs"
      "\<forall>x. map_of router' x = (case map_of ?router x of None \<Rightarrow> first_worker n (Suc i) instrs x | Some v \<Rightarrow> Some v)"
    using Cons.IH [of ?sets "Suc i" ?router] Cons.prems by auto
  have "sets' ! v = sets ! v @ share n v i (instr # instrs)" if "v < n" for v
    using d(3) that w Cons.prems by (cases "v = ?w") (auto simp: share_def)
  moreover have "map_of router' x =
      (case map_of router x of None \<Rightarrow> first_worker n i (instr # instrs) x | Some v \<Rightarrow> Some v)" for x
    using d(4) by (auto simp: map_of_router_emplace split: option.splits)
  ultimately show ?case using d(1,2) assms(1) by simp
qed

lemma first_worker_share:
  "first_worker n i instrs x = Some w \<Longrightarrow> x \<in> set (share n w i instrs)"
  by (induction instrs arbitrary: i) (auto simp: share_def split: if_splits)

lemma first_worker_total:
  "0 < n \<Longrightarrow> x \<in> set instrs \<longleftrightarrow> (\<exists>w < n. first_worker n i instrs x = Some w)"
proof (induction instrs arbitrary: i)
  case Nil
  then show ?case by simp
next
  case (Cons a instrs)
  then show ?case using Cons.IH [of "Suc i"] by auto
qed

lemma share_subset: "set (share n w i instrs) \<subseteq> set instrs"
  by (auto simp: share_def dest!: in_set_enumerate_eq [THEN iffD1])

lemma distinct_share: "distinct instrs \<Longrightarrow> distinct (share n w i instrs)"
proof (induction instrs arbitrary: i)
  case Nil
  then show ?case by (simp add: share_def)
next
  case (Cons a instrs)
  have "a \<notin> set (share n w (Suc i) instrs)" using Cons.prems share_subset by fastforce
  then show ?case using Cons by (simp add: share_def)
qed

text \<open>Distinct instruments have one worker each.\<close>

lemma share_unique:
  "distinct instrs \<Longrightarrow> x \<in> set (share n w i instrs) \<Longrightarrow> first_worker n i instrs x = Some w"
proof (induction instrs arbitrary: i)
  case Nil
  then show ?case by (simp add: share_def)
next
  case (Cons a instrs)
  show ?case
  proof (cases "a = x")
    case True
    then have "x \<notin> set (share n w (Suc i) instrs)" using Cons.prems(1) share_subset by fastforce
    then show ?thesis using True Cons.prems(2) by (auto simp: share_def split: if_splits)
  next
    case False
    then have "x \<in> set (share n w (Suc i) instrs)" using Cons.prems(2) by (auto simp: share_def split: if_splits)
    then show ?thesis using False Cons by simp
  qed
qed

section \<open>The new books\<close>

text \<open>The books of a new context are created one after the other, each with a block of its own.\<close>

lemma new_books_reach:
  assumes "new_books_sized n instrs r w = (bs, w')" "books_reach w obs" "ids_left (length instrs + m) (wd_ids w)"
  shows "books_reach w' (obs @ bs) \<and> map ob_instrument bs = instrs \<and> ids_left m (wd_ids w') \<and>
    (\<forall>ob \<in> set bs. ob_bids ob = [] \<and> ob_asks ob = [] \<and> ob_trades_completed ob = 0)"
  using assms
proof (induction instrs arbitrary: w bs obs)
  case Nil
  then show ?case by simp
next
  case (Cons instr instrs)
  obtain ob w1 where ob: "new_orderbook_sized n instr r w = (ob, w1)" by fastforce
  obtain bs' where bs: "new_books_sized n instrs r w1 = (bs', w')" "bs = ob # bs'"
    using Cons.prems(1) ob by (auto split: prod.splits)
  have left: "ids_left (Suc (length instrs + m)) (wd_ids w)" using Cons.prems(3) by simp
  then have "block_left (wd_ids w)" by (auto simp: block_left_ids ids_left_def)
  then have reach: "books_reach w1 (obs @ [ob])" using opened [OF Cons.prems(2) _ ob] by simp
  have ids: "wd_ids w1 = snd (get_next_id_block (wd_ids w))" and new: "ob_instrument ob = instr" "ob_bids ob = []"
      "ob_asks ob = []" "ob_trades_completed ob = 0"
    using ob by (auto simp: new_orderbook_sized_def Let_def split: prod.splits)
  have "ids_left (length instrs + m) (wd_ids w1)" using ids_left_Suc(1) [OF left] ids by simp
  from Cons.IH [OF bs(1) reach this] show ?case using bs(2) new by simp
qed

lemma default_commands_length [simp]: "length (default_commands c n) = n"
  by (simp add: default_commands_def)

definition fresh_queue :: "nat \<Rightarrow> 'a spsc_queue \<Rightarrow> bool" where
  "fresh_queue cap q \<longleftrightarrow> spsc_inv q \<and> spsc_items q = [] \<and> spsc_room q = cap - 1"

lemma new_context_reach:
  assumes "new_worker_context_sized n instrs cap r w = (ctx, w')" "books_reach w obs" "0 < cap"
    "ids_left (length instrs + m) (wd_ids w)"
  shows "books_reach w' (obs @ wc_orderbooks ctx) \<and> map ob_instrument (wc_orderbooks ctx) = instrs \<and>
    ids_left m (wd_ids w') \<and> fresh_queue cap (wc_queue ctx)"
proof -
  let ?w = "w\<lparr>wd_clock := later cap (wd_clock w)\<rparr>"
  obtain bs where bs: "new_books_sized n instrs r ?w = (bs, w')" "wc_orderbooks ctx = bs"
      "wc_queue ctx = new_spsc_queue (default_commands (wd_clock w) cap)"
    using assms(1) by (auto simp: new_worker_context_sized_def Let_def split: prod.splits)
  have "default_commands (wd_clock w) cap \<noteq> []" using assms(3) by (simp flip: length_0_conv)
  then have "fresh_queue cap (wc_queue ctx)"
    unfolding bs(3) fresh_queue_def using new_spsc_queue_inv [of "default_commands (wd_clock w) cap"] by simp
  then show ?thesis
    using new_books_reach [OF bs(1) time_goes_on [OF assms(2)]] assms(4) bs(2) by simp
qed

definition all_books :: "worker_context list \<Rightarrow> orderbook list" where
  "all_books ctxs = concat (map wc_orderbooks ctxs)"

lemma new_contexts_reach:
  assumes "new_contexts_sized n sets cap r w = (ctxs, w')" "books_reach w obs" "0 < cap"
    "ids_left (length (concat sets)) (wd_ids w)"
  shows "books_reach w' (obs @ all_books ctxs) \<and> map (map ob_instrument \<circ> wc_orderbooks) ctxs = sets \<and>
    (\<forall>ctx \<in> set ctxs. fresh_queue cap (wc_queue ctx))"
  using assms
proof (induction sets arbitrary: w ctxs obs)
  case Nil
  then show ?case by (simp add: all_books_def)
next
  case (Cons instrs sets)
  obtain ctx w1 where ctx: "new_worker_context_sized n instrs cap r w = (ctx, w1)" by fastforce
  obtain ctxs' where ctxs: "new_contexts_sized n sets cap r w1 = (ctxs', w')" "ctxs = ctx # ctxs'"
    using Cons.prems(1) ctx by (auto split: prod.splits)
  have "ids_left (length instrs + length (concat sets)) (wd_ids w)" using Cons.prems(4) by simp
  from new_context_reach [OF ctx Cons.prems(2,3) this]
  show ?case using Cons.IH [OF ctxs(1), of "obs @ wc_orderbooks ctx"] Cons.prems(3) ctxs(2)
    by (simp add: all_books_def)
qed

text \<open>Every instrument is in one share, so there are as many books as instruments.\<close>

lemma share_length: "0 < n \<Longrightarrow> (\<Sum>w < n. length (share n w i instrs)) = length instrs"
proof (induction instrs arbitrary: i)
  case Nil
  then show ?case by (simp add: share_def)
next
  case (Cons a instrs)
  have "length (share n w i (a # instrs)) = (if w = i mod n then 1 else 0) + length (share n w (Suc i) instrs)" for w
    by (simp add: share_def)
  then show ?case using Cons by (simp add: sum.distrib)
qed

lemma shares_length:
  assumes "0 < n" "length sets = n" "\<forall>w < n. sets ! w = share n w i instrs"
  shows "length (concat sets) = length instrs"
proof -
  have "map length sets = map (\<lambda>w. length (share n w i instrs)) [0..<n]"
    using assms(2,3) by (intro nth_equalityI) simp_all
  then have "length (concat sets) = (\<Sum>w < n. length (share n w i instrs))"
    by (simp add: length_concat sum_list_distinct_conv_sum_set atLeast0LessThan)
  then show ?thesis using share_length [OF assms(1)] by simp
qed

section \<open>Properties\<close>

text \<open>The instruments that a worker has a book for; and a router that agrees with the workers.\<close>

definition serves :: "worker_context \<Rightarrow> instrument set" where
  "serves ctx = ob_instrument ` set (wc_orderbooks ctx)"

definition routing_ok :: "order_routing_system \<Rightarrow> bool" where
  "routing_ok sys \<longleftrightarrow> (\<forall>x k. map_of (ors_instrument_router sys) x = Some k \<longrightarrow>
     k < length (ors_worker_contexts sys) \<and> x \<in> serves (ors_worker_contexts sys ! k))"

lemma build_system:
  assumes "instruments \<noteq> []" "0 < num_workers" "0 < queue_cap" "0 < ida_block_size (wd_ids w)"
    "ids_left (length instruments) (wd_ids w)"
  shows "\<exists>sys w'. build_order_routing_system_sized n instruments num_workers queue_cap reserve w = Inr (sys, w') \<and>
    length (ors_worker_contexts sys) = num_workers \<and>
    books_reach w' (all_books (ors_worker_contexts sys)) \<and>
    (\<forall>ctx \<in> set (ors_worker_contexts sys). fresh_queue queue_cap (wc_queue ctx)) \<and>
    (\<forall>x. map_of (ors_instrument_router sys) x = first_worker num_workers 0 instruments x) \<and>
    (\<forall>k < num_workers. map ob_instrument (wc_orderbooks (ors_worker_contexts sys ! k)) = share num_workers k 0 instruments)"
proof -
  obtain sets router where d: "distribute num_workers 0 instruments (replicate num_workers [], []) = Inr (sets, router)"
      "length sets = num_workers" "\<forall>k < num_workers. sets ! k = share num_workers k 0 instruments"
      "\<forall>x. map_of router x = first_worker num_workers 0 instruments x"
    using distribute_spec [OF assms(2), of "replicate num_workers []" 0 instruments "[]"] by auto
  obtain ctxs w' where c: "new_contexts_sized n sets queue_cap (reserve div length instruments + 1) w = (ctxs, w')"
    by fastforce
  have left: "ids_left (length (concat sets)) (wd_ids w)" using shares_length [OF assms(2) d(2,3)] assms(5) by simp
  have new: "books_reach w' (all_books ctxs)" "map (map ob_instrument \<circ> wc_orderbooks) ctxs = sets"
      "\<forall>ctx \<in> set ctxs. fresh_queue queue_cap (wc_queue ctx)"
    using new_contexts_reach [OF c no_books [OF assms(4)] assms(3) left] by simp_all
  have len: "length ctxs = num_workers" using arg_cong [OF new(2), of length] d(2) by simp
  have "map ob_instrument (wc_orderbooks (ctxs ! k)) = share num_workers k 0 instruments" if "k < num_workers" for k
    using new(2) that d(2,3) len by (metis comp_apply nth_map)
  moreover have "build_order_routing_system_sized n instruments num_workers queue_cap reserve w =
      Inr (\<lparr>ors_worker_contexts = ctxs, ors_instrument_router = router\<rparr>, w')"
    using assms(1) d(1) c by (simp add: build_order_routing_system_sized_def)
  ultimately show ?thesis using len new(1,3) d(4)
    by (intro exI [of _ "\<lparr>ors_worker_contexts = ctxs, ors_instrument_router = router\<rparr>"] exI [of _ w']) simp
qed

lemma routing_ok_shares:
  assumes "0 < n" "length (ors_worker_contexts sys) = n"
    "\<forall>x. map_of (ors_instrument_router sys) x = first_worker n 0 instruments x"
    "\<forall>k < n. map ob_instrument (wc_orderbooks (ors_worker_contexts sys ! k)) = share n k 0 instruments"
  shows "routing_ok sys" "dom (map_of (ors_instrument_router sys)) = set instruments"
    "k < n \<Longrightarrow> serves (ors_worker_contexts sys ! k) = set (share n k 0 instruments)"
proof -
  have serves: "serves (ors_worker_contexts sys ! k) = set (share n k 0 instruments)" if "k < n" for k
    using assms(4) that by (metis serves_def set_map)
  then show "k < n \<Longrightarrow> serves (ors_worker_contexts sys ! k) = set (share n k 0 instruments)" .
  have ok: "k < n" if "first_worker n 0 instruments x = Some k" for x k
    using that first_worker_share [OF that] first_worker_total [OF assms(1), of x instruments 0] share_subset by fastforce
  then show "routing_ok sys" using assms(2,3) serves first_worker_share by (simp add: routing_ok_def)
  show "dom (map_of (ors_instrument_router sys)) = set instruments"
    using first_worker_total [OF assms(1), of _ instruments 0] ok assms(3) by (auto simp: dom_def)
qed

text \<open>
  C25: \<open>build_order_routing_system\<close> returns, with a context per worker: every book starts consistent and
  with an id block of its own, every queue is empty with room for \<open>queue_cap - 1\<close> commands, and the
  router sends every instrument, and nothing else, to a worker that has a book for it, the only one
  when no instrument is named twice.
\<close>

theorem build_routes:
  assumes "instruments \<noteq> []" "0 < num_workers" "0 < queue_cap" "0 < ida_block_size (wd_ids w)"
    "ids_left (length instruments) (wd_ids w)"
  shows "\<exists>sys w'. build_order_routing_system_sized n instruments num_workers queue_cap reserve w = Inr (sys, w') \<and>
    length (ors_worker_contexts sys) = num_workers \<and> routing_ok sys \<and>
    books_reach w' (all_books (ors_worker_contexts sys)) \<and>
    (\<forall>ctx \<in> set (ors_worker_contexts sys). fresh_queue queue_cap (wc_queue ctx)) \<and>
    dom (map_of (ors_instrument_router sys)) = set instruments \<and>
    (distinct instruments \<longrightarrow> (\<forall>x k. k < num_workers \<longrightarrow> x \<in> serves (ors_worker_contexts sys ! k) \<longrightarrow>
       map_of (ors_instrument_router sys) x = Some k))"
proof -
  obtain sys w' where sys: "build_order_routing_system_sized n instruments num_workers queue_cap reserve w = Inr (sys, w')"
      "length (ors_worker_contexts sys) = num_workers" "books_reach w' (all_books (ors_worker_contexts sys))"
      "\<forall>ctx \<in> set (ors_worker_contexts sys). fresh_queue queue_cap (wc_queue ctx)"
      "\<forall>x. map_of (ors_instrument_router sys) x = first_worker num_workers 0 instruments x"
      "\<forall>k < num_workers. map ob_instrument (wc_orderbooks (ors_worker_contexts sys ! k)) = share num_workers k 0 instruments"
    using build_system [OF assms] by blast
  note ok = routing_ok_shares [OF assms(2) sys(2,5,6)]
  have "map_of (ors_instrument_router sys) x = Some k"
    if "distinct instruments" "k < num_workers" "x \<in> serves (ors_worker_contexts sys ! k)" for x k
    using that ok(3) share_unique sys(5) by simp
  then show ?thesis using sys(1-4) ok(1,2) by (intro exI [of _ sys] exI [of _ w']) simp
qed

text \<open>Three instruments on two workers, with queues of four slots.\<close>

definition ex_system :: "order_routing_system \<times> world" where
  "ex_system = (case build_order_routing_system_sized 4 [''SPY'', ''QQQ'', ''IWM''] 2 4 100 ex_world of
     Inl _ \<Rightarrow> (\<lparr>ors_worker_contexts = [], ors_instrument_router = []\<rparr>, ex_world) | Inr r \<Rightarrow> r)"

lemma ex_instruments_ok:
  "[''SPY'', ''QQQ'', ''IWM''] \<noteq> []" "0 < (2 :: nat)" "0 < (4 :: nat)" "0 < ida_block_size (wd_ids ex_world)"
  "ids_left (length [''SPY'', ''QQQ'', ''IWM'']) (wd_ids ex_world)"
  by (simp_all add: ids_left_def ex_world_def default_id_allocator_def new_id_allocator_def
      DEFAULT_BLOCK_SIZE_def FIRST_ORDER_ID_def)

lemma ex_system_router: "ors_instrument_router (fst ex_system) = [(''SPY'', 0), (''QQQ'', 1), (''IWM'', 0)]"
  by code_simp

lemma ex_system_ok:
  "routing_ok (fst ex_system)" "length (ors_worker_contexts (fst ex_system)) = 2"
  "books_reach (snd ex_system) (all_books (ors_worker_contexts (fst ex_system)))"
  "\<forall>ctx \<in> set (ors_worker_contexts (fst ex_system)). fresh_queue 4 (wc_queue ctx)"
proof -
  let ?is = "[''SPY'', ''QQQ'', ''IWM''] :: instrument list"
  obtain sys w' where sys: "build_order_routing_system_sized 4 ?is 2 4 100 ex_world = Inr (sys, w')"
      "length (ors_worker_contexts sys) = 2" "books_reach w' (all_books (ors_worker_contexts sys))"
      "\<forall>ctx \<in> set (ors_worker_contexts sys). fresh_queue 4 (wc_queue ctx)"
      "\<forall>x. map_of (ors_instrument_router sys) x = first_worker 2 0 ?is x"
      "\<forall>k < 2. map ob_instrument (wc_orderbooks (ors_worker_contexts sys ! k)) = share 2 k 0 ?is"
    using build_system [OF ex_instruments_ok, of 4 100] by blast
  have "fst ex_system = sys" "snd ex_system = w'" using sys(1) by (simp_all only: ex_system_def sum.case fst_conv snd_conv)
  then show "routing_ok (fst ex_system)" "length (ors_worker_contexts (fst ex_system)) = 2"
    "books_reach (snd ex_system) (all_books (ors_worker_contexts (fst ex_system)))"
    "\<forall>ctx \<in> set (ors_worker_contexts (fst ex_system)). fresh_queue 4 (wc_queue ctx)"
    using sys(2-4) routing_ok_shares(1) [OF ex_instruments_ok(2) sys(2,5,6)] by (simp_all only:)
qed

theorem build_routes_witness:
  "\<exists>sys w'. build_order_routing_system_sized 4 [''SPY'', ''QQQ'', ''IWM''] 2 4 100 ex_world = Inr (sys, w') \<and>
     routing_ok sys \<and> length (ors_worker_contexts sys) = 2 \<and> books_reach w' (all_books (ors_worker_contexts sys)) \<and>
     map_of (ors_instrument_router (fst ex_system)) ''IWM'' = Some 0"
  using build_routes [OF ex_instruments_ok, of 4 100] ex_system_router by auto

text \<open>
  Without instruments the size of the share of the total is a division by zero, and without
  workers the index of the first instrument's worker is; with both, \<open>build_order_routing_system\<close>
  has no fault.
\<close>

theorem build_faults:
  "fault_of (build_order_routing_system_sized n instruments num_workers queue_cap reserve w) =
     (if instruments = [] \<or> num_workers = 0 then Some (Undefined DivisionByZero) else None)"
proof (cases "instruments = [] \<or> num_workers = 0")
  case True
  then show ?thesis by (cases instruments) (auto simp: build_order_routing_system_sized_def fault_of_def assert_or_def)
next
  case False
  then obtain sets router where
    "distribute num_workers 0 instruments (replicate num_workers [], []) = Inr (sets, router)"
    using distribute_spec [of num_workers "replicate num_workers []" 0 instruments "[]"] by auto
  then show ?thesis using False by (simp add: build_order_routing_system_sized_def fault_of_def split_beta)
qed

end
