(* ===== verification/Text_Output.thy ===== *)
theory Text_Output
  imports Prelude
begin

text \<open>
  What the program prints, as strings: unsigned numbers in decimal, as \<open>std::to_string\<close> and the
  stream operators of the standard library write them, and runs of one character. Reading a number
  back gives the number, so different numbers are printed differently.
\<close>

definition digit :: "nat \<Rightarrow> char" where
  "digit d = char_of (48 + d)"

fun decimal :: "nat \<Rightarrow> string" where
  "decimal n = (if n < 10 then [digit n] else decimal (n div 10) @ [digit (n mod 10)])"

declare decimal.simps [simp del]

definition decimal_value :: "string \<Rightarrow> nat" where
  "decimal_value = foldl (\<lambda>n c. 10 * n + (of_char c - 48)) 0"

lemma of_char_digit: "d < 10 \<Longrightarrow> (of_char (digit d) :: nat) = 48 + d"
  by (simp add: digit_def of_char_of)

lemma decimal_value_snoc [simp]: "decimal_value (s @ [c]) = 10 * decimal_value s + (of_char c - 48)"
  by (simp add: decimal_value_def)

lemma decimal_value_decimal [simp]: "decimal_value (decimal n) = n"
proof (induction n rule: decimal.induct)
  case (1 n)
  show ?case
  proof (cases "n < 10")
    case True
    then show ?thesis using of_char_digit [OF True] decimal_value_snoc [of "[]" "digit n"]
      by (simp add: decimal.simps [of n] decimal_value_def)
  next
    case False
    then show ?thesis using 1 of_char_digit [of "n mod 10"] by (simp add: decimal.simps [of n])
  qed
qed

lemma decimal_inject: "decimal m = decimal n \<longleftrightarrow> m = n"
  by (metis decimal_value_decimal)

text \<open>Reading back what is joined, and the number of digits.\<close>

lemma decimal_value_append:
  "decimal_value (s @ t) = decimal_value s * 10 ^ length t + decimal_value t"
proof (induction t rule: rev_induct)
  case Nil
  then show ?case by (simp add: decimal_value_def)
next
  case (snoc c t)
  have "decimal_value (s @ t @ [c]) = 10 * decimal_value (s @ t) + (of_char c - 48)"
    using decimal_value_snoc [of "s @ t" c] by simp
  then show ?case using snoc.IH by (simp add: algebra_simps)
qed

lemma length_decimal: "n < 10 ^ k \<Longrightarrow> 0 < k \<Longrightarrow> length (decimal n) \<le> k"
proof (induction k arbitrary: n)
  case 0
  then show ?case by simp
next
  case (Suc k)
  show ?case
  proof (cases "n < 10 \<or> k = 0")
    case True
    then show ?thesis using Suc.prems by (auto simp: decimal.simps [of n])
  next
    case False
    then have "n div 10 < 10 ^ k" using Suc.prems(1) by (simp add: div_less_iff_less_mult mult.commute)
    then show ?thesis using False Suc.IH [of "n div 10"] by (simp add: decimal.simps [of n])
  qed
qed

lemma digit_chars: "d < 10 \<Longrightarrow> digit d \<noteq> CHR ''.'' \<and> digit d \<noteq> CHR ''-''"
  using of_char_digit [of d] by auto

lemma decimal_chars: "c \<in> set (decimal n) \<Longrightarrow> c \<noteq> CHR ''.'' \<and> c \<noteq> CHR ''-''"
proof (induction n rule: decimal.induct)
  case (1 n)
  then show ?case using digit_chars [of n] digit_chars [of "n mod 10"]
    by (cases "n < 10") (auto simp: decimal.simps [of n])
qed

definition pad :: "nat \<Rightarrow> char \<Rightarrow> string" where
  "pad n c = replicate n c"

lemma length_pad [simp]: "length (pad n c) = n"
  by (simp add: pad_def)

lemma set_pad [simp]: "set (pad n c) = (if n = 0 then {} else {c})"
  by (simp add: pad_def)

lemma decimal_value_zeros [simp]: "decimal_value (pad k CHR ''0'') = 0"
proof (induction k)
  case 0
  then show ?case by (simp add: pad_def decimal_value_def)
next
  case (Suc k)
  then show ?case using decimal_value_snoc [of "pad k CHR ''0''" "CHR ''0''"]
    by (simp add: pad_def replicate_append_same [symmetric] del: replicate_append_same)
qed

end
