(* ===== verification/Worker.thy ===== *)
theory Worker
  imports Order_Routing Text_Output
begin

text \<open>
  \<open>include/worker.h\<close>: a worker owns the books of its context, keyed by instrument, and performs the
  commands that it polls from its queue until it polls a SHUTDOWN. What the other threads do between
  two polls is an argument of the loop: what they append to the queue, and what they do to the clock
  and the id allocator. The loop is a partial function, since a worker that is never sent a SHUTDOWN
  polls for ever; both that and its return are theorems.
\<close>

section \<open>Construction\<close>

type_synonym books = "(instrument \<times> orderbook) list"

text \<open>A book whose instrument is there already stays in the context.\<close>

definition books_try_emplace :: "orderbook \<Rightarrow> books \<Rightarrow> books" where
  "books_try_emplace book books =
     (let instr = ob_instrument book in
      case map_of books instr of None \<Rightarrow> books @ [(instr, book)] | Some _ \<Rightarrow> books)"

definition new_worker :: "worker_context \<Rightarrow> books" where
  "new_worker ctx = fold books_try_emplace (wc_orderbooks ctx) []"

section \<open>Commands\<close>

definition moved_command :: "(instrument \<Rightarrow> instrument) \<Rightarrow> order_command \<Rightarrow> order_command" where
  "moved_command mv cmd = cmd\<lparr>cmd_order := moved_from mv (cmd_order cmd)\<rparr>"

text \<open>
  \<open>process_command\<close>. \<open>add_order\<close> moves out of the command's order; the command is a reference, and
  comes back with the result.
\<close>

definition process_command ::
    "(instrument \<Rightarrow> instrument) \<Rightarrow> order_command \<Rightarrow> world \<times> books \<Rightarrow>
       (bool \<times> order_command \<times> world \<times> books) result" where
  "process_command mv cmd = (\<lambda>(w, books).
     let instr = ord_instrument (cmd_order cmd) in
     case map_of books instr of
       None \<Rightarrow> Inr (False, cmd, w, books)
     | Some book \<Rightarrow>
         (case cmd_type cmd of
            ADD \<Rightarrow> rbind (add_order (cmd_order cmd) (w, book)) (\<lambda>(_, w', book').
              Inr (True, moved_command mv cmd, w', AList.update instr book' books))
          | MODIFY \<Rightarrow> rbind (modify_order (ord_id (cmd_order cmd)) (ord_price (cmd_order cmd))
                (ord_quantity (cmd_order cmd)) (w, book)) (\<lambda>(_, w', book').
              Inr (True, cmd, w', AList.update instr book' books))
          | CANCEL \<Rightarrow> rbind (cancel_order (ord_id (cmd_order cmd)) (w, book)) (\<lambda>(_, w', book').
              Inr (True, cmd, w', AList.update instr book' books))
          | SHUTDOWN \<Rightarrow> Inr (True, cmd, w, books)))"

section \<open>The loop\<close>

type_synonym command_queue = "order_command spsc_queue"

text \<open>
  What the other threads have done to the queue and to the world when the \<open>k\<close>-th poll begins.
\<close>

record surroundings =
  sur_queue :: "nat \<Rightarrow> command_queue \<Rightarrow> command_queue"
  sur_world :: "nat \<Rightarrow> world \<Rightarrow> world"

text \<open>
  One turn of the loop, with the command that it polled. A SHUTDOWN is not processed.
\<close>

definition poll_turn ::
    "(instrument \<Rightarrow> instrument) \<Rightarrow> command_queue \<times> world \<times> books \<Rightarrow>
       (order_command option \<times> command_queue \<times> world \<times> books) result" where
  "poll_turn mv = (\<lambda>(q, w, books).
     rbind (spsc_pop (moved_command mv) q) (\<lambda>(popped, q').
     case popped of
       None \<Rightarrow> Inr (None, q', w, books)
     | Some cmd \<Rightarrow>
         if cmd_type cmd = SHUTDOWN then Inr (Some cmd, q', w, books)
         else rbind (process_command mv cmd (w, books)) (\<lambda>(_, _, w', books'). Inr (Some cmd, q', w', books'))))"

lemma poll_turn_pop:
  "poll_turn mv (q, w, books) = Inr (popped, q', w', books') \<Longrightarrow> spsc_pop (moved_command mv) q = Inr (popped, q')"
  by (auto simp: poll_turn_def rbind_eq_Inr split: option.splits if_splits) (metis option.exhaust)

partial_function (option) worker_loop ::
    "(instrument \<Rightarrow> instrument) \<Rightarrow> surroundings \<Rightarrow> nat \<Rightarrow> command_queue \<times> world \<times> books \<Rightarrow>
       (command_queue \<times> world \<times> books) result option" where
  "worker_loop mv sur k s =
     (case poll_turn mv (sur_queue sur k (fst s), sur_world sur k (fst (snd s)), snd (snd s)) of
        Inl e \<Rightarrow> Some (Inl e)
      | Inr (None, s') \<Rightarrow> worker_loop mv sur (Suc k) s'
      | Inr (Some cmd, s') \<Rightarrow>
          if cmd_type cmd = SHUTDOWN then Some (Inr s') else worker_loop mv sur (Suc k) s')"

declare worker_loop.simps [code]

text \<open>
  The report at the end visits the books in the order of the hash map, which the standard leaves
  open: \<open>visit\<close> is that order, a permutation of the books.
\<close>

definition report_line :: "instrument \<times> orderbook \<Rightarrow> string" where
  "report_line = (\<lambda>(instr, ob).
     ''Instrument: '' @ instr @ '', trades done: '' @ decimal (unat (ob_trades_completed ob)) @
     '', total orders in ob: ('' @ decimal (get_total_bid_orders ob) @ '', '' @
     decimal (get_total_ask_orders ob) @ '')'' @ [CHR 0x0A])"

definition worker_run ::
    "(instrument \<Rightarrow> instrument) \<Rightarrow> surroundings \<Rightarrow> (books \<Rightarrow> books) \<Rightarrow> command_queue \<times> world \<times> books \<Rightarrow>
       (string \<times> command_queue \<times> world \<times> books) result" where
  "worker_run mv sur visit s =
     (case worker_loop mv sur 0 s of
        None \<Rightarrow> Inl Diverges
      | Some r \<Rightarrow> rbind r (\<lambda>(q, w, books). Inr (concat (map report_line (visit books)), q, w, books)))"

section \<open>The books of a worker\<close>

definition keyed :: "books \<Rightarrow> bool" where
  "keyed books \<longleftrightarrow> distinct (map fst books) \<and> (\<forall>(x, ob) \<in> set books. ob_instrument ob = x)"

lemma keyed_emplace: "keyed books \<Longrightarrow> keyed (books_try_emplace book books)"
  by (auto simp: keyed_def books_try_emplace_def Let_def map_of_eq_None_iff split: option.splits)

lemma map_of_emplace:
  "map_of (books_try_emplace book books) x =
     (if x = ob_instrument book \<and> map_of books x = None then Some book else map_of books x)"
  by (auto simp: books_try_emplace_def Let_def map_add_def split: option.splits)

lemma emplace_books:
  "set (map snd (books_try_emplace book books)) \<subseteq> insert book (set (map snd books))"
  by (auto simp: books_try_emplace_def Let_def split: option.splits)

lemma fold_emplace:
  assumes "keyed books"
  shows "keyed (fold books_try_emplace obs books) \<and>
    (\<forall>x. map_of (fold books_try_emplace obs books) x =
       (case map_of books x of Some ob \<Rightarrow> Some ob | None \<Rightarrow> find (\<lambda>ob. ob_instrument ob = x) obs))"
  using assms
proof (induction obs arbitrary: books)
  case Nil
  then show ?case by (auto split: option.splits)
next
  case (Cons ob obs)
  from Cons.IH [OF keyed_emplace [OF Cons.prems]] show ?case
    by (auto simp: map_of_emplace split: option.splits)
qed

lemma new_worker_books:
  "keyed (new_worker ctx)" "map_of (new_worker ctx) x = find (\<lambda>ob. ob_instrument ob = x) (wc_orderbooks ctx)"
  using fold_emplace [of "[]" "wc_orderbooks ctx"] by (simp_all add: new_worker_def keyed_def)

lemma new_worker_serves: "dom (map_of (new_worker ctx)) = serves ctx"
  by (auto simp: dom_def new_worker_books(2) find_None_iff serves_def image_iff)

text \<open>With distinct instruments no book stays behind.\<close>

lemma fold_emplace_distinct:
  "distinct (map fst books @ map ob_instrument obs) \<Longrightarrow>
     fold books_try_emplace obs books = books @ map (\<lambda>ob. (ob_instrument ob, ob)) obs"
proof (induction obs arbitrary: books)
  case Nil
  then show ?case by simp
next
  case (Cons ob obs)
  have "map_of books (ob_instrument ob) = None" using Cons.prems by (auto simp: map_of_eq_None_iff)
  then have "books_try_emplace ob books = books @ [(ob_instrument ob, ob)]"
    by (simp add: books_try_emplace_def)
  then show ?case using Cons by simp
qed

lemma new_worker_distinct:
  "distinct (map ob_instrument (wc_orderbooks ctx)) \<Longrightarrow>
     new_worker ctx = map (\<lambda>ob. (ob_instrument ob, ob)) (wc_orderbooks ctx)"
  using fold_emplace_distinct [of "[]"] by (simp add: new_worker_def)

section \<open>A command is a request of one book\<close>

definition request_of :: "order_command \<Rightarrow> request option" where
  "request_of cmd =
     (case cmd_type cmd of
        ADD \<Rightarrow> Some (Add (cmd_order cmd))
      | MODIFY \<Rightarrow> Some (Modify (ord_id (cmd_order cmd)) (ord_price (cmd_order cmd)) (ord_quantity (cmd_order cmd)))
      | CANCEL \<Rightarrow> Some (Cancel (ord_id (cmd_order cmd)))
      | SHUTDOWN \<Rightarrow> None)"

lemma process_command_unknown:
  "map_of books (ord_instrument (cmd_order cmd)) = None \<Longrightarrow> process_command mv cmd (w, books) = Inr (False, cmd, w, books)"
  by (simp add: process_command_def)

lemma process_command_perform:
  assumes "map_of books (ord_instrument (cmd_order cmd)) = Some ob"
  shows "process_command mv cmd (w, books) =
    (case request_of cmd of
       None \<Rightarrow> Inr (True, cmd, w, books)
     | Some r \<Rightarrow> rbind (perform r (w, ob)) (\<lambda>(w', ob'). Inr (True,
         if cmd_type cmd = ADD then moved_command mv cmd else cmd, w',
         AList.update (ord_instrument (cmd_order cmd)) ob' books)))"
  using assms by (simp add: process_command_def request_of_def perform_def rbind_assoc case_prod_unfold Let_def
      split: command_type.splits)

lemma update_at:
  assumes "distinct (map fst al)" "map_of al k = Some v"
  shows "\<exists>i < length al. al ! i = (k, v) \<and> AList.update k v' al = al[i := (k, v')]"
  using assms
proof (induction al)
  case Nil
  then show ?case by simp
next
  case (Cons a al)
  obtain x y where a: "a = (x, y)" by fastforce
  show ?case
  proof (cases "x = k")
    case True
    then show ?thesis using Cons.prems(2) a by (intro exI [of _ 0]) simp
  next
    case False
    then obtain i where "i < length al" "al ! i = (k, v)" "AList.update k v' al = al[i := (k, v')]"
      using Cons a by auto
    then show ?thesis using False a by (intro exI [of _ "Suc i"]) simp
  qed
qed

text \<open>What the book of the command is prepared for.\<close>

definition command_ok :: "order_command \<Rightarrow> world \<times> books \<Rightarrow> bool" where
  "command_ok cmd = (\<lambda>(w, books).
     case (map_of books (ord_instrument (cmd_order cmd)), request_of cmd) of
       (Some ob, Some r) \<Rightarrow> admissible r (w, ob)
     | _ \<Rightarrow> True)"

text \<open>\<open>pre\<close> and \<open>post\<close> are the books of the other workers.\<close>

lemma process_command_ok:
  assumes keyed: "keyed books" and reach: "books_reach w (pre @ map snd books @ post)"
    and ok: "command_ok cmd (w, books)"
  shows "\<exists>cmd' w' books'. process_command mv cmd (w, books) =
      Inr (ord_instrument (cmd_order cmd) \<in> dom (map_of books), cmd', w', books') \<and>
    keyed books' \<and> map fst books' = map fst books \<and> books_reach w' (pre @ map snd books' @ post) \<and>
    (\<forall>x. x \<noteq> ord_instrument (cmd_order cmd) \<longrightarrow> map_of books' x = map_of books x)"
proof (cases "map_of books (ord_instrument (cmd_order cmd))")
  case None
  then show ?thesis using process_command_unknown [OF None] keyed reach by (auto simp: domIff)
next
  case (Some ob)
  let ?x = "ord_instrument (cmd_order cmd)"
  note p = process_command_perform [OF Some, of mv w]
  show ?thesis
  proof (cases "request_of cmd")
    case None
    then show ?thesis using p Some keyed reach by auto
  next
    case (Some r)
    have adm: "admissible r (w, ob)" using ok Some \<open>map_of books ?x = Some ob\<close> by (simp add: command_ok_def)
    obtain i where i: "i < length books" "books ! i = (?x, ob)" "\<And>ob'. AList.update ?x ob' books = books[i := (?x, ob')]"
      using update_at [of books ?x ob] keyed \<open>map_of books ?x = Some ob\<close>
      by (metis (no_types, lifting) keyed_def distinct_map_eq_nth fst_conv update_at)
    let ?all = "pre @ map snd books @ post" and ?k = "length pre + i"
    have k: "?k < length ?all" "?all ! ?k = ob" using i by (simp_all add: nth_append)
    have inv: "group_inv w ?all" using books_reach_inv [OF reach] by simp
    then have st: "state_inv (w, ob)" using k by (metis group_inv_def nth_mem)
    obtain w' ob' where perf: "perform r (w, ob) = Inr (w', ob')"
      using admissible_answered [OF st adm] by auto
    have "books_reach w' (?all[?k := ob'])" using answered [OF reach k(1)] k(2) adm perf by simp
    moreover have "?all[?k := ob'] = pre @ map snd (books[i := (?x, ob')]) @ post"
      using i(1) by (simp add: list_update_append map_update)
    ultimately have "books_reach w' (pre @ map snd (books[i := (?x, ob')]) @ post)" by simp
    moreover have "map fst (books[i := (?x, ob')]) = map fst books"
      using i(1,2) by (metis fst_conv list_update_id map_update nth_map)
    moreover have "ob_instrument ob' = ?x"
      using perform_instrument [OF st adm perf] keyed i(1,2) nth_mem unfolding keyed_def by fastforce
    then have "keyed (books[i := (?x, ob')])"
      using keyed calculation(2) set_update_subset_insert [of books i "(?x, ob')"] by (auto simp: keyed_def)
    moreover have "map_of (books[i := (?x, ob')]) y = map_of books y" if "y \<noteq> ?x" for y
      using that i(3) [of ob'] by (metis map_of_update_other)
    ultimately show ?thesis using p Some perf i(3) \<open>map_of books ?x = Some ob\<close> by (auto simp: domIff)
  qed
qed

section \<open>The loop performs the queued commands\<close>

text \<open>The commands one after the other, and whether the books are prepared for each when its turn comes.\<close>

fun process_all ::
    "(instrument \<Rightarrow> instrument) \<Rightarrow> surroundings \<Rightarrow> nat \<Rightarrow> order_command list \<Rightarrow> world \<times> books \<Rightarrow>
       (world \<times> books) result" where
  "process_all mv sur k [] s = Inr s"
| "process_all mv sur k (cmd # cmds) (w, books) =
     rbind (process_command mv cmd (sur_world sur k w, books)) (\<lambda>(_, _, s').
       process_all mv sur (Suc k) cmds s')"

fun commands_ok ::
    "(instrument \<Rightarrow> instrument) \<Rightarrow> surroundings \<Rightarrow> nat \<Rightarrow> order_command list \<Rightarrow> world \<times> books \<Rightarrow> bool" where
  "commands_ok mv sur k [] s \<longleftrightarrow> True"
| "commands_ok mv sur k (cmd # cmds) (w, books) \<longleftrightarrow>
     command_ok cmd (sur_world sur k w, books) \<and>
     (case process_command mv cmd (sur_world sur k w, books) of
        Inl _ \<Rightarrow> True | Inr (_, _, s') \<Rightarrow> commands_ok mv sur (Suc k) cmds s')"

definition appends :: "(command_queue \<Rightarrow> command_queue) \<Rightarrow> bool" where
  "appends f \<longleftrightarrow> (\<forall>q. spsc_inv q \<longrightarrow> spsc_inv (f q) \<and> (\<exists>new. spsc_items (f q) = spsc_items q @ new))"

lemma appends_id [simp]: "appends (\<lambda>q. q)"
  by (simp add: appends_def)

definition no_shutdown :: "order_command list \<Rightarrow> bool" where
  "no_shutdown cmds \<longleftrightarrow> (\<forall>cmd \<in> set cmds. cmd_type cmd \<noteq> SHUTDOWN)"

lemma no_shutdown_simps [simp]:
  "no_shutdown []" "no_shutdown (cmd # cmds) \<longleftrightarrow> cmd_type cmd \<noteq> SHUTDOWN \<and> no_shutdown cmds"
  by (simp_all add: no_shutdown_def)

lemma appended_pop:
  assumes "appends f" "spsc_inv q" "spsc_items q = x # xs"
  shows "\<exists>q' new. spsc_pop mv (f q) = Inr (Some x, q') \<and> spsc_inv q' \<and> spsc_items q' = xs @ new"
proof -
  obtain new where "spsc_inv (f q)" "spsc_items (f q) = x # xs @ new"
    using assms by (auto simp: appends_def)
  then show ?thesis using spsc.get_ok [of "f q" x "xs @ new" mv] by auto
qed

lemma worker_loop_drains:
  assumes "\<forall>k. appends (sur_queue sur k)" "spsc_inv q" "spsc_items q = cmds @ stop # rest" "no_shutdown cmds"
    "cmd_type stop = SHUTDOWN"
  shows "case process_all mv sur k cmds (w, books) of
      Inl e \<Rightarrow> worker_loop mv sur k (q, w, books) = Some (Inl e)
    | Inr (w', books') \<Rightarrow> \<exists>q' new. spsc_items q' = rest @ new \<and>
        worker_loop mv sur k (q, w, books) = Some (Inr (q', sur_world sur (k + length cmds) w', books'))"
  using assms(2-4)
proof (induction cmds arbitrary: k q w books rest)
  case Nil
  obtain q' new where q': "spsc_pop (moved_command mv) (sur_queue sur k q) = Inr (Some stop, q')"
      "spsc_items q' = rest @ new"
    using appended_pop [of "sur_queue sur k" q stop rest "moved_command mv"] assms(1) Nil by auto
  then show ?case by (simp add: worker_loop.simps poll_turn_def assms(5))
next
  case (Cons cmd cmds)
  obtain q' new where q': "spsc_pop (moved_command mv) (sur_queue sur k q) = Inr (Some cmd, q')" "spsc_inv q'"
      "spsc_items q' = cmds @ stop # rest @ new"
    using appended_pop [of "sur_queue sur k" q cmd "cmds @ stop # rest" "moved_command mv"] assms(1) Cons.prems(1,2) by auto
  note loop = worker_loop.simps [of mv sur k "(q, w, books)"] poll_turn_def
  show ?case
  proof (cases "process_command mv cmd (sur_world sur k w, books)")
    case (Inl e)
    then show ?thesis using q'(1) Cons.prems(3) by (simp add: loop)
  next
    case (Inr r)
    obtain c cmd' w1 books1 where r: "r = (c, cmd', w1, books1)" by (cases r)
    have "worker_loop mv sur k (q, w, books) = worker_loop mv sur (Suc k) (q', w1, books1)"
      using Inr r q'(1) Cons.prems(3) by (simp add: loop)
    moreover have "no_shutdown cmds" using Cons.prems(3) by simp
    ultimately show ?thesis using Cons.IH [OF q'(2,3), of "Suc k" w1 books1] Inr r
      by (fastforce split: sum.splits)
  qed
qed

text \<open>What the other threads do keeps the books consistent with the allocator.\<close>

definition harmless :: "(world \<Rightarrow> world) \<Rightarrow> bool" where
  "harmless f \<longleftrightarrow> (\<forall>w obs. books_reach w obs \<longrightarrow> books_reach (f w) obs)"

lemma harmless_id [simp]: "harmless (\<lambda>w. w)"
  by (simp add: harmless_def)

lemma process_all_ok:
  assumes "\<forall>k. harmless (sur_world sur k)" "keyed books" "books_reach w (map snd books)"
    "commands_ok mv sur k cmds (w, books)"
  shows "\<exists>w' books'. process_all mv sur k cmds (w, books) = Inr (w', books') \<and> keyed books' \<and>
    map fst books' = map fst books \<and> books_reach w' (map snd books')"
  using assms(2-4)
proof (induction cmds arbitrary: k w books)
  case Nil
  then show ?case by simp
next
  case (Cons cmd cmds)
  have "books_reach (sur_world sur k w) ([] @ map snd books @ [])"
    using assms(1) Cons.prems(2) by (simp add: harmless_def)
  moreover have "command_ok cmd (sur_world sur k w, books)" using Cons.prems(3) by simp
  ultimately obtain c cmd' w1 books1 where p: "process_command mv cmd (sur_world sur k w, books) = Inr (c, cmd', w1, books1)"
      "keyed books1" "map fst books1 = map fst books" "books_reach w1 (map snd books1)"
    using process_command_ok [OF Cons.prems(1), of "sur_world sur k w" "[]" "[]" cmd mv] by auto
  then show ?case using Cons.IH [OF p(2,4), of "Suc k"] Cons.prems(3) by simp
qed

text \<open>The other threads put no SHUTDOWN into the queue.\<close>

definition no_stop :: "surroundings \<Rightarrow> bool" where
  "no_stop sur \<longleftrightarrow> (\<forall>k q. spsc_inv q \<longrightarrow> no_shutdown (spsc_items q) \<longrightarrow>
     spsc_inv (sur_queue sur k q) \<and> no_shutdown (spsc_items (sur_queue sur k q)))"

lemma worker_loop_polls:
  assumes "worker_loop mv sur k s = Some r" "no_stop sur" "spsc_inv (fst s)" "no_shutdown (spsc_items (fst s))"
  shows "\<exists>e. r = Inl e"
  using assms
proof (induction mv sur k s r rule: worker_loop.raw_induct [rotated, consumes 1])
  case (1 loop mv sur k s r)
  let ?q = "sur_queue sur k (fst s)" and ?w = "sur_world sur k (fst (snd s))" and ?books = "snd (snd s)"
  have q: "spsc_inv ?q" "no_shutdown (spsc_items ?q)" using 1(3-5) by (simp_all add: no_stop_def)
  show ?case
  proof (cases "spsc_items ?q")
    case Nil
    then have "spsc_pop (moved_command mv) ?q = Inr (None, ?q)" using q(1) by (intro spsc.get_empty)
    then have "loop mv sur (Suc k) (?q, ?w, ?books) = Some r" using 1(2) by (simp add: poll_turn_def)
    from 1(1) [OF this 1(3)] q show ?thesis by simp
  next
    case (Cons cmd cmds)
    obtain q' where q': "spsc_pop (moved_command mv) ?q = Inr (Some cmd, q')" "spsc_inv q'" "spsc_items q' = cmds"
      using spsc.get_ok [OF q(1) Cons] by blast
    have c: "cmd_type cmd \<noteq> SHUTDOWN" "no_shutdown cmds" using q(2) Cons by simp_all
    show ?thesis
    proof (cases "process_command mv cmd (?w, ?books)")
      case (Inl e)
      then show ?thesis using 1(2) q'(1) c(1) by (auto simp: poll_turn_def)
    next
      case (Inr p)
      obtain d cmd' w' books' where p: "p = (d, cmd', w', books')" by (cases p)
      have "loop mv sur (Suc k) (q', w', books') = Some r" using 1(2) q'(1) c(1) Inr p by (simp add: poll_turn_def)
      from 1(1) [OF this 1(3)] q'(2,3) c(2) show ?thesis by simp
    qed
  qed
qed

section \<open>A worker with two books\<close>

text \<open>
  Its queue holds a sell order that matches the order of the first book, a cancel of the order of the
  second, an order for an instrument that it has no book for, and a SHUTDOWN.
\<close>

definition ex_books :: books where
  "ex_books = map (\<lambda>ob. (ob_instrument ob, ob)) (snd ex_two_books)"

definition ex_commands :: "order_command list" where
  "ex_commands =
     [order_command_of ADD (ex_order SELL d99 100),
      order_command_of CANCEL (exchange_order (client_order 0 ''QQQ'' BUY d99 100) 1000001),
      order_command_of ADD (client_order 0 ''IWM'' BUY d99 100)]"

definition ex_stop :: order_command where
  "ex_stop = (default_command 0)\<lparr>cmd_type := SHUTDOWN\<rparr>"

definition ex_queue :: command_queue where
  "ex_queue = \<lparr>spsc_buffer = ex_commands @ [ex_stop, ex_stop], spsc_head = 4, spsc_tail = 0\<rparr>"

definition ex_alone :: surroundings where
  "ex_alone = \<lparr>sur_queue = (\<lambda>_ q. q), sur_world = (\<lambda>_ w. w)\<rparr>"

lemma ex_queue_items:
  "spsc_inv ex_queue" "spsc_items ex_queue = ex_commands @ ex_stop # []" "no_shutdown ex_commands"
  "cmd_type ex_stop = SHUTDOWN"
  by (simp_all add: ex_queue_def spsc_inv_def spsc_items_def spsc_size_def ex_commands_def ex_stop_def
      order_command_of_def upt_rec)

lemma ex_alone_simps [simp]:
  "sur_queue ex_alone k = (\<lambda>q. q)" "sur_world ex_alone k = (\<lambda>w. w)"
  by (simp_all add: ex_alone_def)

lemma ex_books_ok:
  "keyed ex_books" "books_reach (fst ex_two_books) (map snd ex_books)"
  "commands_ok (\<lambda>x. x) ex_alone 0 ex_commands (fst ex_two_books, ex_books)"
proof -
  have "map fst ex_books = [''SPY'', ''QQQ'']" by code_simp
  then show "keyed ex_books" by (auto simp: keyed_def ex_books_def o_def)
  show "books_reach (fst ex_two_books) (map snd ex_books)"
    using ex_two_books_reach by (simp add: ex_books_def o_def)
  show "commands_ok (\<lambda>x. x) ex_alone 0 ex_commands (fst ex_two_books, ex_books)" by code_simp
qed

section \<open>Properties\<close>

text \<open>
  C20: a worker performs the commands of its queue in the order of the queue, up to the first
  SHUTDOWN, at which it returns; what is queued behind the SHUTDOWN, before or meanwhile, stays in
  the queue, and when a command faults so does the worker.
\<close>

theorem worker_stops:
  assumes "\<forall>k. appends (sur_queue sur k)" "spsc_inv q" "spsc_items q = cmds @ stop # rest" "no_shutdown cmds"
    "cmd_type stop = SHUTDOWN"
  shows "case process_all mv sur 0 cmds (w, books) of
      Inl e \<Rightarrow> worker_run mv sur visit (q, w, books) = Inl e
    | Inr (w', books') \<Rightarrow> \<exists>q' new. spsc_items q' = rest @ new \<and> worker_run mv sur visit (q, w, books) =
        Inr (concat (map report_line (visit books')), q', sur_world sur (length cmds) w', books')"
  using worker_loop_drains [OF assms, where k = 0 and w = w and books = books and mv = mv]
  by (fastforce simp: worker_run_def split: sum.splits)

theorem worker_stops_witness:
  "\<exists>q' w' books'. worker_run (\<lambda>x. x) ex_alone (\<lambda>books. books) (ex_queue, fst ex_two_books, ex_books) =
       Inr (''Instrument: SPY, trades done: 1, total orders in ob: (0, 0)'' @ [CHR 0x0A] @
         ''Instrument: QQQ, trades done: 0, total orders in ob: (0, 0)'' @ [CHR 0x0A], q', w', books')"
proof -
  let ?p = "process_all (\<lambda>x. x) ex_alone 0 ex_commands (fst ex_two_books, ex_books)"
  let ?out = "''Instrument: SPY, trades done: 1, total orders in ob: (0, 0)'' @ [CHR 0x0A] @
    ''Instrument: QQQ, trades done: 0, total orders in ob: (0, 0)'' @ [CHR 0x0A]"
  have "case ?p of Inl _ \<Rightarrow> False | Inr (_, books') \<Rightarrow> concat (map report_line books') = ?out" by code_simp
  then obtain w1 books1 where p: "?p = Inr (w1, books1)" "concat (map report_line books1) = ?out"
    by (auto split: sum.splits)
  have "\<forall>k. appends (sur_queue ex_alone k)" by simp
  from worker_stops [OF this ex_queue_items, where mv = "\<lambda>x. x" and w = "fst ex_two_books"
      and books = ex_books and visit = "\<lambda>books. books"] obtain q' where
    "worker_run (\<lambda>x. x) ex_alone (\<lambda>books. books) (ex_queue, fst ex_two_books, ex_books) =
       Inr (concat (map report_line books1), q', sur_world ex_alone (length ex_commands) w1, books1)"
    unfolding p(1) by auto
  then show ?thesis unfolding p(2) by blast
qed

text \<open>
  C21: a worker with consistent books returns at its SHUTDOWN without a fault, with consistent books for
  the same instruments, as long as its books are prepared for each command when its turn comes:
  commands for instruments that it has no book for are skipped, whatever they are.
\<close>

theorem worker_answers:
  assumes "\<forall>k. appends (sur_queue sur k)" "\<forall>k. harmless (sur_world sur k)" "spsc_inv q"
    "spsc_items q = cmds @ stop # rest" "no_shutdown cmds" "cmd_type stop = SHUTDOWN" "keyed books"
    "books_reach w (map snd books)" "commands_ok mv sur 0 cmds (w, books)"
  shows "\<exists>out q' w' books'. worker_run mv sur visit (q, w, books) = Inr (out, q', w', books') \<and>
    keyed books' \<and> map fst books' = map fst books \<and> books_reach w' (map snd books')"
proof -
  obtain w1 books' where p: "process_all mv sur 0 cmds (w, books) = Inr (w1, books')" "keyed books'"
      "map fst books' = map fst books" "books_reach w1 (map snd books')"
    using process_all_ok [OF assms(2,7-9)] by blast
  have "books_reach (sur_world sur (length cmds) w1) (map snd books')" using assms(2) p(4) by (simp add: harmless_def)
  then show ?thesis
    using worker_loop_drains [OF assms(1,3-6), where k = 0 and w = w and books = books and mv = mv] p
    by (auto simp: worker_run_def)
qed

theorem worker_answers_witness:
  "\<exists>out q' w' books'. worker_run (\<lambda>x. x) ex_alone rev (ex_queue, fst ex_two_books, ex_books) = Inr (out, q', w', books') \<and>
     keyed books' \<and> map fst books' = [''SPY'', ''QQQ''] \<and> books_reach w' (map snd books')"
proof -
  have "map fst ex_books = [''SPY'', ''QQQ'']" by code_simp
  then show ?thesis
    using worker_answers [of ex_alone ex_queue ex_commands ex_stop "[]" ex_books, where mv = "\<lambda>x. x"
        and w = "fst ex_two_books" and visit = rev]
      ex_queue_items ex_books_ok by simp
qed

text \<open>
  A worker that is never sent a SHUTDOWN never returns: while the other threads put nothing but
  other commands into its queue, it faults or polls for ever.
\<close>

theorem worker_polls_forever:
  assumes "no_stop sur" "spsc_inv q" "no_shutdown (spsc_items q)"
  shows "\<exists>e. worker_run mv sur visit (q, w, books) = Inl e"
  using worker_loop_polls [of mv sur 0 "(q, w, books)"] assms
  by (cases "worker_loop mv sur 0 (q, w, books)") (fastforce simp: worker_run_def no_stop_def)+

theorem worker_polls_forever_witness:
  "\<exists>e. worker_run (\<lambda>x. x) ex_alone (\<lambda>books. books)
     (ex_queue\<lparr>spsc_head := 2\<rparr>, fst ex_two_books, ex_books) = Inl e"
proof -
  have "spsc_inv (ex_queue\<lparr>spsc_head := 2\<rparr>)" "no_shutdown (spsc_items (ex_queue\<lparr>spsc_head := 2\<rparr>))"
    by (simp_all add: ex_queue_def spsc_inv_def spsc_items_def spsc_size_def ex_commands_def order_command_of_def upt_rec)
  moreover have "no_stop ex_alone" by (simp add: no_stop_def)
  ultimately show ?thesis by (intro worker_polls_forever)
qed

end
