(* ===== verification/Producer.thy ===== *)
theory Producer
  imports Worker
begin

text \<open>
  \<open>include/producer.h\<close>: the producer finds the worker of a command's instrument in the router and
  pushes the command into the worker's queue; \<open>submit_all_shutdown_commands\<close> pushes a SHUTDOWN into
  every queue, and blocks until it has. What a worker takes out of its queue before an attempt is an
  argument of that loop. The queues in its result are those right after the last attempt on each: a worker
  may already have taken its SHUTDOWN when the call returns, which only \<open>Trading_System\<close> follows.
\<close>

section \<open>Submitting a command\<close>

definition set_queue :: "nat \<Rightarrow> command_queue \<Rightarrow> order_routing_system \<Rightarrow> order_routing_system" where
  "set_queue k q sys = sys\<lparr>ors_worker_contexts :=
     (ors_worker_contexts sys)[k := (ors_worker_contexts sys ! k)\<lparr>wc_queue := q\<rparr>]\<rparr>"

definition submit :: "order_command \<Rightarrow> order_routing_system \<Rightarrow> (bool \<times> order_routing_system) result" where
  "submit cmd sys =
     (case map_of (ors_instrument_router sys) (ord_instrument (cmd_order cmd)) of
        None \<Rightarrow> Inr (False, sys)
      | Some q_idx \<Rightarrow>
          rbind (assert_or (q_idx < length (ors_worker_contexts sys)) OutOfRange) (\<lambda>_.
          rbind (spsc_push cmd (wc_queue (ors_worker_contexts sys ! q_idx))) (\<lambda>(ok, q).
            Inr (ok, set_queue q_idx q sys))))"

text \<open>The overload for an rvalue; the caller's command comes back with the result.\<close>

definition submit_move ::
    "(instrument \<Rightarrow> instrument) \<Rightarrow> order_command \<Rightarrow> order_routing_system \<Rightarrow>
       (bool \<times> order_command \<times> order_routing_system) result" where
  "submit_move mv cmd sys =
     (case map_of (ors_instrument_router sys) (ord_instrument (cmd_order cmd)) of
        None \<Rightarrow> Inr (False, cmd, sys)
      | Some q_idx \<Rightarrow>
          rbind (assert_or (q_idx < length (ors_worker_contexts sys)) OutOfRange) (\<lambda>_.
          rbind (spsc_push_move (moved_command mv) cmd (wc_queue (ors_worker_contexts sys ! q_idx)))
            (\<lambda>(ok, cmd', q). Inr (ok, cmd', set_queue q_idx q sys))))"

section \<open>Submitting the shutdown commands\<close>

definition shutdown_command :: "time_point \<Rightarrow> order_command" where
  "shutdown_command t = (default_command t)\<lparr>cmd_type := SHUTDOWN\<rparr>"

text \<open>
  The locals of the function, with the number of attempts made so far, and the queues of the workers
  in their order. \<open>taken k i q\<close> is what is in the queue \<open>i\<close> at the \<open>k\<close>-th attempt when \<open>q\<close> was in it last.
\<close>

record shutdown_state =
  sd_attempts :: nat
  sd_submitted :: "bool list"
  sd_count :: nat
  sd_clock :: clock
  sd_queues :: "command_queue list"

type_synonym taking = "nat \<Rightarrow> nat \<Rightarrow> command_queue \<Rightarrow> command_queue"

text \<open>The body of the inner loop, when the worker's SHUTDOWN has not been submitted.\<close>

definition shutdown_attempt :: "taking \<Rightarrow> nat \<Rightarrow> shutdown_state \<Rightarrow> shutdown_state result" where
  "shutdown_attempt taken i s =
     (let cmd = shutdown_command (now (sd_clock s)) in
      rbind (spsc_push cmd (taken (sd_attempts s) i (sd_queues s ! i))) (\<lambda>(ok, q).
        Inr (s\<lparr>sd_attempts := Suc (sd_attempts s),
               sd_submitted := (if ok then (sd_submitted s)[i := True] else sd_submitted s),
               sd_count := (if ok then sd_count s + 1 else sd_count s),
               sd_clock := later 1 (sd_clock s), sd_queues := (sd_queues s)[i := q]\<rparr>)))"

fun shutdown_pass :: "taking \<Rightarrow> nat list \<Rightarrow> shutdown_state \<Rightarrow> shutdown_state result" where
  "shutdown_pass taken [] s = Inr s"
| "shutdown_pass taken (i # is) s =
     (if sd_submitted s ! i then shutdown_pass taken is s
      else rbind (shutdown_attempt taken i s) (shutdown_pass taken is))"

partial_function (option) shutdown_loop ::
    "taking \<Rightarrow> shutdown_state \<Rightarrow> shutdown_state result option" where
  "shutdown_loop taken s =
     (if sd_count s = length (sd_queues s) then Some (Inr s)
      else
        (case shutdown_pass taken [0..<length (sd_queues s)] s of
           Inl e \<Rightarrow> Some (Inl e)
         | Inr s' \<Rightarrow> shutdown_loop taken s'))"

declare shutdown_loop.simps [code]

definition submit_all_shutdown_commands ::
    "taking \<Rightarrow> clock \<Rightarrow> order_routing_system \<Rightarrow> (clock \<times> order_routing_system) result" where
  "submit_all_shutdown_commands taken clk sys =
     (let queues = map wc_queue (ors_worker_contexts sys);
          start = \<lparr>sd_attempts = 0, sd_submitted = replicate (length queues) False, sd_count = 0,
                   sd_clock = clk, sd_queues = queues\<rparr>
      in case shutdown_loop taken start of
           None \<Rightarrow> Inl Diverges
         | Some r \<Rightarrow> rbind r (\<lambda>s. Inr (sd_clock s, sys\<lparr>ors_worker_contexts :=
             map2 (\<lambda>ctx q. ctx\<lparr>wc_queue := q\<rparr>) (ors_worker_contexts sys) (sd_queues s)\<rparr>)))"

section \<open>Submission\<close>

definition queues_ok :: "order_routing_system \<Rightarrow> bool" where
  "queues_ok sys \<longleftrightarrow> (\<forall>ctx \<in> set (ors_worker_contexts sys). spsc_inv (wc_queue ctx))"

definition pending :: "order_routing_system \<Rightarrow> nat \<Rightarrow> order_command list" where
  "pending sys k = spsc_items (wc_queue (ors_worker_contexts sys ! k))"

lemma set_queue_simps [simp]:
  "length (ors_worker_contexts (set_queue k q sys)) = length (ors_worker_contexts sys)"
  "ors_instrument_router (set_queue k q sys) = ors_instrument_router sys"
  by (simp_all add: set_queue_def)

lemma set_queue_at:
  assumes "k < length (ors_worker_contexts sys)"
  shows "wc_queue (ors_worker_contexts (set_queue k q sys) ! j) =
      (if j = k then q else wc_queue (ors_worker_contexts sys ! j))"
    "wc_orderbooks (ors_worker_contexts (set_queue k q sys) ! j) = wc_orderbooks (ors_worker_contexts sys ! j)"
  using assms by (auto simp: set_queue_def nth_list_update)

lemma queues_ok_set: "queues_ok sys \<Longrightarrow> spsc_inv q \<Longrightarrow> queues_ok (set_queue k q sys)"
  using set_update_subset_insert [of "ors_worker_contexts sys" k "(ors_worker_contexts sys ! k)\<lparr>wc_queue := q\<rparr>"]
  by (auto simp: queues_ok_def set_queue_def)

lemma routing_ok_set: "routing_ok sys \<Longrightarrow> routing_ok (set_queue k q sys)"
  by (cases "k < length (ors_worker_contexts sys)")
    (simp_all add: routing_ok_def serves_def set_queue_at(2), simp add: set_queue_def list_update_beyond)

lemma queues_ok_at: "queues_ok sys \<Longrightarrow> k < length (ors_worker_contexts sys) \<Longrightarrow> spsc_inv (wc_queue (ors_worker_contexts sys ! k))"
  by (simp add: queues_ok_def)

lemma submit_routed:
  assumes "routing_ok sys" "queues_ok sys" "map_of (ors_instrument_router sys) (ord_instrument (cmd_order cmd)) = Some k"
  shows "\<exists>ok sys'. submit cmd sys = Inr (ok, sys') \<and> routing_ok sys' \<and> queues_ok sys' \<and>
    ors_instrument_router sys' = ors_instrument_router sys \<and>
    length (ors_worker_contexts sys') = length (ors_worker_contexts sys) \<and>
    (ok \<longleftrightarrow> 0 < spsc_room (wc_queue (ors_worker_contexts sys ! k))) \<and>
    (\<forall>j. pending sys' j = (if ok \<and> j = k then pending sys j @ [cmd] else pending sys j)) \<and>
    (\<forall>j. wc_orderbooks (ors_worker_contexts sys' ! j) = wc_orderbooks (ors_worker_contexts sys ! j))"
proof -
  let ?q = "wc_queue (ors_worker_contexts sys ! k)"
  have k: "k < length (ors_worker_contexts sys)" using assms(1,3) by (simp add: routing_ok_def)
  have q: "spsc_inv ?q" by (rule queues_ok_at [OF assms(2) k])
  show ?thesis
  proof (cases "0 < spsc_room ?q")
    case True
    then obtain q' where q': "spsc_push cmd ?q = Inr (True, q')" "spsc_inv q'" "spsc_items q' = spsc_items ?q @ [cmd]"
      using spsc.put_ok [OF q] by blast
    have "submit cmd sys = Inr (True, set_queue k q' sys)" using assms(3) k q' by (simp add: submit_def)
    then show ?thesis using True q' assms k
      by (intro exI [of _ True] exI [of _ "set_queue k q' sys"])
        (simp add: routing_ok_set queues_ok_set pending_def set_queue_at)
  next
    case False
    then have "spsc_push cmd ?q = Inr (False, ?q)" using spsc.put_full [OF q] by simp
    then have "submit cmd sys = Inr (False, set_queue k ?q sys)" using assms(3) k by (simp add: submit_def)
    then show ?thesis using False q assms k
      by (intro exI [of _ False] exI [of _ "set_queue k ?q sys"])
        (simp add: routing_ok_set queues_ok_set pending_def set_queue_at)
  qed
qed

lemma submit_move_submit:
  "submit_move mv cmd sys = rbind (submit cmd sys) (\<lambda>(ok, sys'). Inr (ok, if ok then moved_command mv cmd else cmd, sys'))"
  by (simp add: submit_move_def submit_def spsc_push_move_push rbind_assoc case_prod_unfold split: option.splits)

section \<open>The shutdown loop\<close>

text \<open>Workers only take commands out of their queues; from the attempt \<open>n\<close> on, each has made room.\<close>

definition takes :: "taking \<Rightarrow> bool" where
  "takes taken \<longleftrightarrow> (\<forall>k i q. spsc_inv q \<longrightarrow> spsc_inv (taken k i q) \<and>
     length (spsc_buffer (taken k i q)) = length (spsc_buffer q) \<and>
     (\<exists>m. spsc_items (taken k i q) = drop m (spsc_items q)))"

definition catches_up :: "nat \<Rightarrow> taking \<Rightarrow> bool" where
  "catches_up n taken \<longleftrightarrow> (\<forall>k i q. n \<le> k \<longrightarrow> spsc_inv q \<longrightarrow> 2 \<le> length (spsc_buffer q) \<longrightarrow>
     0 < spsc_room (taken k i q))"

text \<open>What each queue holds: what the workers have left of it, and a SHUTDOWN if one has been submitted.\<close>

definition queue_at :: "command_queue \<Rightarrow> bool \<Rightarrow> command_queue \<Rightarrow> bool" where
  "queue_at q0 submitted q \<longleftrightarrow> spsc_inv q \<and> length (spsc_buffer q) = length (spsc_buffer q0) \<and>
     (\<exists>m t. spsc_items q = drop m (spsc_items q0) @ (if submitted then [shutdown_command t] else []))"

definition shutdown_inv :: "command_queue list \<Rightarrow> shutdown_state \<Rightarrow> bool" where
  "shutdown_inv qs s \<longleftrightarrow> length (sd_submitted s) = length qs \<and> length (sd_queues s) = length qs \<and>
     sd_count s = length (filter id (sd_submitted s)) \<and>
     (\<forall>i < length qs. queue_at (qs ! i) (sd_submitted s ! i) (sd_queues s ! i))"

lemma filter_id_set:
  "i < length fs \<Longrightarrow> \<not> fs ! i \<Longrightarrow> length (filter id (fs[i := True])) = Suc (length (filter id fs))"
proof (induction fs arbitrary: i)
  case Nil
  then show ?case by simp
next
  case (Cons a fs)
  then show ?case by (cases i) auto
qed

lemma all_true_iff: "length (filter id fs) = length fs \<longleftrightarrow> (\<forall>i < length fs. fs ! i)"
  by (metis (no_types, lifting) all_set_conv_all_nth filter_True id_apply length_filter_less less_irrefl)

lemma push_length: "spsc_push x q = Inr (ok, q') \<Longrightarrow> length (spsc_buffer q') = length (spsc_buffer q)"
  by (auto simp: spsc_push_def Let_def rbind_eq_Inr split: if_splits)

lemma attempt_ok:
  assumes "takes taken" "shutdown_inv qs s" "i < length qs" "\<not> sd_submitted s ! i"
  shows "\<exists>ok s'. shutdown_attempt taken i s = Inr s' \<and> shutdown_inv qs s' \<and> sd_attempts s' = Suc (sd_attempts s) \<and>
    sd_submitted s' = (if ok then (sd_submitted s)[i := True] else sd_submitted s) \<and>
    (ok \<longleftrightarrow> 0 < spsc_room (taken (sd_attempts s) i (sd_queues s ! i))) \<and>
    (\<forall>j. j \<noteq> i \<longrightarrow> sd_queues s' ! j = sd_queues s ! j) \<and>
    (\<not> ok \<longrightarrow> sd_queues s' ! i = taken (sd_attempts s) i (sd_queues s ! i))"
proof -
  let ?q = "taken (sd_attempts s) i (sd_queues s ! i)" and ?c = "shutdown_command (now (sd_clock s))"
  have at: "queue_at (qs ! i) False (sd_queues s ! i)" and len: "length (sd_submitted s) = length qs" "length (sd_queues s) = length qs"
    using assms(2-4) by (auto simp: shutdown_inv_def)
  have tk: "spsc_inv ?q" "length (spsc_buffer ?q) = length (spsc_buffer (sd_queues s ! i))"
      "\<exists>m. spsc_items ?q = drop m (spsc_items (sd_queues s ! i))"
    using assms(1) at by (simp_all add: takes_def queue_at_def)
  then have q: "spsc_inv ?q" "length (spsc_buffer ?q) = length (spsc_buffer (qs ! i))"
      "\<exists>m. spsc_items ?q = drop m (spsc_items (qs ! i))"
    using at by (auto simp: queue_at_def)
  let ?s = "\<lambda>ok q'. s\<lparr>sd_attempts := Suc (sd_attempts s),
      sd_submitted := (if ok then (sd_submitted s)[i := True] else sd_submitted s),
      sd_count := (if ok then sd_count s + 1 else sd_count s), sd_clock := later 1 (sd_clock s),
      sd_queues := (sd_queues s)[i := q']\<rparr>"
  have inv: "shutdown_inv qs (?s ok q')" if "queue_at (qs ! i) ok q'" for ok q'
    using assms(2-4) that len by (auto simp: shutdown_inv_def filter_id_set nth_list_update)
  show ?thesis
  proof (cases "0 < spsc_room ?q")
    case True
    then obtain q' where q': "spsc_push ?c ?q = Inr (True, q')" "spsc_inv q'" "spsc_items q' = spsc_items ?q @ [?c]"
      using spsc.put_ok [OF q(1)] by blast
    then have "queue_at (qs ! i) True q'" using q push_length [OF q'(1)] by (auto simp: queue_at_def)
    from inv [OF this] show ?thesis using q'(1) True
      by (intro exI [of _ True] exI [of _ "?s True q'"]) (simp add: shutdown_attempt_def Let_def)
  next
    case False
    then have full: "spsc_push ?c ?q = Inr (False, ?q)" using spsc.put_full [OF q(1)] by simp
    have "queue_at (qs ! i) False ?q" using q by (auto simp: queue_at_def)
    from inv [OF this] show ?thesis using full False len assms(3)
      by (intro exI [of _ False] exI [of _ "?s False ?q"]) (simp add: shutdown_attempt_def Let_def)
  qed
qed

lemma pass_ok:
  assumes "takes taken" "shutdown_inv qs s" "\<forall>i \<in> set is. i < length qs"
  shows "\<exists>s'. shutdown_pass taken is s = Inr s' \<and> shutdown_inv qs s' \<and> sd_attempts s \<le> sd_attempts s' \<and>
    (\<forall>j < length qs. sd_submitted s ! j \<longrightarrow> sd_submitted s' ! j) \<and>
    ((\<exists>i \<in> set is. \<not> sd_submitted s ! i) \<longrightarrow> sd_attempts s < sd_attempts s') \<and>
    (catches_up n taken \<longrightarrow> n \<le> sd_attempts s \<longrightarrow> (\<forall>q \<in> set qs. 2 \<le> length (spsc_buffer q)) \<longrightarrow>
       (\<forall>i \<in> set is. sd_submitted s' ! i))"
  using assms(2,3)
proof (induction "is" arbitrary: s)
  case Nil
  then show ?case by simp
next
  case (Cons i "is")
  have i: "i < length qs" "\<forall>j \<in> set is. j < length qs" using Cons.prems(2) by simp_all
  show ?case
  proof (cases "sd_submitted s ! i")
    case True
    then show ?thesis using Cons.IH [OF Cons.prems(1) i(2)] i(1) by fastforce
  next
    case False
    obtain ok s1 where s1: "shutdown_attempt taken i s = Inr s1" "shutdown_inv qs s1" "sd_attempts s1 = Suc (sd_attempts s)"
        "sd_submitted s1 = (if ok then (sd_submitted s)[i := True] else sd_submitted s)"
        "ok \<longleftrightarrow> 0 < spsc_room (taken (sd_attempts s) i (sd_queues s ! i))"
      using attempt_ok [OF assms(1) Cons.prems(1) i(1) False] by blast
    have mono: "sd_submitted s ! j \<longrightarrow> sd_submitted s1 ! j" if "j < length qs" for j
      using s1(4) i(1) Cons.prems(1) by (cases "j = i") (auto simp: shutdown_inv_def)
    have got: "sd_submitted s1 ! i"
      if "catches_up n taken" "n \<le> sd_attempts s" "\<forall>q \<in> set qs. 2 \<le> length (spsc_buffer q)"
    proof -
      have "queue_at (qs ! i) False (sd_queues s ! i)" "i < length (sd_submitted s)"
        using Cons.prems(1) i(1) False by (auto simp: shutdown_inv_def)
      then show ?thesis using s1(4,5) that i(1) by (simp add: catches_up_def queue_at_def)
    qed
    obtain s2 where s2: "shutdown_pass taken is s1 = Inr s2" "shutdown_inv qs s2" "sd_attempts s1 \<le> sd_attempts s2"
        "\<forall>j < length qs. sd_submitted s1 ! j \<longrightarrow> sd_submitted s2 ! j"
        "catches_up n taken \<longrightarrow> n \<le> sd_attempts s1 \<longrightarrow> (\<forall>q \<in> set qs. 2 \<le> length (spsc_buffer q)) \<longrightarrow>
          (\<forall>i \<in> set is. sd_submitted s2 ! i)"
      using Cons.IH [OF s1(2) i(2)] by blast
    then show ?thesis using False s1(1,3) mono got i by (intro exI [of _ s2]) auto
  qed
qed

lemma loop_returns:
  assumes "takes taken" "catches_up n taken" "\<forall>q \<in> set qs. 2 \<le> length (spsc_buffer q)" "shutdown_inv qs s"
  shows "\<exists>s'. shutdown_loop taken s = Some (Inr s') \<and> shutdown_inv qs s' \<and> (\<forall>i < length qs. sd_submitted s' ! i)"
  using assms(4)
proof (induction "n - sd_attempts s" arbitrary: s rule: less_induct)
  case less
  have len: "length (sd_queues s) = length qs" "length (sd_submitted s) = length qs"
      "sd_count s = length (filter id (sd_submitted s))" using less.prems by (simp_all add: shutdown_inv_def)
  have full: "shutdown_loop taken t = Some (Inr t)" if "shutdown_inv qs t" "\<forall>i < length qs. sd_submitted t ! i" for t
    using that all_true_iff [of "sd_submitted t"] by (simp add: shutdown_loop.simps [of taken t] shutdown_inv_def)
  show ?case
  proof (cases "\<forall>i < length qs. sd_submitted s ! i")
    case True
    then show ?thesis using full less.prems by blast
  next
    case False
    have is_ok: "\<forall>i \<in> set [0..<length qs]. i < length qs" by simp
    obtain s1 where s1: "shutdown_pass taken [0..<length qs] s = Inr s1" "shutdown_inv qs s1"
        "(\<exists>i \<in> set [0..<length qs]. \<not> sd_submitted s ! i) \<longrightarrow> sd_attempts s < sd_attempts s1"
        "catches_up n taken \<longrightarrow> n \<le> sd_attempts s \<longrightarrow> (\<forall>q \<in> set qs. 2 \<le> length (spsc_buffer q)) \<longrightarrow>
          (\<forall>i \<in> set [0..<length qs]. sd_submitted s1 ! i)"
      using pass_ok [OF assms(1) less.prems is_ok, of n] by blast
    have "sd_count s \<noteq> length (sd_queues s)" using False len all_true_iff [of "sd_submitted s"] by simp
    then have loop: "shutdown_loop taken s = shutdown_loop taken s1"
      using s1(1) len by (simp add: shutdown_loop.simps [of taken s])
    show ?thesis
    proof (cases "n \<le> sd_attempts s")
      case True
      then have "\<forall>i < length qs. sd_submitted s1 ! i" using s1(4) assms(2,3) by simp
      then show ?thesis using loop full s1(2) by auto
    next
      case behind: False
      have "sd_attempts s < sd_attempts s1" using s1(3) False by auto
      then have "n - sd_attempts s1 < n - sd_attempts s" using behind by simp
      from less.hyps [OF this s1(2)] loop show ?thesis by simp
    qed
  qed
qed

text \<open>A queue that stays full keeps the loop from returning.\<close>

definition stays_full :: "nat \<Rightarrow> nat \<Rightarrow> taking \<Rightarrow> bool" where
  "stays_full n i taken \<longleftrightarrow> (\<forall>k q. spsc_inv q \<longrightarrow> length (spsc_buffer q) = n \<longrightarrow> spsc_room q = 0 \<longrightarrow>
     spsc_room (taken k i q) = 0)"

text \<open>A queue of one slot is full when it is empty.\<close>

lemma one_slot_full: "takes taken \<Longrightarrow> stays_full 1 i taken"
  by (auto simp: stays_full_def takes_def spsc_room_def)

definition waits_for :: "nat \<Rightarrow> shutdown_state \<Rightarrow> bool" where
  "waits_for i s \<longleftrightarrow> \<not> sd_submitted s ! i \<and> spsc_room (sd_queues s ! i) = 0"

lemma pass_waits:
  assumes "takes taken" "stays_full (length (spsc_buffer (qs ! i))) i taken" "i < length qs" "shutdown_inv qs s" "waits_for i s"
    "\<forall>j \<in> set is. j < length qs" "shutdown_pass taken is s = Inr s'"
  shows "shutdown_inv qs s' \<and> waits_for i s'"
  using assms(4-7)
proof (induction "is" arbitrary: s)
  case Nil
  then show ?case by simp
next
  case (Cons j "is")
  have j: "j < length qs" "\<forall>j \<in> set is. j < length qs" using Cons.prems(3) by simp_all
  show ?case
  proof (cases "sd_submitted s ! j")
    case True
    then show ?thesis using Cons.IH [OF Cons.prems(1,2) j(2)] Cons.prems(4) by simp
  next
    case False
    obtain ok s1 where s1: "shutdown_attempt taken j s = Inr s1" "shutdown_inv qs s1"
        "sd_submitted s1 = (if ok then (sd_submitted s)[j := True] else sd_submitted s)"
        "ok \<longleftrightarrow> 0 < spsc_room (taken (sd_attempts s) j (sd_queues s ! j))"
        "\<forall>l. l \<noteq> j \<longrightarrow> sd_queues s1 ! l = sd_queues s ! l"
        "\<not> ok \<longrightarrow> sd_queues s1 ! j = taken (sd_attempts s) j (sd_queues s ! j)"
      using attempt_ok [OF assms(1) Cons.prems(1) j(1) False] by blast
    have "spsc_inv (sd_queues s ! i)" "length (spsc_buffer (sd_queues s ! i)) = length (spsc_buffer (qs ! i))"
      using Cons.prems(1) assms(3) by (auto simp: shutdown_inv_def queue_at_def)
    then have "waits_for i s1" using s1(3-6) Cons.prems(2) assms(2) by (cases "j = i") (auto simp: waits_for_def stays_full_def)
    then show ?thesis using Cons.IH [OF s1(2) _ j(2)] Cons.prems(4) False s1(1) by simp
  qed
qed

lemma loop_waits:
  assumes "shutdown_loop taken s = Some r" "takes taken" "stays_full (length (spsc_buffer (qs ! i))) i taken" "i < length qs"
    "shutdown_inv qs s" "waits_for i s"
  shows False
  using assms
proof (induction taken s r rule: shutdown_loop.raw_induct [rotated, consumes 1])
  case (1 loop taken s r)
  have len: "length (sd_queues s) = length qs" "length (sd_submitted s) = length qs"
      "sd_count s = length (filter id (sd_submitted s))" using 1(6) by (simp_all add: shutdown_inv_def)
  have "sd_count s \<noteq> length (sd_queues s)"
    using 1(5,7) len all_true_iff [of "sd_submitted s"] by (auto simp: waits_for_def)
  moreover have in_range: "\<forall>j \<in> set [0..<length qs]. j < length qs" by simp
  then obtain s1 where s1: "shutdown_pass taken [0..<length qs] s = Inr s1" using pass_ok [OF 1(3,6)] by blast
  ultimately have "loop taken s1 = Some r" using 1(2) len by simp
  then show ?case using 1(1) pass_waits [OF 1(3-7) in_range s1] 1(3-5) by blast
qed

section \<open>A worker that takes one command before each attempt\<close>

definition ex_taking :: taking where
  "ex_taking k i q = (case spsc_pop (\<lambda>x. x) q of Inl _ \<Rightarrow> q | Inr (_, q') \<Rightarrow> q')"

lemma pop_length: "spsc_pop mv q = Inr (x, q') \<Longrightarrow> length (spsc_buffer q') = length (spsc_buffer q)"
  by (auto simp: spsc_pop_def Let_def rbind_eq_Inr split: if_splits)

lemma ex_taking_pop:
  assumes "spsc_inv q"
  shows "\<exists>x. spsc_pop (\<lambda>x. x) q = Inr (x, ex_taking k i q)" "spsc_inv (ex_taking k i q)"
    "spsc_items (ex_taking k i q) = drop 1 (spsc_items q)"
proof -
  obtain xs q' where "spsc.get_many (\<lambda>x. x) 1 q = Inr (xs, q')" "spsc_inv q'" "spsc_items q' = drop 1 (spsc_items q)"
    using spsc.get_many_ok [OF assms, of "\<lambda>x. x" 1] by blast
  then obtain x where x: "spsc_pop (\<lambda>x. x) q = Inr (x, q')" "spsc_inv q'" "spsc_items q' = drop 1 (spsc_items q)"
    by (auto simp: rbind_eq_Inr)
  then have "ex_taking k i q = q'" by (simp add: ex_taking_def)
  then show "\<exists>x. spsc_pop (\<lambda>x. x) q = Inr (x, ex_taking k i q)" "spsc_inv (ex_taking k i q)"
    "spsc_items (ex_taking k i q) = drop 1 (spsc_items q)" using x by auto
qed

lemma ex_taking_takes: "takes ex_taking"
  unfolding takes_def using ex_taking_pop pop_length by metis

lemma ex_taking_catches_up: "catches_up 0 ex_taking"
proof -
  have "0 < spsc_room (ex_taking k i q)" if "spsc_inv q" "2 \<le> length (spsc_buffer q)" for k i q
  proof -
    note pop = ex_taking_pop [OF that(1), of k i]
    have len: "length (spsc_buffer (ex_taking k i q)) = length (spsc_buffer q)" using pop(1) pop_length by blast
    have "spsc_size (ex_taking k i q) = spsc_size q - 1" using arg_cong [OF pop(3), of length] by simp
    then show ?thesis using len that spsc_size_lt [OF that(1)] by (auto simp: spsc_room_def)
  qed
  then show ?thesis by (simp add: catches_up_def)
qed

lemma ex_system_queues:
  "queues_ok (fst ex_system)" "k < 2 \<Longrightarrow> pending (fst ex_system) k = []"
  "k < 2 \<Longrightarrow> spsc_room (wc_queue (ors_worker_contexts (fst ex_system) ! k)) = 3"
  "\<forall>ctx \<in> set (ors_worker_contexts (fst ex_system)). 2 \<le> length (spsc_buffer (wc_queue ctx))"
  using ex_system_ok(2,4) by (auto simp: queues_ok_def pending_def fresh_queue_def spsc_room_def)

definition ex_cmd :: order_command where
  "ex_cmd = order_command_of ADD (client_order 0 ''QQQ'' BUY d99 10)"

section \<open>Properties\<close>

text \<open>
  C23: \<open>submit\<close> on every branch: a command for an instrument that the router does not know is refused;
  any other goes to the end of the queue of the instrument's worker, a worker that has a book for it,
  unless that queue is full; nothing else changes, and the overload for an rvalue does the same and
  moves from the command only when it was accepted.
\<close>

theorem submit_routes:
  assumes "routing_ok sys" "queues_ok sys"
  shows "case map_of (ors_instrument_router sys) (ord_instrument (cmd_order cmd)) of
      None \<Rightarrow> submit cmd sys = Inr (False, sys)
    | Some k \<Rightarrow> ord_instrument (cmd_order cmd) \<in> serves (ors_worker_contexts sys ! k) \<and>
        (\<exists>ok sys'. submit cmd sys = Inr (ok, sys') \<and>
          submit_move mv cmd sys = Inr (ok, if ok then moved_command mv cmd else cmd, sys') \<and>
          (ok \<longleftrightarrow> 0 < spsc_room (wc_queue (ors_worker_contexts sys ! k))) \<and>
          (\<forall>j. pending sys' j = (if ok \<and> j = k then pending sys j @ [cmd] else pending sys j)) \<and>
          routing_ok sys' \<and> queues_ok sys' \<and> ors_instrument_router sys' = ors_instrument_router sys)"
proof (cases "map_of (ors_instrument_router sys) (ord_instrument (cmd_order cmd))")
  case None
  then show ?thesis by (simp add: submit_def)
next
  case (Some k)
  have "ord_instrument (cmd_order cmd) \<in> serves (ors_worker_contexts sys ! k)"
    using assms(1) Some by (simp add: routing_ok_def)
  then show ?thesis using submit_routed [OF assms Some] Some by (fastforce simp: submit_move_submit)
qed

theorem submit_routes_witness:
  "\<exists>sys'. submit ex_cmd (fst ex_system) = Inr (True, sys') \<and> pending sys' 1 = [ex_cmd] \<and> pending sys' 0 = []"
proof -
  have "map_of (ors_instrument_router (fst ex_system)) (ord_instrument (cmd_order ex_cmd)) = Some 1"
    by (simp add: ex_system_router ex_cmd_def order_command_of_def client_order_def)
  then show ?thesis
    using submit_routes [OF ex_system_ok(1) ex_system_queues(1), of ex_cmd "\<lambda>x. x"] ex_system_queues(2,3) by auto
qed

text \<open>
  C22: \<open>submit_all_shutdown_commands\<close> returns once the workers have made room in their queues, which must
  hold more than one slot; then every queue ends with one SHUTDOWN, behind what its worker has left of
  the commands that were in it.
\<close>

theorem shutdown_reaches_all:
  assumes "takes taken" "catches_up n taken" "queues_ok sys"
    "\<forall>ctx \<in> set (ors_worker_contexts sys). 2 \<le> length (spsc_buffer (wc_queue ctx))"
  shows "\<exists>clk' sys'. submit_all_shutdown_commands taken clk sys = Inr (clk', sys') \<and> queues_ok sys' \<and>
    (\<forall>k < length (ors_worker_contexts sys). \<exists>m t. pending sys' k = drop m (pending sys k) @ [shutdown_command t])"
proof -
  let ?qs = "map wc_queue (ors_worker_contexts sys)" and ?n = "length (ors_worker_contexts sys)"
  let ?s = "\<lparr>sd_attempts = 0, sd_submitted = replicate ?n False, sd_count = 0, sd_clock = clk, sd_queues = ?qs\<rparr>"
  have "queue_at q False q" if "spsc_inv q" for q using that by (auto simp: queue_at_def intro: exI [of _ 0])
  then have "shutdown_inv ?qs ?s" using assms(3) by (auto simp: shutdown_inv_def queues_ok_def)
  then obtain s' where s': "shutdown_loop taken ?s = Some (Inr s')" "shutdown_inv ?qs s'" "\<forall>i < ?n. sd_submitted s' ! i"
    using loop_returns [OF assms(1,2), of ?qs ?s] assms(4) by auto
  let ?sys = "sys\<lparr>ors_worker_contexts := map2 (\<lambda>ctx q. ctx\<lparr>wc_queue := q\<rparr>) (ors_worker_contexts sys) (sd_queues s')\<rparr>"
  have len: "length (sd_queues s') = ?n" using s'(2) by (simp add: shutdown_inv_def)
  have at: "queue_at (wc_queue (ors_worker_contexts sys ! k)) True (wc_queue (ors_worker_contexts ?sys ! k))"
    if "k < ?n" for k using s'(2,3) that len by (auto simp: shutdown_inv_def)
  have "\<forall>k < ?n. spsc_inv (wc_queue (ors_worker_contexts ?sys ! k))" using at unfolding queue_at_def by blast
  then have "queues_ok ?sys" using len by (simp add: queues_ok_def all_set_conv_all_nth)
  moreover have "submit_all_shutdown_commands taken clk sys = Inr (sd_clock s', ?sys)"
    using s'(1) by (simp add: submit_all_shutdown_commands_def)
  moreover have "\<exists>m t. pending ?sys k = drop m (pending sys k) @ [shutdown_command t]" if "k < ?n" for k
    using at [OF that] by (simp add: queue_at_def pending_def)
  ultimately show ?thesis by (intro exI [of _ "sd_clock s'"] exI [of _ ?sys]) blast
qed

theorem shutdown_reaches_all_witness:
  "\<exists>clk' sys' t u. submit_all_shutdown_commands ex_taking (wd_clock ex_world) (fst ex_system) = Inr (clk', sys') \<and>
     pending sys' 0 = [shutdown_command t] \<and> pending sys' 1 = [shutdown_command u]"
proof -
  have k: "0 < length (ors_worker_contexts (fst ex_system))" "1 < length (ors_worker_contexts (fst ex_system))"
    using ex_system_ok(2) by simp_all
  show ?thesis
    using shutdown_reaches_all [OF ex_taking_takes ex_taking_catches_up ex_system_queues(1,4), of "wd_clock ex_world"]
      k ex_system_queues(2) by fastforce
qed

text \<open>
  C36: while one worker leaves its full queue full, \<open>submit_all_shutdown_commands\<close> does not return,
  whatever the other workers do; a queue of capacity one is always full, so that it never returns for
  those at all.
\<close>

theorem shutdown_blocks:
  assumes "takes taken" "queues_ok sys" "i < length (ors_worker_contexts sys)"
    "length (spsc_buffer (wc_queue (ors_worker_contexts sys ! i))) = n"
    "n = 1 \<or> stays_full n i taken \<and> spsc_room (wc_queue (ors_worker_contexts sys ! i)) = 0"
  shows "submit_all_shutdown_commands taken clk sys = Inl Diverges"
proof -
  let ?qs = "map wc_queue (ors_worker_contexts sys)" and ?n = "length (ors_worker_contexts sys)"
  let ?s = "\<lparr>sd_attempts = 0, sd_submitted = replicate ?n False, sd_count = 0, sd_clock = clk, sd_queues = ?qs\<rparr>"
  have "queue_at q False q" if "spsc_inv q" for q using that by (auto simp: queue_at_def intro: exI [of _ 0])
  then have "shutdown_inv ?qs ?s" using assms(2) by (auto simp: shutdown_inv_def queues_ok_def)
  moreover have "waits_for i ?s" using assms(3-5) by (auto simp: waits_for_def spsc_room_def)
  moreover have "stays_full (length (spsc_buffer (?qs ! i))) i taken"
    using assms(3-5) one_slot_full [OF assms(1), of i] by auto
  ultimately have "shutdown_loop taken ?s = None"
    using loop_waits [OF _ assms(1), of ?s _ ?qs i] assms(3) by (cases "shutdown_loop taken ?s") auto
  then show ?thesis by (simp add: submit_all_shutdown_commands_def)
qed

theorem shutdown_blocks_witness:
  "submit_all_shutdown_commands ex_taking (wd_clock ex_world)
     \<lparr>ors_worker_contexts = [\<lparr>wc_orderbooks = [], wc_queue = new_spsc_queue [ex_cmd],
        wc_reserve_space_per_instrument = 1\<rparr>], ors_instrument_router = []\<rparr> = Inl Diverges"
  by (rule shutdown_blocks [OF ex_taking_takes, where i = 0 and n = 1])
    (simp_all add: queues_ok_def new_spsc_queue_def spsc_inv_def)

end
