(* ===== verification/Trading_System.thy ===== *)
theory Trading_System
  imports Producer
begin

text \<open>
  The program put together: one producer, the queues, and the workers with their books, as a state
  machine in which any of them may take the next step. A step of the producer is a whole call of
  \<open>submit\<close>, or one attempt of the shutdown loop; a step of a worker is one turn of the loop in
  \<open>Worker::run\<close>. That calls of the two sides of a queue may be taken as whole is what \<open>Spsc_Threads\<close> shows.
\<close>

section \<open>The state machine\<close>

text \<open>
  \<open>tr_log\<close> and \<open>tr_done\<close> record, with the number of the worker, the commands that went into the queues
  and those that the workers took out, in the order in which that happened.
\<close>

record trading =
  tr_world :: world
  tr_system :: order_routing_system
  tr_workers :: "books list"
  tr_stopped :: "bool list"
  tr_log :: "(nat \<times> order_command) list"
  tr_done :: "(nat \<times> order_command) list"

abbreviation queue_of :: "trading \<Rightarrow> nat \<Rightarrow> command_queue" where
  "queue_of s k \<equiv> wc_queue (ors_worker_contexts (tr_system s) ! k)"

abbreviation workers_number :: "trading \<Rightarrow> nat" where
  "workers_number s \<equiv> length (ors_worker_contexts (tr_system s))"

definition routed_to :: "order_routing_system \<Rightarrow> order_command \<Rightarrow> nat" where
  "routed_to sys cmd = (case map_of (ors_instrument_router sys) (ord_instrument (cmd_order cmd)) of
     None \<Rightarrow> length (ors_worker_contexts sys) | Some k \<Rightarrow> k)"

text \<open>The workers are constructed on what \<open>build_order_routing_system\<close> returns.\<close>

definition start_trading :: "order_routing_system \<Rightarrow> world \<Rightarrow> trading" where
  "start_trading sys w =
     \<lparr>tr_world = w, tr_system = sys, tr_workers = map new_worker (ors_worker_contexts sys),
      tr_stopped = replicate (length (ors_worker_contexts sys)) False, tr_log = [], tr_done = []\<rparr>"

text \<open>
  One turn of the loop of worker \<open>k\<close>: the \<open>poll_turn\<close> that \<open>worker_loop\<close> repeats, on the worker's own queue
  and books and on the shared world. A worker that polls a SHUTDOWN has left the loop.
\<close>

definition worker_turn ::
    "(instrument \<Rightarrow> instrument) \<Rightarrow> nat \<Rightarrow> trading \<Rightarrow> (order_command option \<times> trading) result" where
  "worker_turn mv k s =
     rbind (poll_turn mv (queue_of s k, tr_world s, tr_workers s ! k)) (\<lambda>(popped, q, w, books).
     let s1 = s\<lparr>tr_system := set_queue k q (tr_system s), tr_world := w, tr_workers := (tr_workers s)[k := books]\<rparr> in
     case popped of
       None \<Rightarrow> Inr (None, s1)
     | Some cmd \<Rightarrow>
         Inr (Some cmd, s1\<lparr>
           tr_stopped := (if cmd_type cmd = SHUTDOWN then (tr_stopped s)[k := True] else tr_stopped s),
           tr_done := tr_done s @ [(k, cmd)]\<rparr>))"

lemmas worker_turn_defs = worker_turn_def poll_turn_def

lemma worker_turn_pop:
  assumes "worker_turn mv k s = Inr (popped, s')"
  obtains q' where "spsc_pop (moved_command mv) (queue_of s k) = Inr (popped, q')"
    "tr_system s' = set_queue k q' (tr_system s)"
  using assms by (auto simp: worker_turn_def rbind_eq_Inr Let_def split: option.splits dest!: poll_turn_pop)

text \<open>\<open>P\<close> restricts the commands that the books are asked to perform.\<close>

inductive trading_step ::
    "(order_command \<Rightarrow> world \<times> books \<Rightarrow> bool) \<Rightarrow> (instrument \<Rightarrow> instrument) \<Rightarrow> trading \<Rightarrow> trading \<Rightarrow> bool"
  for P mv where
  submits: "submit cmd (tr_system s) = Inr (ok, sys) \<Longrightarrow>
    trading_step P mv s (s\<lparr>tr_system := sys,
      tr_log := (if ok then tr_log s @ [(routed_to (tr_system s) cmd, cmd)] else tr_log s)\<rparr>)"
| submits_shutdown: "k < workers_number s \<Longrightarrow> spsc_push (shutdown_command t) (queue_of s k) = Inr (ok, q) \<Longrightarrow>
    trading_step P mv s (s\<lparr>tr_system := set_queue k q (tr_system s),
      tr_log := (if ok then tr_log s @ [(k, shutdown_command t)] else tr_log s)\<rparr>)"
| works: "k < workers_number s \<Longrightarrow> \<not> tr_stopped s ! k \<Longrightarrow> worker_turn mv k s = Inr (popped, s') \<Longrightarrow>
    (case popped of None \<Rightarrow> True | Some cmd \<Rightarrow> P cmd (tr_world s, tr_workers s ! k)) \<Longrightarrow> trading_step P mv s s'"
| clock_ticks: "trading_step P mv s (s\<lparr>tr_world := (tr_world s)\<lparr>wd_clock := c\<rparr>\<rparr>)"

inductive trading_reach ::
    "(order_command \<Rightarrow> world \<times> books \<Rightarrow> bool) \<Rightarrow> (instrument \<Rightarrow> instrument) \<Rightarrow> trading \<Rightarrow> bool" for P mv where
  started: "distinct instruments \<Longrightarrow> instruments \<noteq> [] \<Longrightarrow> 0 < num_workers \<Longrightarrow> 0 < queue_cap \<Longrightarrow>
    0 < ida_block_size (wd_ids w) \<Longrightarrow> ids_left (length instruments) (wd_ids w) \<Longrightarrow>
    build_order_routing_system_sized n instruments num_workers queue_cap reserve w = Inr (sys, w') \<Longrightarrow>
    trading_reach P mv (start_trading sys w')"
| step: "trading_reach P mv s \<Longrightarrow> trading_step P mv s s' \<Longrightarrow> trading_reach P mv s'"

inductive_cases trading_stepE: "trading_step P mv s s'"

section \<open>Commands in flight\<close>

definition for_worker :: "nat \<Rightarrow> (nat \<times> order_command) list \<Rightarrow> order_command list" where
  "for_worker k cmds = map snd (filter (\<lambda>(j, _). j = k) cmds)"

lemma for_worker_simps [simp]:
  "for_worker k [] = []"
  "for_worker k (xs @ ys) = for_worker k xs @ for_worker k ys"
  "for_worker k [(j, cmd)] = (if j = k then [cmd] else [])"
  by (simp_all add: for_worker_def)

definition flight_inv :: "trading \<Rightarrow> bool" where
  "flight_inv s \<longleftrightarrow> routing_ok (tr_system s) \<and> queues_ok (tr_system s) \<and>
     length (tr_workers s) = workers_number s \<and> length (tr_stopped s) = workers_number s \<and>
     (\<forall>k < workers_number s. for_worker k (tr_log s) = for_worker k (tr_done s) @ pending (tr_system s) k) \<and>
     (\<forall>(k, cmd) \<in> set (tr_log s). cmd_type cmd = SHUTDOWN \<or>
        map_of (ors_instrument_router (tr_system s)) (ord_instrument (cmd_order cmd)) = Some k) \<and>
     (\<forall>(k, cmd) \<in> set (tr_done s). k < workers_number s) \<and>
     (\<forall>k < workers_number s. if tr_stopped s ! k
        then \<exists>cmds stop. for_worker k (tr_done s) = cmds @ [stop] \<and> no_shutdown cmds \<and> cmd_type stop = SHUTDOWN
        else no_shutdown (for_worker k (tr_done s)))"

lemma pending_set [simp]:
  "k < length (ors_worker_contexts sys) \<Longrightarrow> pending (set_queue k q sys) j = (if j = k then spsc_items q else pending sys j)"
  by (simp add: pending_def set_queue_at)

lemma no_shutdown_append [simp]: "no_shutdown (xs @ ys) \<longleftrightarrow> no_shutdown xs \<and> no_shutdown ys"
  by (auto simp: no_shutdown_def)

text \<open>What a turn of a worker does to its queue.\<close>

lemma worker_turn_pops:
  assumes inv: "flight_inv s" and k: "k < workers_number s" and turn: "worker_turn mv k s = Inr (popped, s')"
  obtains (nothing) "popped = None" "pending (tr_system s) k = []" "s' = s"
  | (stops) cmd q where "popped = Some cmd" "cmd_type cmd = SHUTDOWN" "spsc_inv q"
      "pending (tr_system s) k = cmd # spsc_items q"
      "s' = s\<lparr>tr_system := set_queue k q (tr_system s), tr_stopped := (tr_stopped s)[k := True],
              tr_done := tr_done s @ [(k, cmd)]\<rparr>"
  | (performs) cmd q c cmd' w books where "popped = Some cmd" "cmd_type cmd \<noteq> SHUTDOWN" "spsc_inv q"
      "pending (tr_system s) k = cmd # spsc_items q"
      "process_command mv cmd (tr_world s, tr_workers s ! k) = Inr (c, cmd', w, books)"
      "s' = s\<lparr>tr_system := set_queue k q (tr_system s), tr_world := w, tr_workers := (tr_workers s)[k := books],
              tr_done := tr_done s @ [(k, cmd)]\<rparr>"
proof -
  let ?q = "queue_of s k"
  have q: "spsc_inv ?q" using inv k by (simp add: flight_inv_def queues_ok_def)
  show ?thesis
  proof (cases "pending (tr_system s) k")
    case Nil
    then have "spsc_pop (moved_command mv) ?q = Inr (None, ?q)" using spsc.get_empty [OF q] by (simp add: pending_def)
    moreover have "set_queue k ?q (tr_system s) = tr_system s" using k by (simp add: set_queue_def)
    ultimately have out: "popped = None" "s' = s" using turn by (simp_all add: worker_turn_defs)
    show ?thesis by (rule nothing) (fact out Nil)+
  next
    case (Cons cmd cmds)
    then obtain q' where q': "spsc_pop (moved_command mv) ?q = Inr (Some cmd, q')" "spsc_inv q'" "spsc_items q' = cmds"
      using spsc.get_ok [OF q] by (auto simp: pending_def)
    show ?thesis
    proof (cases "cmd_type cmd = SHUTDOWN")
      case True
      then show ?thesis using turn q' Cons stops [of cmd q'] by (simp add: worker_turn_defs)
    next
      case False
      then obtain c cmd' w books where "process_command mv cmd (tr_world s, tr_workers s ! k) = Inr (c, cmd', w, books)"
        using turn q'(1) by (auto simp: worker_turn_defs rbind_eq_Inr)
      then show ?thesis using turn q' Cons False performs [of cmd q' c cmd' w books] by (simp add: worker_turn_defs)
    qed
  qed
qed

text \<open>Each kind of step keeps the invariant.\<close>

lemma flight_submits:
  assumes inv: "flight_inv s" and sub: "submit cmd (tr_system s) = Inr (ok, sys)"
  shows "flight_inv (s\<lparr>tr_system := sys,
    tr_log := (if ok then tr_log s @ [(routed_to (tr_system s) cmd, cmd)] else tr_log s)\<rparr>)"
proof (cases "map_of (ors_instrument_router (tr_system s)) (ord_instrument (cmd_order cmd))")
  case None
  then show ?thesis using sub inv by (auto simp: submit_def flight_inv_def)
next
  case (Some k)
  have ok: "routing_ok (tr_system s)" "queues_ok (tr_system s)" using inv by (simp_all add: flight_inv_def)
  obtain sys' where "submit cmd (tr_system s) = Inr (ok, sys')" and sys': "routing_ok sys'" "queues_ok sys'"
      "ors_instrument_router sys' = ors_instrument_router (tr_system s)"
      "length (ors_worker_contexts sys') = workers_number s"
      "\<forall>j. pending sys' j = (if ok \<and> j = k then pending (tr_system s) j @ [cmd] else pending (tr_system s) j)"
    using submit_routed [OF ok Some] sub by auto
  then have "sys = sys'" using sub by simp
  moreover have "routed_to (tr_system s) cmd = k" using Some by (simp add: routed_to_def)
  ultimately show ?thesis using sys' inv Some unfolding flight_inv_def by (cases ok) auto
qed

lemma flight_shutdown:
  assumes inv: "flight_inv s" and k: "k < workers_number s"
    and push: "spsc_push (shutdown_command t) (queue_of s k) = Inr (ok, q)"
  shows "flight_inv (s\<lparr>tr_system := set_queue k q (tr_system s),
    tr_log := (if ok then tr_log s @ [(k, shutdown_command t)] else tr_log s)\<rparr>)"
proof -
  have q: "spsc_inv (queue_of s k)" using inv k by (simp add: flight_inv_def queues_ok_def)
  have "spsc_inv q \<and> spsc_items q = pending (tr_system s) k @ (if ok then [shutdown_command t] else [])"
    using spsc.put_ok [OF q, of "shutdown_command t"] spsc.put_full [OF q, of "shutdown_command t"] push q
    by (cases "spsc_room (queue_of s k)") (auto simp: pending_def)
  then show ?thesis using inv k
    by (cases ok) (auto simp: flight_inv_def routing_ok_set queues_ok_set shutdown_command_def)
qed

lemma flight_works:
  assumes inv: "flight_inv s" and k: "k < workers_number s" "\<not> tr_stopped s ! k"
    and turn: "worker_turn mv k s = Inr (popped, s')"
  shows "flight_inv s'"
  using inv k(1) turn
proof (cases rule: worker_turn_pops)
  case nothing
  then show ?thesis using inv by simp
next
  case (stops cmd q)
  have "no_shutdown (for_worker k (tr_done s))" using inv k by (simp add: flight_inv_def)
  then show ?thesis unfolding stops(5) using inv k stops(2-4)
    by (auto simp: flight_inv_def routing_ok_set queues_ok_set nth_list_update)
next
  case (performs cmd q c cmd' w books)
  then show ?thesis unfolding performs(6) using inv k performs(2-4)
    by (auto simp: flight_inv_def routing_ok_set queues_ok_set nth_list_update split: if_splits)
qed

lemma flight_start:
  assumes "0 < num_workers" "length (ors_worker_contexts sys) = num_workers"
    "\<forall>ctx \<in> set (ors_worker_contexts sys). fresh_queue queue_cap (wc_queue ctx)" "routing_ok sys"
  shows "flight_inv (start_trading sys w)"
  using assms by (auto simp: flight_inv_def start_trading_def queues_ok_def fresh_queue_def pending_def)

lemma flight_clock [simp]: "flight_inv (s\<lparr>tr_world := w\<rparr>) = flight_inv s"
  by (simp add: flight_inv_def)

lemma flight_step: "trading_step P mv s s' \<Longrightarrow> flight_inv s \<Longrightarrow> flight_inv s'"
  by (erule trading_stepE) (simp_all only: flight_submits flight_shutdown flight_clock, blast intro: flight_works)

lemma start_facts:
  assumes "distinct instruments" "instruments \<noteq> []" "0 < num_workers" "0 < queue_cap"
    "0 < ida_block_size (wd_ids w)" "ids_left (length instruments) (wd_ids w)"
    "build_order_routing_system_sized n instruments num_workers queue_cap reserve w = Inr (sys, w')"
  shows "flight_inv (start_trading sys w')" "books_reach w' (all_books (ors_worker_contexts sys))"
    "\<And>k. k < num_workers \<Longrightarrow> distinct (map ob_instrument (wc_orderbooks (ors_worker_contexts sys ! k)))"
    "length (ors_worker_contexts sys) = num_workers"
proof -
  have sys: "length (ors_worker_contexts sys) = num_workers" "books_reach w' (all_books (ors_worker_contexts sys))"
      "\<forall>ctx \<in> set (ors_worker_contexts sys). fresh_queue queue_cap (wc_queue ctx)"
      "\<forall>x. map_of (ors_instrument_router sys) x = first_worker num_workers 0 instruments x"
      "\<forall>k < num_workers. map ob_instrument (wc_orderbooks (ors_worker_contexts sys ! k)) = share num_workers k 0 instruments"
    using build_system [OF assms(2-6), of n reserve] assms(7) by auto
  show "flight_inv (start_trading sys w')"
    using flight_start [OF assms(3) sys(1,3)] routing_ok_shares(1) [OF assms(3) sys(1,4,5)] by simp
  show "books_reach w' (all_books (ors_worker_contexts sys))" "length (ors_worker_contexts sys) = num_workers" by (fact sys)+
  show "distinct (map ob_instrument (wc_orderbooks (ors_worker_contexts sys ! k)))" if "k < num_workers" for k
    using sys(5) that distinct_share [OF assms(1)] by simp
qed

lemma reach_flight: "trading_reach P mv s \<Longrightarrow> flight_inv s"
proof (induction rule: trading_reach.induct)
  case started
  then show ?case using start_facts(1) by blast
next
  case step
  then show ?case using flight_step by blast
qed

section \<open>The books in flight\<close>

definition worker_books :: "trading \<Rightarrow> orderbook list" where
  "worker_books s = concat (map (map snd) (tr_workers s))"

definition books_inv :: "trading \<Rightarrow> bool" where
  "books_inv s \<longleftrightarrow> books_reach (tr_world s) (worker_books s) \<and>
     (\<forall>k < workers_number s. keyed (tr_workers s ! k) \<and>
        dom (map_of (tr_workers s ! k)) = serves (ors_worker_contexts (tr_system s) ! k))"

lemma concat_split:
  assumes "k < length xs"
  shows "concat (map f xs) = concat (map f (take k xs)) @ f (xs ! k) @ concat (map f (drop (Suc k) xs))"
    "concat (map f (xs[k := x])) = concat (map f (take k xs)) @ f x @ concat (map f (drop (Suc k) xs))"
  using assms by (subst id_take_nth_drop [of k xs], simp_all add: upd_conv_take_nth_drop)

lemma serves_set_queue [simp]:
  "k < length (ors_worker_contexts sys) \<Longrightarrow>
     serves (ors_worker_contexts (set_queue k q sys) ! j) = serves (ors_worker_contexts sys ! j)"
  by (simp add: serves_def set_queue_at)

lemma turn_books:
  assumes flight: "flight_inv s" and inv: "books_inv s" and k: "k < workers_number s"
    and ok: "command_ok cmd (tr_world s, tr_workers s ! k)"
  shows "\<exists>c cmd' w books. process_command mv cmd (tr_world s, tr_workers s ! k) = Inr (c, cmd', w, books) \<and>
    books_inv (s\<lparr>tr_system := set_queue k q (tr_system s), tr_world := w, tr_workers := (tr_workers s)[k := books],
      tr_done := d\<rparr>)"
proof -
  let ?ws = "tr_workers s"
  have len: "k < length ?ws" using flight k by (simp add: flight_inv_def)
  have keyed: "keyed (?ws ! k)" using inv k by (simp add: books_inv_def)
  have "books_reach (tr_world s)
      (concat (map (map snd) (take k ?ws)) @ map snd (?ws ! k) @ concat (map (map snd) (drop (Suc k) ?ws)))"
    using inv concat_split(1) [OF len, of "map snd"] by (simp add: books_inv_def worker_books_def)
  from process_command_ok [OF keyed this ok, of mv] obtain c cmd' w books where
    p: "process_command mv cmd (tr_world s, ?ws ! k) = Inr (c, cmd', w, books)" "keyed books"
      "map fst books = map fst (?ws ! k)"
      "books_reach w (concat (map (map snd) (take k ?ws)) @ map snd books @ concat (map (map snd) (drop (Suc k) ?ws)))"
    by blast
  have "dom (map_of books) = dom (map_of (?ws ! k))" using p(3) by (metis dom_map_of_conv_image_fst image_set)
  then show ?thesis using p(1,2,4) inv k len concat_split(2) [OF len, of "map snd" books]
    by (auto simp: books_inv_def worker_books_def nth_list_update)
qed

lemma books_start:
  assumes "books_reach w (all_books (ors_worker_contexts sys))"
    "\<And>k. k < length (ors_worker_contexts sys) \<Longrightarrow> distinct (map ob_instrument (wc_orderbooks (ors_worker_contexts sys ! k)))"
  shows "books_inv (start_trading sys w)"
proof -
  have "map snd (new_worker ctx) = wc_orderbooks ctx" if "ctx \<in> set (ors_worker_contexts sys)" for ctx
    using new_worker_distinct [of ctx] assms(2) that by (auto simp: in_set_conv_nth o_def)
  then have "worker_books (start_trading sys w) = all_books (ors_worker_contexts sys)"
    by (simp add: worker_books_def start_trading_def all_books_def o_def cong: map_cong)
  then show ?thesis using assms(1) new_worker_books(1) new_worker_serves
    by (simp add: books_inv_def start_trading_def)
qed

lemma submit_books:
  assumes "flight_inv s" "submit cmd (tr_system s) = Inr (ok, sys)"
  shows "length (ors_worker_contexts sys) = workers_number s"
    "serves (ors_worker_contexts sys ! k) = serves (ors_worker_contexts (tr_system s) ! k)"
proof -
  have ok: "routing_ok (tr_system s)" "queues_ok (tr_system s)" using assms(1) by (simp_all add: flight_inv_def)
  have "length (ors_worker_contexts sys) = workers_number s \<and>
    serves (ors_worker_contexts sys ! k) = serves (ors_worker_contexts (tr_system s) ! k)"
  proof (cases "map_of (ors_instrument_router (tr_system s)) (ord_instrument (cmd_order cmd))")
    case None
    then show ?thesis using assms(2) by (simp add: submit_def)
  next
    case (Some j)
    then show ?thesis using submit_routed [OF ok Some] assms(2) by (auto simp: serves_def)
  qed
  then show "length (ors_worker_contexts sys) = workers_number s"
    "serves (ors_worker_contexts sys ! k) = serves (ors_worker_contexts (tr_system s) ! k)" by simp_all
qed

lemma books_works:
  assumes flight: "flight_inv s" and inv: "books_inv s" and k: "k < workers_number s"
    and turn: "worker_turn mv k s = Inr (popped, s')"
    and ok: "case popped of None \<Rightarrow> True | Some cmd \<Rightarrow> command_ok cmd (tr_world s, tr_workers s ! k)"
  shows "books_inv s'"
  using flight k turn
proof (cases rule: worker_turn_pops)
  case nothing
  then show ?thesis using inv by simp
next
  case (stops cmd q)
  then show ?thesis using inv k by (simp add: books_inv_def worker_books_def)
next
  case (performs cmd q c cmd' w books)
  have "command_ok cmd (tr_world s, tr_workers s ! k)" using ok performs(1) by simp
  from turn_books [OF flight inv k this, where mv = mv and q = q and d = "tr_done s @ [(k, cmd)]"] performs(5,6) show ?thesis by simp
qed

lemma books_step:
  assumes "trading_step command_ok mv s s'" "flight_inv s" "books_inv s"
  shows "books_inv s'"
  using assms(1)
proof (cases rule: trading_step.cases)
  case (submits cmd ok sys)
  then show ?thesis using submit_books [OF assms(2)] assms(3) by (simp add: books_inv_def worker_books_def)
next
  case (submits_shutdown k t ok q)
  then show ?thesis using assms(3) by (simp add: books_inv_def worker_books_def)
next
  case (works k popped)
  then show ?thesis using books_works [OF assms(2,3)] by blast
next
  case (clock_ticks c)
  then show ?thesis using assms(3) by (simp add: books_inv_def worker_books_def time_goes_on)
qed

lemma reach_books: "trading_reach command_ok mv s \<Longrightarrow> books_inv s"
proof (induction rule: trading_reach.induct)
  case (started instruments num_workers queue_cap w n reserve sys w')
  note start = start_facts [OF started]
  then show ?case using books_start [OF start(2)] by simp
next
  case (step s s')
  then show ?case using books_step reach_flight by blast
qed

section \<open>The order of the commands of an instrument\<close>

text \<open>The commands about an instrument, whichever worker they went to.\<close>

definition about :: "instrument \<Rightarrow> order_command list \<Rightarrow> order_command list" where
  "about x = filter (\<lambda>cmd. cmd_type cmd \<noteq> SHUTDOWN \<and> ord_instrument (cmd_order cmd) = x)"

lemma about_append [simp]: "about x (xs @ ys) = about x xs @ about x ys"
  by (simp add: about_def)

lemma about_for_worker:
  assumes "\<forall>(j, cmd) \<in> set cmds. ord_instrument (cmd_order cmd) = x \<longrightarrow> j = k \<or> cmd_type cmd = SHUTDOWN"
  shows "about x (map snd cmds) = about x (for_worker k cmds)"
  using assms by (induction cmds) (auto simp: about_def for_worker_def)

lemma done_logged:
  assumes "flight_inv s" "(k, cmd) \<in> set (tr_done s)"
  shows "(k, cmd) \<in> set (tr_log s)"
proof -
  have "k < workers_number s" using assms by (auto simp: flight_inv_def)
  then have "set (for_worker k (tr_done s)) \<subseteq> set (for_worker k (tr_log s))"
    using assms(1) by (simp add: flight_inv_def)
  moreover have "cmd \<in> set (for_worker k (tr_done s))" using assms(2) by (force simp: for_worker_def)
  ultimately show ?thesis by (auto simp: for_worker_def)
qed

lemma flight_stopped:
  assumes "flight_inv s" "k < workers_number s" "tr_stopped s ! k"
  shows "\<exists>cmds stop. for_worker k (tr_done s) = cmds @ [stop] \<and> no_shutdown cmds \<and> cmd_type stop = SHUTDOWN"
proof -
  have "if tr_stopped s ! k
      then \<exists>cmds stop. for_worker k (tr_done s) = cmds @ [stop] \<and> no_shutdown cmds \<and> cmd_type stop = SHUTDOWN
      else no_shutdown (for_worker k (tr_done s))"
    using assms(1,2) unfolding flight_inv_def by blast
  then show ?thesis using assms(3) by simp
qed

section \<open>A small system\<close>

text \<open>An order for QQQ has been submitted; and the first worker has been shut down.\<close>

abbreviation ex_start :: trading where
  "ex_start \<equiv> start_trading (fst ex_system) (snd ex_system)"

lemma ex_start_reach: "trading_reach P mv ex_start"
proof -
  let ?is = "[''SPY'', ''QQQ'', ''IWM''] :: instrument list"
  obtain sys w' where b: "build_order_routing_system_sized 4 ?is 2 4 100 ex_world = Inr (sys, w')"
    using build_system [OF ex_instruments_ok, of 4 100] by blast
  have "fst ex_system = sys" "snd ex_system = w'" using b by (simp_all only: ex_system_def sum.case fst_conv snd_conv)
  moreover have "distinct ?is" by simp
  then have "trading_reach P mv (start_trading sys w')" using started [OF _ ex_instruments_ok b] by blast
  ultimately show ?thesis by (simp only:)
qed

lemma ex_submitted:
  obtains s where "trading_reach P mv s" "tr_log s = [(1, ex_cmd)]" "tr_done s = []" "pending (tr_system s) 1 = [ex_cmd]"
    "tr_workers s = map new_worker (ors_worker_contexts (fst ex_system))" "tr_world s = snd ex_system"
    "tr_stopped s = [False, False]" "workers_number s = 2"
    "map_of (ors_instrument_router (tr_system s)) ''QQQ'' = Some 1"
proof -
  have r: "map_of (ors_instrument_router (fst ex_system)) (ord_instrument (cmd_order ex_cmd)) = Some 1"
    by (simp add: ex_system_router ex_cmd_def order_command_of_def client_order_def)
  obtain sys where sys: "submit ex_cmd (fst ex_system) = Inr (True, sys)" "pending sys 1 = [ex_cmd]"
      "length (ors_worker_contexts sys) = 2" "ors_instrument_router sys = ors_instrument_router (fst ex_system)"
    using submit_routed [OF ex_system_ok(1) ex_system_queues(1) r] ex_system_queues(2,3) ex_system_ok(2) by auto
  let ?s = "ex_start\<lparr>tr_system := sys, tr_log := [(1, ex_cmd)]\<rparr>"
  have "routed_to (fst ex_system) ex_cmd = 1" using r by (simp add: routed_to_def)
  then have "trading_step P mv ex_start ?s"
    using trading_step.submits [of ex_cmd ex_start True sys P mv] sys(1) by (simp add: start_trading_def)
  then have "trading_reach P mv ?s" using ex_start_reach trading_reach.step by blast
  then show ?thesis using that [of ?s] sys(2-4) ex_system_ok(2) ex_system_router
    by (simp add: start_trading_def numeral_2_eq_2)
qed

lemma ex_shut:
  obtains s t where "trading_reach (\<lambda>_ _. True) mv s" "tr_stopped s = [True, False]" "tr_log s = [(0, shutdown_command t)]"
    "tr_done s = [(0, shutdown_command t)]" "workers_number s = 2"
proof -
  let ?q = "queue_of ex_start 0" and ?c = "shutdown_command 0"
  have k: "0 < workers_number ex_start" using ex_system_ok(2) by (simp add: start_trading_def)
  have q: "spsc_inv ?q" "spsc_room ?q = 3" "spsc_items ?q = []"
    using ex_system_queues(1-3) ex_system_ok(2) by (simp_all add: start_trading_def pending_def queues_ok_def)
  then obtain q1 where q1: "spsc_push ?c ?q = Inr (True, q1)" "spsc_inv q1" "spsc_items q1 = [?c]"
    using spsc.put_ok [OF q(1), of ?c] by auto
  let ?s1 = "ex_start\<lparr>tr_system := set_queue 0 q1 (fst ex_system), tr_log := [(0, ?c)]\<rparr>"
  have "trading_step (\<lambda>_ _. True) mv ex_start ?s1"
    using trading_step.submits_shutdown [OF k q1(1), of "\<lambda>_ _. True" mv] by (simp add: start_trading_def)
  then have r1: "trading_reach (\<lambda>_ _. True) mv ?s1" using ex_start_reach trading_reach.step by blast
  obtain q2 where q2: "spsc_pop (moved_command mv) q1 = Inr (Some ?c, q2)" using spsc.get_ok [OF q1(2,3)] by blast
  let ?s2 = "?s1\<lparr>tr_system := set_queue 0 q2 (tr_system ?s1), tr_stopped := [True, False], tr_done := [(0, ?c)]\<rparr>"
  have len: "length (ors_worker_contexts (fst ex_system)) = 2" by (rule ex_system_ok(2))
  have turn: "worker_turn mv 0 ?s1 = Inr (Some ?c, ?s2)"
    using q2 len by (simp add: worker_turn_defs set_queue_at shutdown_command_def start_trading_def numeral_2_eq_2 del: nth_map)
  have "trading_step (\<lambda>_ _. True) mv ?s1 ?s2" using trading_step.works [OF _ _ turn] len
    by (simp add: start_trading_def numeral_2_eq_2)
  then have "trading_reach (\<lambda>_ _. True) mv ?s2" using r1 trading_reach.step by blast
  then show ?thesis using that [of ?s2 0] len by (simp add: start_trading_def)
qed

section \<open>Properties\<close>

text \<open>
  C3: however the producer and the workers take turns, the commands of an instrument are performed in
  the order in which they were submitted, each once and none left out: those performed, followed by
  those that are in the queue of the instrument's worker, are those that were accepted.
\<close>

theorem commands_in_order:
  assumes "trading_reach P mv s" "map_of (ors_instrument_router (tr_system s)) x = Some k"
  shows "about x (map snd (tr_log s)) = about x (map snd (tr_done s)) @ about x (pending (tr_system s) k)"
proof -
  have inv: "flight_inv s" by (rule reach_flight [OF assms(1)])
  have k: "k < workers_number s" using inv assms(2) by (auto simp: flight_inv_def routing_ok_def)
  have routed: "j = k \<or> cmd_type cmd = SHUTDOWN"
    if "(j, cmd) \<in> set (tr_log s)" "ord_instrument (cmd_order cmd) = x" for j cmd
    using inv assms(2) that by (auto simp: flight_inv_def)
  have "about x (map snd (tr_log s)) = about x (for_worker k (tr_log s))"
    using routed by (intro about_for_worker) blast
  moreover have "about x (map snd (tr_done s)) = about x (for_worker k (tr_done s))"
    using routed done_logged [OF inv] by (intro about_for_worker) blast
  moreover have "for_worker k (tr_log s) = for_worker k (tr_done s) @ pending (tr_system s) k"
    using inv k by (simp add: flight_inv_def)
  ultimately show ?thesis by simp
qed

theorem commands_in_order_witness:
  "\<exists>s. trading_reach command_ok (\<lambda>x. x) s \<and> about ''QQQ'' (map snd (tr_log s)) = about ''QQQ'' (pending (tr_system s) 1) \<and>
     tr_log s = [(1, ex_cmd)]"
proof -
  obtain s where s: "trading_reach command_ok (\<lambda>x. x) s" "tr_log s = [(1, ex_cmd)]" "tr_done s = []"
      "map_of (ors_instrument_router (tr_system s)) ''QQQ'' = Some 1"
    by (rule ex_submitted)
  from commands_in_order [OF s(1,4)] s show ?thesis by (auto simp: about_def)
qed

text \<open>
  C15: a worker that has stopped has performed exactly the commands that were accepted into its queue
  before the first SHUTDOWN, in their order; what was accepted afterwards is still in the queue.
\<close>

theorem stopped_worker_done:
  assumes "trading_reach P mv s" "k < workers_number s" "tr_stopped s ! k"
  shows "\<exists>cmds stop. for_worker k (tr_done s) = cmds @ [stop] \<and> cmd_type stop = SHUTDOWN \<and>
    cmds = takeWhile (\<lambda>cmd. cmd_type cmd \<noteq> SHUTDOWN) (for_worker k (tr_log s)) \<and>
    for_worker k (tr_log s) = cmds @ stop # pending (tr_system s) k"
proof -
  have inv: "flight_inv s" by (rule reach_flight [OF assms(1)])
  obtain cmds stop where d: "for_worker k (tr_done s) = cmds @ [stop]" "no_shutdown cmds" "cmd_type stop = SHUTDOWN"
    using flight_stopped [OF inv assms(2,3)] by blast
  have l: "for_worker k (tr_log s) = cmds @ stop # pending (tr_system s) k"
    using inv assms(2) d(1) by (simp add: flight_inv_def)
  have "takeWhile (\<lambda>cmd. cmd_type cmd \<noteq> SHUTDOWN) (for_worker k (tr_log s)) = cmds"
    using d(2,3) unfolding l by (subst takeWhile_append2) (auto simp: no_shutdown_def)
  then show ?thesis using d l by auto
qed

theorem stopped_worker_done_witness:
  "\<exists>s t. trading_reach (\<lambda>_ _. True) (\<lambda>x. x) s \<and> tr_stopped s = [True, False] \<and>
     for_worker 0 (tr_log s) = [] @ shutdown_command t # pending (tr_system s) 0"
proof -
  obtain s t where s: "trading_reach (\<lambda>_ _. True) (\<lambda>x. x) s" "tr_stopped s = [True, False]"
      "tr_log s = [(0, shutdown_command t)]" "tr_done s = [(0, shutdown_command t)]" "workers_number s = 2"
    by (rule ex_shut)
  from stopped_worker_done [OF s(1), of 0] s(2-5)
  have "for_worker 0 (tr_log s) = [] @ shutdown_command t # pending (tr_system s) 0" by auto
  then show ?thesis using s(1,2) by blast
qed

text \<open>
  C4: as long as the books are only asked for what they are prepared for, every reachable state of the
  system is consistent: each worker has one book for every instrument that it serves and for no other,
  and every book of every worker is consistent and has its ids to itself.
\<close>

theorem system_consistent:
  assumes "trading_reach command_ok mv s" "k < workers_number s"
  shows "keyed (tr_workers s ! k) \<and>
    fst ` set (tr_workers s ! k) = serves (ors_worker_contexts (tr_system s) ! k) \<and>
    (\<forall>(x, ob) \<in> set (tr_workers s ! k). ob_instrument ob = x \<and> book_inv ob \<and> ids_ok (tr_world s) ob) \<and>
    group_inv (tr_world s) (worker_books s)"
proof -
  have inv: "books_inv s" "flight_inv s" using reach_books [OF assms(1)] reach_flight [OF assms(1)] by simp_all
  then have keyed: "keyed (tr_workers s ! k)" and k: "k < length (tr_workers s)"
    and dom: "dom (map_of (tr_workers s ! k)) = serves (ors_worker_contexts (tr_system s) ! k)"
    using assms(2) by (simp_all add: books_inv_def flight_inv_def)
  have group: "group_inv (tr_world s) (worker_books s)" using inv(1) books_reach_inv by (simp add: books_inv_def)
  have "ob \<in> set (worker_books s)" if "(x, ob) \<in> set (tr_workers s ! k)" for x ob
    using that k by (force simp: worker_books_def)
  then show ?thesis using keyed dom group
    by (auto simp: keyed_def group_inv_def state_inv_def dom_map_of_conv_image_fst)
qed

theorem system_consistent_witness:
  "keyed (tr_workers ex_start ! 1) \<and>
   fst ` set (tr_workers ex_start ! 1) = serves (ors_worker_contexts (tr_system ex_start) ! 1) \<and>
   group_inv (tr_world ex_start) (worker_books ex_start)"
proof -
  have "1 < workers_number ex_start" using ex_system_ok(2) by (simp add: start_trading_def)
  from system_consistent [OF ex_start_reach this] show ?thesis by blast
qed

text \<open>
  C16: the system makes progress: a worker that has not stopped and has a command in its queue takes the
  oldest one out and performs it, without a fault, when its books are prepared for it.
\<close>

theorem worker_progress:
  assumes "trading_reach command_ok mv s" "k < workers_number s" "\<not> tr_stopped s ! k"
    "pending (tr_system s) k = cmd # cmds" "command_ok cmd (tr_world s, tr_workers s ! k)"
  shows "\<exists>s'. trading_step command_ok mv s s' \<and> tr_done s' = tr_done s @ [(k, cmd)] \<and>
    pending (tr_system s') k = cmds \<and> tr_stopped s' ! k = (cmd_type cmd = SHUTDOWN)"
proof -
  have inv: "books_inv s" "flight_inv s" using reach_books [OF assms(1)] reach_flight [OF assms(1)] by simp_all
  have q: "spsc_inv (queue_of s k)" using inv(2) assms(2) by (simp add: flight_inv_def queues_ok_def)
  obtain q' where q': "spsc_pop (moved_command mv) (queue_of s k) = Inr (Some cmd, q')" "spsc_items q' = cmds"
    using spsc.get_ok [OF q] assms(4) by (auto simp: pending_def)
  obtain c cmd' w books where "process_command mv cmd (tr_world s, tr_workers s ! k) = Inr (c, cmd', w, books)"
    using turn_books [OF inv(2,1) assms(2,5)] by blast
  then obtain s' where s': "worker_turn mv k s = Inr (Some cmd, s')" "tr_done s' = tr_done s @ [(k, cmd)]"
      "pending (tr_system s') k = cmds" "tr_stopped s' ! k = (cmd_type cmd = SHUTDOWN)"
    using q' assms(2,3) inv(2) by (cases "cmd_type cmd = SHUTDOWN") (simp_all add: worker_turn_defs flight_inv_def)
  have "trading_step command_ok mv s s'" using works [OF assms(2,3) s'(1)] assms(5) by simp
  then show ?thesis using s' by blast
qed

theorem worker_progress_witness:
  "\<exists>s s'. trading_reach command_ok (\<lambda>x. x) s \<and> trading_step command_ok (\<lambda>x. x) s s' \<and> tr_done s' = [(1, ex_cmd)]"
proof -
  obtain s where s: "trading_reach command_ok (\<lambda>x. x) s" "tr_done s = []" "pending (tr_system s) 1 = [ex_cmd]"
      "tr_workers s = map new_worker (ors_worker_contexts (fst ex_system))" "tr_world s = snd ex_system"
      "tr_stopped s = [False, False]" "workers_number s = 2"
    by (rule ex_submitted)
  have "command_ok ex_cmd (snd ex_system, map new_worker (ors_worker_contexts (fst ex_system)) ! 1)" by code_simp
  then show ?thesis using worker_progress [OF s(1), of 1 ex_cmd "[]"] s by auto
qed

end
