(* ===== verification/Price_Level_V1.thy ===== *)
theory Price_Level_V1
  imports Price_Level_V2
begin

text \<open>
  \<open>include/price_level.h\<close>: the first version of the price level, a linked list of orders with a hash map
  from ids to iterators. It has the class name and the interface of the second version, and is not
  part of the build any more. As a queue with removal it is another interpretation of \<open>order_queue\<close>.
  Popping a filled order leaves its id in the map, so that it is not an interpretation of
  \<open>matching_queue\<close>: the two versions are compared up to the ids that were popped (\<open>versions_match\<close>), and
  answer alike until such an id is removed.
\<close>

section \<open>State and operations\<close>

text \<open>
  A \<open>std::list\<close> is the sequence of its nodes. A node has an identity, which is what an iterator to it
  is; identities are numbers, never used twice, so that an iterator to an erased node is in no list.
\<close>

record list_level =
  ll_price :: price
  ll_orders_list :: "(nat \<times> order_ptr) list"
  ll_next_node :: nat
  ll_orders_map :: "(order_id \<times> nat) list"

definition new_list_level :: "price \<Rightarrow> list_level" where
  "new_list_level price = \<lparr>ll_price = price, ll_orders_list = [], ll_next_node = 0, ll_orders_map = []\<rparr>"

definition list_add_order :: "order_store \<Rightarrow> order_ptr \<Rightarrow> list_level \<Rightarrow> list_level result" where
  "list_add_order h p lv =
     rbind (deref h p) (\<lambda>ord.
       let it = ll_next_node lv
       in Inr (lv\<lparr>ll_orders_list := ll_orders_list lv @ [(it, p)], ll_next_node := Suc it,
                  ll_orders_map := AList.update (ord_id ord) it (ll_orders_map lv)\<rparr>))"

text \<open>\<open>std::list::erase\<close>, undefined for an iterator that is not in the list.\<close>

definition list_erase :: "nat \<Rightarrow> (nat \<times> order_ptr) list \<Rightarrow> (nat \<times> order_ptr) list result" where
  "list_erase it nodes =
     rbind (assert_or (map_of nodes it \<noteq> None) EndIterator) (\<lambda>_. Inr (AList.delete it nodes))"

definition list_remove_order :: "order_id \<Rightarrow> list_level \<Rightarrow> (bool \<times> list_level) result" where
  "list_remove_order order_id lv =
     (case map_of (ll_orders_map lv) order_id of
        None \<Rightarrow> Inr (False, lv)
      | Some it \<Rightarrow>
          rbind (list_erase it (ll_orders_list lv)) (\<lambda>nodes.
            Inr (True, lv\<lparr>ll_orders_list := nodes, ll_orders_map := AList.delete order_id (ll_orders_map lv)\<rparr>)))"

definition list_remove_order_on_it :: "order_store \<Rightarrow> nat \<Rightarrow> list_level \<Rightarrow> list_level result" where
  "list_remove_order_on_it h it lv =
     (case map_of (ll_orders_list lv) it of
        None \<Rightarrow> Inl (Undefined EndIterator)
      | Some p \<Rightarrow>
          rbind (deref h p) (\<lambda>ord.
          rbind (list_erase it (ll_orders_list lv)) (\<lambda>nodes.
            Inr (lv\<lparr>ll_orders_list := nodes, ll_orders_map := AList.delete (ord_id ord) (ll_orders_map lv)\<rparr>))))"

definition list_size :: "list_level \<Rightarrow> nat" where
  "list_size lv = length (ll_orders_list lv)"

definition list_empty :: "list_level \<Rightarrow> bool" where
  "list_empty lv \<longleftrightarrow> ll_orders_list lv = []"

fun list_sum_available :: "order_store \<Rightarrow> (nat \<times> order_ptr) list \<Rightarrow> quantity \<Rightarrow> quantity result" where
  "list_sum_available h [] qty = Inr qty"
| "list_sum_available h ((_, p) # nodes) qty =
     rbind (deref h p) (\<lambda>ord. list_sum_available h nodes (qty + available ord))"

definition list_total_qty :: "order_store \<Rightarrow> list_level \<Rightarrow> quantity result" where
  "list_total_qty h lv = list_sum_available h (ll_orders_list lv) 0"

definition list_front :: "list_level \<Rightarrow> order_ptr result" where
  "list_front lv = (case ll_orders_list lv of [] \<Rightarrow> Inl (Undefined EndIterator) | (_, p) # _ \<Rightarrow> Inr p)"

text \<open>The id of the popped order stays in the map.\<close>

definition list_pop_front_order_if_filled :: "order_store \<Rightarrow> list_level \<Rightarrow> list_level result" where
  "list_pop_front_order_if_filled h lv =
     (if list_empty lv then Inr lv
      else
        rbind (list_front lv) (\<lambda>p.
        rbind (deref h p) (\<lambda>ord.
        if ord_status ord = FULLY_FILLED then Inr (lv\<lparr>ll_orders_list := tl (ll_orders_list lv)\<rparr>)
        else Inr lv)))"

section \<open>The invariant\<close>

definition list_live :: "list_level \<Rightarrow> order_ptr list" where
  "list_live lv = map snd (ll_orders_list lv)"

text \<open>The map holds exactly the nodes, each under its order's id.\<close>

definition list_inv :: "order_store \<Rightarrow> list_level \<Rightarrow> bool" where
  "list_inv h lv \<longleftrightarrow>
     distinct (map fst (ll_orders_list lv)) \<and> distinct (map fst (ll_orders_map lv)) \<and>
     (\<forall>it \<in> fst ` set (ll_orders_list lv). it < ll_next_node lv) \<and>
     allocated h (list_live lv) \<and> distinct (ids_of h (list_live lv)) \<and>
     (\<forall>k it. (k, it) \<in> set (ll_orders_map lv) \<longleftrightarrow>
        (\<exists>p ord. (it, p) \<in> set (ll_orders_list lv) \<and> h p = Some ord \<and> ord_id ord = k))"

lemma new_list_level_inv [simp]: "list_inv h (new_list_level p)" "list_live (new_list_level p) = []"
  by (simp_all add: list_inv_def list_live_def new_list_level_def allocated_def)

lemma list_index:
  "list_inv h lv \<Longrightarrow> (k, it) \<in> set (ll_orders_map lv) \<longleftrightarrow>
     (\<exists>p ord. (it, p) \<in> set (ll_orders_list lv) \<and> h p = Some ord \<and> ord_id ord = k)"
  unfolding list_inv_def by blast

lemma list_live_mem: "p \<in> set (list_live lv) \<longleftrightarrow> (\<exists>it. (it, p) \<in> set (ll_orders_list lv))"
  by (force simp: list_live_def)

lemma list_map_ids:
  assumes "list_inv h lv"
  shows "fst ` set (ll_orders_map lv) = set (ids_of h (list_live lv))"
proof (intro set_eqI iffI)
  fix k
  assume "k \<in> fst ` set (ll_orders_map lv)"
  then obtain it p ord where "(it, p) \<in> set (ll_orders_list lv)" "h p = Some ord" "ord_id ord = k"
    using assms unfolding list_inv_def by auto
  then show "k \<in> set (ids_of h (list_live lv))" using ids_of_mem list_live_mem by blast
next
  fix k
  assume "k \<in> set (ids_of h (list_live lv))"
  then obtain p where p: "p \<in> set (list_live lv)" "k = ord_id (the (h p))" by (auto simp: ids_of_def)
  moreover obtain ord where "h p = Some ord" using assms p(1) by (auto simp: list_inv_def allocated_def)
  moreover obtain it where "(it, p) \<in> set (ll_orders_list lv)" using p(1) list_live_mem by blast
  ultimately have "(k, it) \<in> set (ll_orders_map lv)" using assms by (auto simp: list_inv_def)
  then show "k \<in> fst ` set (ll_orders_map lv)" by force
qed

lemma list_same_ids:
  assumes "list_inv h lv" "same_ids h h' (list_live lv)"
  shows "list_inv h' lv"
proof -
  have al: "allocated h (list_live lv)" using assms(1) by (simp add: list_inv_def)
  have "(\<exists>ord. h' p = Some ord \<and> ord_id ord = k) \<longleftrightarrow> (\<exists>ord. h p = Some ord \<and> ord_id ord = k)"
    if "(it, p) \<in> set (ll_orders_list lv)" for it p k
  proof -
    have "p \<in> set (list_live lv)" using that list_live_mem by blast
    then show ?thesis using al assms(2) by (fastforce simp: allocated_def same_ids_def)
  qed
  then have "(\<exists>p ord. (it, p) \<in> set (ll_orders_list lv) \<and> h' p = Some ord \<and> ord_id ord = k) \<longleftrightarrow>
      (\<exists>p ord. (it, p) \<in> set (ll_orders_list lv) \<and> h p = Some ord \<and> ord_id ord = k)" for it k
    by blast
  then show ?thesis using assms(1) ids_of_same [OF al assms(2)] allocated_same [OF al assms(2)]
    by (simp add: list_inv_def)
qed

lemma list_add_law:
  assumes inv: "list_inv h lv" and p: "h p = Some ord" and new: "ord_id ord \<notin> set (ids_of h (list_live lv))"
  shows "\<exists>lv'. list_add_order h p lv = Inr lv' \<and> list_inv h lv' \<and> list_live lv' = list_live lv @ [p]"
proof -
  have fresh: "ord_id ord \<notin> fst ` set (ll_orders_map lv)" using new list_map_ids [OF inv] by simp
  let ?lv = "lv\<lparr>ll_orders_list := ll_orders_list lv @ [(ll_next_node lv, p)], ll_next_node := Suc (ll_next_node lv),
      ll_orders_map := ll_orders_map lv @ [(ord_id ord, ll_next_node lv)]\<rparr>"
  have "list_add_order h p lv = Inr ?lv" using p by (simp add: list_add_order_def update_fresh [OF fresh] Let_def)
  moreover have "list_inv h ?lv"
    using inv p new fresh by (auto simp: list_inv_def list_live_def allocated_def less_Suc_eq ids_of_def)
  ultimately show ?thesis by (simp add: list_live_def)
qed

text \<open>Erasing the node of an order takes the order out of the queue.\<close>

lemma list_erase_node:
  assumes inv: "list_inv h lv" and node: "(it, p) \<in> set (ll_orders_list lv)" and p: "h p = Some ord"
  shows "list_erase it (ll_orders_list lv) = Inr (AList.delete it (ll_orders_list lv))"
    "list_inv h (lv\<lparr>ll_orders_list := AList.delete it (ll_orders_list lv),
       ll_orders_map := AList.delete (ord_id ord) (ll_orders_map lv)\<rparr>)"
    "map snd (AList.delete it (ll_orders_list lv)) = remove1 p (list_live lv)"
    "map_of (ll_orders_map lv) (ord_id ord) = Some it"
    "map_of (ll_orders_list lv) it = Some p"
proof -
  let ?ns = "ll_orders_list lv" and ?m = "ll_orders_map lv"
  have d: "distinct (map fst ?ns)" "distinct (map fst ?m)" using inv by (simp_all add: list_inv_def)
  have m: "(ord_id ord, it) \<in> set ?m" using list_index [OF inv, of "ord_id ord" it] node p by blast
  then show "map_of ?m (ord_id ord) = Some it" using d(2) by simp
  show of_it: "map_of ?ns it = Some p" using d(1) node by simp
  then show "list_erase it ?ns = Inr (AList.delete it ?ns)" by (simp add: list_erase_def)
  obtain xs ys where ns: "?ns = xs @ (it, p) # ys" using split_list [OF node] by blast
  have out: "it \<notin> fst ` set xs" "it \<notin> fst ` set ys" using d(1) ns by auto
  have "filter (\<lambda>(k, _). it \<noteq> k) zs = zs" if "it \<notin> fst ` set zs" for zs :: "(nat \<times> order_ptr) list"
    using that by (intro filter_True) force
  then have del: "AList.delete it ?ns = xs @ ys" using out unfolding ns by (simp add: AList.delete_eq)
  have live: "list_live lv = map snd xs @ p # map snd ys" using ns by (simp add: list_live_def)
  have "distinct (ids_of h (list_live lv))" using inv by (simp add: list_inv_def)
  then have "p \<notin> set (map snd xs)" using live distinct_ids_of by fastforce
  then show "map snd (AList.delete it ?ns) = remove1 p (list_live lv)" using live del by (simp add: remove1_middle)
  have id_it: "k = ord_id ord \<longleftrightarrow> j = it" if "(k, j) \<in> set ?m" for k j
  proof
    assume "k = ord_id ord"
    then show "j = it" using eq_key_imp_eq_value [OF d(2)] that m by blast
  next
    assume j: "j = it"
    then have "(k, it) \<in> set ?m" using that by simp
    then obtain q o1 where "(it, q) \<in> set ?ns" "h q = Some o1" "ord_id o1 = k" using list_index [OF inv, of k it] by blast
    moreover from this(1) have "q = p" using eq_key_imp_eq_value [OF d(1)] node by blast
    ultimately show "k = ord_id ord" using p by simp
  qed
  have "(k, j) \<in> set (AList.delete (ord_id ord) ?m) \<longleftrightarrow>
      (\<exists>q o1. (j, q) \<in> set (xs @ ys) \<and> h q = Some o1 \<and> ord_id o1 = k)" for k j
  proof -
    have "(k, j) \<in> set (AList.delete (ord_id ord) ?m) \<longleftrightarrow> (k, j) \<in> set ?m \<and> j \<noteq> it"
      using id_it by (auto simp: AList.delete_eq)
    also have "\<dots> \<longleftrightarrow> (\<exists>q o1. (j, q) \<in> set ?ns \<and> j \<noteq> it \<and> h q = Some o1 \<and> ord_id o1 = k)"
      using list_index [OF inv, of k j] by blast
    also have "\<dots> \<longleftrightarrow> (\<exists>q o1. (j, q) \<in> set (xs @ ys) \<and> h q = Some o1 \<and> ord_id o1 = k)"
      using ns out by force
    finally show ?thesis .
  qed
  then show "list_inv h (lv\<lparr>ll_orders_list := AList.delete it ?ns, ll_orders_map := AList.delete (ord_id ord) ?m\<rparr>)"
    using inv ns d distinct_delete [OF d(2)] live unfolding del
    by (auto simp: list_inv_def list_live_def allocated_def)
qed

lemma list_remove_law:
  assumes inv: "list_inv h lv" and p: "p \<in> set (list_live lv)" "h p = Some ord"
  shows "\<exists>lv'. list_remove_order (ord_id ord) lv = Inr (True, lv') \<and> list_inv h lv' \<and> list_live lv' = remove1 p (list_live lv)"
proof -
  obtain it where it: "(it, p) \<in> set (ll_orders_list lv)" using p(1) list_live_mem by blast
  note erase = list_erase_node [OF inv it p(2)]
  then show ?thesis by (simp add: list_remove_order_def list_live_def)
qed

lemma list_remove_absent:
  "list_inv h lv \<Longrightarrow> k \<notin> set (ids_of h (list_live lv)) \<Longrightarrow> list_remove_order k lv = Inr (False, lv)"
  using list_map_ids [of h lv] map_of_None_iff [of "ll_orders_map lv" k] by (simp add: list_remove_order_def)

lemma list_front_law: "list_inv h lv \<Longrightarrow> list_live lv \<noteq> [] \<Longrightarrow> list_front lv = Inr (hd (list_live lv))"
  by (cases "ll_orders_list lv") (auto simp: list_front_def list_live_def)

interpretation lv1: order_queue
  list_inv "\<lambda>_. True" list_live list_add_order list_remove_order list_front list_size
proof unfold_locales
  show "list_size l = length (list_live l)" for l by (simp add: list_size_def list_live_def)
qed (auto simp: list_same_ids list_add_law list_remove_law list_remove_absent list_front_law, auto simp: list_inv_def)

text \<open>\<open>remove_order_on_it\<close>, given the iterator that the map holds, is \<open>remove_order\<close>.\<close>

lemma remove_on_it_removes:
  assumes inv: "list_inv h lv" and p: "p \<in> set (list_live lv)" "h p = Some ord"
    and it: "map_of (ll_orders_map lv) (ord_id ord) = Some it"
  shows "\<exists>lv'. list_remove_order_on_it h it lv = Inr lv' \<and> list_remove_order (ord_id ord) lv = Inr (True, lv')"
proof -
  obtain j where j: "(j, p) \<in> set (ll_orders_list lv)" using p(1) list_live_mem by blast
  note erase = list_erase_node [OF inv j p(2)]
  then show ?thesis using it p(2) by (simp add: list_remove_order_on_it_def list_remove_order_def)
qed

lemma list_sum_live:
  "allocated h (map snd nodes) \<Longrightarrow> list_sum_available h nodes qty = Inr (qty + waiting h (map snd nodes))"
  by (induction nodes arbitrary: qty) (auto simp: waiting_def allocated_def add.assoc)

lemma list_total_qty_live: "list_inv h lv \<Longrightarrow> list_total_qty h lv = Inr (waiting h (list_live lv))"
  using list_sum_live [of h "ll_orders_list lv" 0] by (simp add: list_inv_def list_total_qty_def list_live_def)

section \<open>The two versions\<close>

text \<open>
  Sequences of operations that both versions have: additions, removals by id, pops of the front order
  if it is filled, and, between them, fills of the orders that the pointers lead to. A step answers
  whether it removed an order, and \<open>True\<close> where the code has no answer.
\<close>

datatype level_op = AddOrder order_ptr | RemoveOrder order_id | PopFront | OrdersBecome order_store

fun list_step :: "level_op \<Rightarrow> order_store \<times> list_level \<Rightarrow> (bool \<times> order_store \<times> list_level) result" where
  "list_step (AddOrder p) (h, l) = rbind (list_add_order h p l) (\<lambda>l'. Inr (True, h, l'))"
| "list_step (RemoveOrder k) (h, l) = rbind (list_remove_order k l) (\<lambda>(b, l'). Inr (b, h, l'))"
| "list_step PopFront (h, l) = rbind (list_pop_front_order_if_filled h l) (\<lambda>l'. Inr (True, h, l'))"
| "list_step (OrdersBecome h') (h, l) = Inr (True, h', l)"

fun level_step :: "level_op \<Rightarrow> order_store \<times> price_level \<Rightarrow> (bool \<times> order_store \<times> price_level) result" where
  "level_step (AddOrder p) (h, l) = rbind (level_add_order h p l) (\<lambda>l'. Inr (True, h, l'))"
| "level_step (RemoveOrder k) (h, l) = rbind (level_remove_order k l) (\<lambda>(b, l'). Inr (b, h, l'))"
| "level_step PopFront (h, l) = rbind (pop_front_order_if_filled h l) (\<lambda>l'. Inr (True, h, l'))"
| "level_step (OrdersBecome h') (h, l) = Inr (True, h', l)"

fun queue_step :: "level_op \<Rightarrow> order_store \<times> order_ptr list \<Rightarrow> bool \<times> order_store \<times> order_ptr list" where
  "queue_step (AddOrder p) (h, ps) = (True, h, ps @ [p])"
| "queue_step (RemoveOrder k) (h, ps) =
     (k \<in> set (ids_of h ps), h, filter (\<lambda>p. ord_id (the (h p)) \<noteq> k) ps)"
| "queue_step PopFront (h, ps) =
     (True, h, case ps of [] \<Rightarrow> []
               | p # qs \<Rightarrow> if ord_status (the (h p)) = FULLY_FILLED then qs else p # qs)"
| "queue_step (OrdersBecome h') (h, ps) = (True, h', ps)"

fun run_level :: "(level_op \<Rightarrow> 's \<Rightarrow> (bool \<times> 's) result) \<Rightarrow> level_op list \<Rightarrow> 's \<Rightarrow> (bool list \<times> 's) result" where
  "run_level step [] s = Inr ([], s)"
| "run_level step (op # ops) s =
     rbind (step op s) (\<lambda>(b, s1). rbind (run_level step ops s1) (\<lambda>(bs, s2). Inr (b # bs, s2)))"

text \<open>
  Which sequences are compared. \<open>gone\<close> holds the ids that were popped and not added since: the first
  version still has them in its map, and they are not removed. \<open>used\<close> says that an order has been
  added: a level that has been used and is empty gets no further order. A queued id is not added
  again, and the orders keep their ids.
\<close>

fun gone_after :: "level_op \<Rightarrow> order_store \<times> order_ptr list \<Rightarrow> order_id set \<Rightarrow> order_id set" where
  "gone_after (AddOrder p) (h, ps) gone = gone - {ord_id (the (h p))}"
| "gone_after PopFront (h, p # ps) gone =
     (if ord_status (the (h p)) = FULLY_FILLED then insert (ord_id (the (h p))) gone else gone)"
| "gone_after _ _ gone = gone"

fun level_op_ok :: "level_op \<Rightarrow> bool \<Rightarrow> order_id set \<Rightarrow> order_store \<times> order_ptr list \<Rightarrow> bool" where
  "level_op_ok (AddOrder p) used gone (h, ps) \<longleftrightarrow>
     (used \<longrightarrow> ps \<noteq> []) \<and> h p \<noteq> None \<and> ord_id (the (h p)) \<notin> set (ids_of h ps)"
| "level_op_ok (RemoveOrder k) used gone (h, ps) \<longleftrightarrow> k \<notin> gone"
| "level_op_ok PopFront used gone (h, ps) \<longleftrightarrow> True"
| "level_op_ok (OrdersBecome h') used gone (h, ps) \<longleftrightarrow> same_ids h h' ps"

definition is_add :: "level_op \<Rightarrow> bool" where
  "is_add op \<longleftrightarrow> (case op of AddOrder p \<Rightarrow> True | _ \<Rightarrow> False)"

fun level_ops_ok :: "level_op list \<Rightarrow> bool \<Rightarrow> order_id set \<Rightarrow> order_store \<times> order_ptr list \<Rightarrow> bool" where
  "level_ops_ok [] used gone q \<longleftrightarrow> True"
| "level_ops_ok (op # ops) used gone q \<longleftrightarrow> level_op_ok op used gone q \<and>
     level_ops_ok ops (used \<or> is_add op) (gone_after op q gone) (snd (queue_step op q))"

text \<open>The first version's level without the map entries of the popped ids.\<close>

definition forget :: "order_id set \<Rightarrow> list_level \<Rightarrow> list_level" where
  "forget gone l = l\<lparr>ll_orders_map := AList.restrict (- gone) (ll_orders_map l)\<rparr>"

lemma forget_simps [simp]:
  "ll_orders_list (forget gone l) = ll_orders_list l" "ll_next_node (forget gone l) = ll_next_node l"
  "ll_orders_map (forget gone l) = AList.restrict (- gone) (ll_orders_map l)"
  "list_live (forget gone l) = list_live l" "list_size (forget gone l) = list_size l"
  "list_front (forget gone l) = list_front l" "list_total_qty h (forget gone l) = list_total_qty h l"
  by (simp_all add: forget_def list_live_def list_size_def list_front_def list_total_qty_def)

definition list_inv_up_to :: "order_store \<Rightarrow> order_id set \<Rightarrow> list_level \<Rightarrow> bool" where
  "list_inv_up_to h gone l \<longleftrightarrow> distinct (map fst (ll_orders_map l)) \<and> list_inv h (forget gone l)"

lemma list_inv_cong:
  assumes "list_inv h l" "ll_orders_list l' = ll_orders_list l" "ll_next_node l' = ll_next_node l"
    "distinct (map fst (ll_orders_map l'))" "map_of (ll_orders_map l') = map_of (ll_orders_map l)"
  shows "list_inv h l'"
proof -
  have "(k, it) \<in> set (ll_orders_map l') \<longleftrightarrow> (k, it) \<in> set (ll_orders_map l)" for k it
    using assms(1,4,5) by (metis list_inv_def map_of_eq_Some_iff)
  then show ?thesis using assms(1-4) by (simp add: list_inv_def list_live_def)
qed

lemma up_to_add:
  assumes inv: "list_inv_up_to h gone l" and p: "h p = Some ord" and new: "ord_id ord \<notin> set (ids_of h (list_live l))"
  shows "\<exists>l'. list_add_order h p l = Inr l' \<and> list_inv_up_to h (gone - {ord_id ord}) l' \<and> list_live l' = list_live l @ [p]"
proof -
  let ?k = "ord_id ord" and ?it = "ll_next_node l"
  let ?l = "l\<lparr>ll_orders_list := ll_orders_list l @ [(?it, p)], ll_next_node := Suc ?it,
      ll_orders_map := AList.update ?k ?it (ll_orders_map l)\<rparr>"
  have d: "distinct (map fst (ll_orders_map l))" using inv by (simp add: list_inv_up_to_def)
  obtain l1 where l1: "list_add_order h p (forget gone l) = Inr l1" "list_inv h l1"
    using list_add_law [of h "forget gone l" p ord] inv p new by (auto simp: list_inv_up_to_def)
  have eq: "ll_orders_list l1 = ll_orders_list ?l" "ll_next_node l1 = ll_next_node ?l"
      "ll_orders_map l1 = AList.update ?k ?it (AList.restrict (- gone) (ll_orders_map l))"
    using l1(1) p by (auto simp: list_add_order_def Let_def)
  have "list_inv h (forget (gone - {?k}) ?l)"
  proof (rule list_inv_cong [OF l1(2)])
    show "map_of (ll_orders_map (forget (gone - {?k}) ?l)) = map_of (ll_orders_map l1)"
      by (auto simp: eq(3) restr_conv' update_conv' restrict_map_def fun_eq_iff)
  qed (use eq d in \<open>simp_all add: distinct_restr distinct_update\<close>)
  then show ?thesis using p d by (simp add: list_add_order_def Let_def list_inv_up_to_def distinct_update list_live_def)
qed

lemma restrict_delete: "AList.restrict A (AList.delete k m) = AList.delete k (AList.restrict A m)"
  unfolding AList.restrict_eq AList.delete_eq filter_filter by (rule filter_cong) auto

lemma up_to_remove:
  assumes inv: "list_inv_up_to h gone l" and k: "k \<notin> gone"
  shows "\<exists>l'. list_remove_order k l = Inr (k \<in> set (ids_of h (list_live l)), l') \<and> list_inv_up_to h gone l' \<and>
    list_live l' = filter (\<lambda>p. ord_id (the (h p)) \<noteq> k) (list_live l)"
proof -
  have inv': "list_inv h (forget gone l)" using inv by (simp add: list_inv_up_to_def)
  have look: "map_of (AList.restrict (- gone) (ll_orders_map l)) k = map_of (ll_orders_map l) k"
    using k by (simp add: restr_conv')
  show ?thesis
  proof (cases "k \<in> set (ids_of h (list_live l))")
    case True
    then obtain p ord where p: "p \<in> set (list_live l)" "h p = Some ord" "ord_id ord = k"
      using lv1.live_allocated [OF inv'] by (fastforce simp: ids_of_def)
    obtain it where it: "(it, p) \<in> set (ll_orders_list l)" using p(1) list_live_mem by blast
    note e = list_erase_node [OF inv' _ p(2), of it, simplified, OF it]
    let ?l = "l\<lparr>ll_orders_list := AList.delete it (ll_orders_list l), ll_orders_map := AList.delete k (ll_orders_map l)\<rparr>"
    have "list_remove_order k l = Inr (True, ?l)" using e look p(3) by (simp add: list_remove_order_def)
    moreover have "list_inv h (forget gone ?l)"
      using e(2) k by (simp add: p(3) forget_def restrict_delete)
    moreover have "distinct (map fst (ll_orders_map ?l))" using inv by (simp add: list_inv_up_to_def distinct_delete)
    ultimately show ?thesis
      using True e(3) remove1_id [OF lv1.inv_distinct [OF inv'] , of p] p by (simp add: list_inv_up_to_def list_live_def)
  next
    case False
    then have "filter (\<lambda>p. ord_id (the (h p)) \<noteq> k) (list_live l) = list_live l"
      by (intro filter_True) (auto simp: ids_of_def)
    moreover have "map_of (ll_orders_map l) k = None"
      using look False list_map_ids [OF inv'] by (metis forget_simps(3,4) map_of_eq_None_iff)
    ultimately show ?thesis using False inv by (simp add: list_remove_order_def)
  qed
qed

lemma up_to_pop:
  assumes inv: "list_inv_up_to h gone l"
  shows "\<exists>l'. list_pop_front_order_if_filled h l = Inr l' \<and>
    list_inv_up_to h (gone_after PopFront (h, list_live l) gone) l' \<and>
    (True, h, list_live l') = queue_step PopFront (h, list_live l)"
proof (cases "ll_orders_list l")
  case Nil
  then show ?thesis using inv by (simp add: list_pop_front_order_if_filled_def list_empty_def list_live_def)
next
  case (Cons n ns)
  obtain it p where n: "n = (it, p)" by (cases n)
  have inv': "list_inv h (forget gone l)" using inv by (simp add: list_inv_up_to_def)
  obtain ord where p: "h p = Some ord" using lv1.live_allocated [OF inv', of p] Cons n by (auto simp: list_live_def)
  note e = list_erase_node [OF inv' _ p, of it]
  have "it \<notin> fst ` set ns" using inv' Cons n by (auto simp: list_inv_def)
  then have del: "AList.delete it (ll_orders_list l) = ns"
    using Cons n by (simp add: AList.delete_eq) (rule filter_True, force)
  let ?l = "l\<lparr>ll_orders_list := ns\<rparr>"
  have "list_inv h (forget (insert (ord_id ord) gone) ?l)"
    using e(2) Cons n del by (simp add: forget_def AList.restrict_eq AList.delete_eq filter_filter case_prod_unfold conj_commute eq_commute)
  then show ?thesis using Cons n p inv
    by (auto simp: list_pop_front_order_if_filled_def list_empty_def list_front_def list_live_def list_inv_up_to_def)
qed

text \<open>The relation that both versions keep, step by step.\<close>

definition versions_match :: "order_store \<Rightarrow> bool \<Rightarrow> order_id set \<Rightarrow> order_ptr list \<Rightarrow> list_level \<Rightarrow> price_level \<Rightarrow> bool" where
  "versions_match h used gone ps l1 l2 \<longleftrightarrow>
     list_inv_up_to h gone l1 \<and> level_inv h l2 \<and> list_live l1 = ps \<and> live l2 = ps \<and> (\<not> used \<longrightarrow> level_ready l2 \<and> ps = [])"

lemma versions_step:
  assumes m: "versions_match h used gone ps l1 l2" and ok: "level_op_ok op used gone (h, ps)"
    and q: "queue_step op (h, ps) = (b, h', qs)"
  shows "\<exists>k1 k2. list_step op (h, l1) = Inr (b, h', k1) \<and> level_step op (h, l2) = Inr (b, h', k2) \<and>
    versions_match h' (used \<or> is_add op) (gone_after op (h, ps) gone) qs k1 k2"
proof -
  have inv: "list_inv_up_to h gone l1" "level_inv h l2" and l: "list_live l1 = ps" "live l2 = ps"
    using m by (simp_all add: versions_match_def)
  show ?thesis
  proof (cases op)
    case (AddOrder p)
    then obtain ord where p: "h p = Some ord" "ord_id ord \<notin> set (ids_of h ps)" using ok by auto
    have "level_ready l2" using m ok AddOrder level_nonempty_ready [OF inv(2)] l(2) by (cases used) (auto simp: versions_match_def)
    then show ?thesis using up_to_add [OF inv(1) p(1)] level_add_law [OF inv(2) _ p(1)] p l q AddOrder
      by (auto simp: versions_match_def is_add_def)
  next
    case (RemoveOrder k)
    then show ?thesis
      using up_to_remove [OF inv(1), of k] lv2.remove_any [OF inv(2), of k] lv2.remove_absent [OF inv(2), of k] m ok l q
      by (auto simp: versions_match_def is_add_def)
  next
    case PopFront
    then show ?thesis
      using up_to_pop [OF inv(1)] lv2.pop_total [OF inv(2)] lv2.pop_empty [OF inv(2)] m l q
      by (auto simp: versions_match_def is_add_def)
  next
    case (OrdersBecome h1)
    then show ?thesis using m ok q lv2.inv_same_ids list_same_ids
      by (auto simp: versions_match_def is_add_def list_inv_up_to_def)
  qed
qed

lemma versions_run:
  assumes "versions_match h used gone ps l1 l2" "level_ops_ok ops used gone (h, ps)"
  shows "\<exists>bs h' qs k1 k2 used' gone'. run_level list_step ops (h, l1) = Inr (bs, h', k1) \<and>
    run_level level_step ops (h, l2) = Inr (bs, h', k2) \<and>
    run_level (\<lambda>op q. Inr (queue_step op q)) ops (h, ps) = Inr (bs, h', qs) \<and>
    versions_match h' used' gone' qs k1 k2"
  using assms
proof (induction ops arbitrary: h used gone ps l1 l2)
  case Nil
  then show ?case by auto
next
  case (Cons op ops)
  obtain b h1 qs where q: "queue_step op (h, ps) = (b, h1, qs)" by (cases "queue_step op (h, ps)")
  obtain k1 k2 where k: "list_step op (h, l1) = Inr (b, h1, k1)" "level_step op (h, l2) = Inr (b, h1, k2)"
      "versions_match h1 (used \<or> is_add op) (gone_after op (h, ps) gone) qs k1 k2"
    using versions_step [OF Cons.prems(1) _ q] Cons.prems(2) by auto
  show ?case using Cons.IH [OF k(3)] Cons.prems(2) k(1,2) q by fastforce
qed

text \<open>
  C26: the two versions of the price level agree, with each other and with a plain queue, on every
  sequence of additions, removals by id, pops of a filled front order and fills of the orders in
  between that \<open>level_ops_ok\<close> admits: no id is added while it is queued, none is removed after it was
  popped (unless it was added again), nothing is added to a level that has become empty, and the orders
  keep their ids. They give the same answers without a fault and end with the same orders in the same
  order, the same size, emptiness, front order and quantity.
\<close>

theorem versions_agree:
  assumes "level_ops_ok ops False {} (h, [])"
  shows "\<exists>bs h' ps l1 l2. run_level list_step ops (h, new_list_level price) = Inr (bs, h', l1) \<and>
    run_level level_step ops (h, new_price_level price) = Inr (bs, h', l2) \<and>
    run_level (\<lambda>op q. Inr (queue_step op q)) ops (h, []) = Inr (bs, h', ps) \<and>
    list_live l1 = ps \<and> live l2 = ps \<and> list_size l1 = level_size l2 \<and> list_empty l1 = level_empty l2 \<and>
    (ps \<noteq> [] \<longrightarrow> list_front l1 = Inr (hd ps) \<and> level_front l2 = Inr (hd ps)) \<and>
    list_total_qty h' l1 = Inr (waiting h' ps) \<and> total_qty h' l2 = Inr (waiting h' ps)"
proof -
  have "forget {} l = l" for l by (simp add: forget_def AList.restrict_eq)
  then have "versions_match h False {} [] (new_list_level price) (new_price_level price)"
    by (simp add: versions_match_def list_inv_up_to_def) (simp add: new_list_level_def)
  from versions_run [OF this assms] obtain bs h' ps l1 l2 used gone where
    run: "run_level list_step ops (h, new_list_level price) = Inr (bs, h', l1)"
      "run_level level_step ops (h, new_price_level price) = Inr (bs, h', l2)"
      "run_level (\<lambda>op q. Inr (queue_step op q)) ops (h, []) = Inr (bs, h', ps)"
    and m: "versions_match h' used gone ps l1 l2" by blast
  have inv: "list_inv h' (forget gone l1)" "level_inv h' l2" "list_live l1 = ps" "live l2 = ps"
    using m by (simp_all add: versions_match_def list_inv_up_to_def)
  have "list_empty l1 \<longleftrightarrow> ps = []" using inv(3) by (auto simp: list_empty_def list_live_def)
  then show ?thesis
    using run inv list_front_law [OF inv(1)] level_front_law [OF inv(2)] list_total_qty_live [OF inv(1)]
      total_qty_live [OF inv(2)] lv1.size_law [OF inv(1)] level_size_live [OF inv(2)] level_empty_live [OF inv(2)]
    by (intro exI [of _ bs] exI [of _ h'] exI [of _ ps] exI [of _ l1] exI [of _ l2]) simp
qed

text \<open>Two orders in the store, with ids 1 and 2; later the first is filled too.\<close>

definition ex_store :: order_store where
  "ex_store = [Slot 0 0 \<mapsto> (default_order 0)\<lparr>ord_id := 1, ord_quantity := 5\<rparr>,
               Slot 0 1 \<mapsto> (default_order 0)\<lparr>ord_id := 2, ord_quantity := 7, ord_status := FULLY_FILLED\<rparr>]"

definition ex_filled :: order_store where
  "ex_filled = ex_store(Slot 0 0 \<mapsto> (default_order 0)\<lparr>ord_id := 1, ord_quantity := 5, ord_quantity_filled := 5, ord_status := FULLY_FILLED\<rparr>)"

definition ex_level_ops :: "level_op list" where
  "ex_level_ops = [AddOrder (Slot 0 0), AddOrder (Slot 0 1), PopFront, OrdersBecome ex_filled, PopFront, RemoveOrder 3]"

theorem versions_agree_witness:
  "\<exists>l1 l2. run_level list_step ex_level_ops (ex_store, new_list_level 0) = Inr ([True, True, True, True, True, False], ex_filled, l1) \<and>
     run_level level_step ex_level_ops (ex_store, new_price_level 0) = Inr ([True, True, True, True, True, False], ex_filled, l2) \<and>
     list_live l1 = [Slot 0 1] \<and> live l2 = [Slot 0 1] \<and> list_front l1 = level_front l2"
proof -
  have "level_ops_ok ex_level_ops False {} (ex_store, [])"
    by (simp add: ex_level_ops_def ex_filled_def ex_store_def is_add_def same_ids_def)
  moreover have "run_level (\<lambda>op q. Inr (queue_step op q)) ex_level_ops (ex_store, []) =
      Inr ([True, True, True, True, True, False], ex_filled, [Slot 0 1])"
    by (simp add: ex_level_ops_def ex_filled_def ex_store_def default_order_def)
  ultimately show ?thesis using versions_agree [of ex_level_ops ex_store 0] by auto
qed

text \<open>
  The first version forgets to take a filled order that it pops out of its map: removing that id
  afterwards erases through an iterator to a node that is gone, where the second version answers that
  there is no such order.
\<close>

theorem popped_id_is_stale:
  assumes "list_inv h l1" "level_inv h l2" "list_live l1 = p # ps" "live l2 = p # ps" "h p = Some ord"
    "ord_status ord = FULLY_FILLED"
  shows "\<exists>k1 k2. list_pop_front_order_if_filled h l1 = Inr k1 \<and> pop_front_order_if_filled h l2 = Inr k2 \<and>
    list_live k1 = ps \<and> live k2 = ps \<and>
    list_remove_order (ord_id ord) k1 = Inl (Undefined EndIterator) \<and>
    level_remove_order (ord_id ord) k2 = Inr (False, k2)"
proof -
  obtain it ns where ns: "ll_orders_list l1 = (it, p) # ns" "map snd ns = ps"
    using assms(3) by (auto simp: list_live_def)
  let ?k1 = "l1\<lparr>ll_orders_list := ns\<rparr>"
  have pop1: "list_pop_front_order_if_filled h l1 = Inr ?k1"
    using ns(1) assms(5,6) by (simp add: list_pop_front_order_if_filled_def list_empty_def list_front_def)
  have "map_of (ll_orders_map l1) (ord_id ord) = Some it"
    using list_erase_node(4) [OF assms(1) _ assms(5)] ns(1) by simp
  moreover have "map_of ns it = None"
    using assms(1) ns(1) by (simp add: list_inv_def map_of_eq_None_iff)
  ultimately have stale: "list_remove_order (ord_id ord) ?k1 = Inl (Undefined EndIterator)"
    by (simp add: list_remove_order_def list_erase_def assert_or_def)
  obtain k2 where k2: "pop_front_order_if_filled h l2 = Inr k2" "level_inv h k2" "live k2 = ps"
    using lv2.pop_filled [OF assms(2,4-6)] by blast
  have "ord_id ord \<notin> set (ids_of h ps)" using lv2.inv_distinct [OF assms(2)] assms(4,5) by simp
  then have "level_remove_order (ord_id ord) k2 = Inr (False, k2)" using lv2.remove_absent k2 by simp
  then show ?thesis using pop1 stale k2 ns(2) by (intro exI [of _ ?k1] exI [of _ k2]) (simp add: list_live_def)
qed

theorem popped_id_is_stale_witness:
  "\<exists>k1 k2 l1. list_pop_front_order_if_filled ex_store l1 = Inr k1 \<and>
     list_remove_order 2 k1 = Inl (Undefined EndIterator) \<and> level_remove_order 2 k2 = Inr (False, k2)"
proof -
  let ?o = "(default_order 0)\<lparr>ord_id := 2, ord_quantity := 7, ord_status := FULLY_FILLED\<rparr>"
  have p: "ex_store (Slot 0 1) = Some ?o" "ord_status ?o = FULLY_FILLED" by (simp_all add: ex_store_def)
  obtain l1 where l1: "list_add_order ex_store (Slot 0 1) (new_list_level 0) = Inr l1" "list_inv ex_store l1" "list_live l1 = [Slot 0 1]"
    using lv1.add_law [of ex_store "new_list_level 0" "Slot 0 1" ?o] p(1) by auto
  obtain l2 where l2: "level_inv ex_store l2" "live l2 = [Slot 0 1]"
    using lv2.add_law [of ex_store "new_price_level 0" "Slot 0 1" ?o] p(1) by auto
  from popped_id_is_stale [OF l1(2) l2(1) l1(3) l2(2) p] show ?thesis by auto
qed

end
