(* ===== verification/Book_Table.thy ===== *)
theory Book_Table
  imports Book_Example Text_Output "HOL-Library.Signed_Division"
begin

text \<open>
  The table that \<open>orderbook.h\<close> prints of a book: \<open>price_to_string\<close>, \<open>get_default_header\<close>,
  \<open>row_to_string\<close> and the stream operator. The hash maps from headers to cells and to column widths
  are association lists. Prices are printed with two decimals, rounded to the nearest, as the standard
  library does for a fixed format; the table has the same width in every line.
\<close>

section \<open>Prices in a fixed format\<close>

text \<open>The absolute value of a finite double as a fraction.\<close>

definition dbl_ratio :: "double \<Rightarrow> int \<times> int" where
  "dbl_ratio d =
     (let e = dbl_exponent d; f = dbl_fraction d;
          m = (if e = 0 then f else 0x10000000000000 + f); x = max e 1
      in if m = 0 then (0, 1) else if 1075 \<le> x then (m * 2 ^ nat (x - 1075), 1) else (m, 2 ^ nat (1075 - x)))"

definition round_half_even :: "int \<Rightarrow> int \<Rightarrow> int" where
  "round_half_even a b =
     (let q = a div b; r = a mod b
      in if 2 * r < b \<or> 2 * r = b \<and> even q then q else q + 1)"

text \<open>The absolute value in units of the last decimal printed.\<close>

definition scaled_price :: "nat \<Rightarrow> double \<Rightarrow> int" where
  "scaled_price precision d = (case dbl_ratio d of (a, b) \<Rightarrow> round_half_even (a * 10 ^ precision) b)"

definition price_to_string :: "price \<Rightarrow> nat \<Rightarrow> string" where
  "price_to_string p precision =
     (if dbl_negative p then ''-'' else []) @
     (if is_nan p then ''nan''
      else if \<not> dbl_finite p then ''inf''
      else
        let n = scaled_price precision p; frac = decimal (nat (n mod 10 ^ precision))
        in decimal (nat (n div 10 ^ precision)) @
          (if precision = 0 then [] else ''.'' @ pad (precision - length frac) CHR ''0'' @ frac))"

section \<open>Rows\<close>

type_synonym row = "(string \<times> string) list"
type_synonym widths = "(string \<times> int) list"

definition get_default_header :: "string list \<Rightarrow> row" where
  "get_default_header headers = fold (\<lambda>h mp. AList.update h h mp) headers []"

text \<open>
  \<open>at\<close> throws \<open>std::out_of_range\<close> for a key that is missing, and the constructor of a string of spaces
  \<open>std::length_error\<close> for a negative length; neither happens in the table.
\<close>

definition map_at :: "('k \<times> 'v) list \<Rightarrow> 'k \<Rightarrow> 'v result" where
  "map_at m k = (case map_of m k of None \<Rightarrow> Inl (RuntimeError ''unordered_map::at'') | Some v \<Rightarrow> Inr v)"

definition spaces :: "int \<Rightarrow> string result" where
  "spaces n = (if n < 0 then Inl (RuntimeError ''basic_string'') else Inr (pad (nat n) CHR '' ''))"

text \<open>One cell with the bar behind it; the division of \<open>int\<close> truncates.\<close>

definition cell_to_string :: "row \<Rightarrow> widths \<Rightarrow> string \<Rightarrow> string result" where
  "cell_to_string row col_max_size h =
     rbind (map_at col_max_size h) (\<lambda>total_space.
     rbind (map_at row h) (\<lambda>cell.
     let num_empty_spaces = total_space - int (length cell);
         left_empty_space = num_empty_spaces sdiv 2 + 1;
         right_empty_space = num_empty_spaces - left_empty_space + 2 in
     rbind (spaces left_empty_space) (\<lambda>l.
     rbind (spaces right_empty_space) (\<lambda>r.
       Inr ((if h = ''Ask Price'' then ''|'' else []) @ l @ cell @ r @ ''|'')))))"

fun cells_to_string :: "string list \<Rightarrow> row \<Rightarrow> widths \<Rightarrow> string result" where
  "cells_to_string [] row col_max_size = Inr []"
| "cells_to_string (h # hs) row col_max_size =
     rbind (cell_to_string row col_max_size h) (\<lambda>s.
     rbind (cells_to_string hs row col_max_size) (\<lambda>t. Inr (s @ t)))"

definition row_to_string :: "string list \<Rightarrow> row \<Rightarrow> widths \<Rightarrow> string result" where
  "row_to_string header row col_max_size =
     rbind (cells_to_string header row col_max_size) (\<lambda>s. Inr (''|'' @ s))"

section \<open>The table\<close>

definition table_headers :: "string list" where
  "table_headers = [''Bid Orders'', ''Bid Qty'', ''Bid Price'', ''Ask Price'', ''Ask Qty'', ''Ask Orders'']"

definition bid_cells :: "order_store \<Rightarrow> side_levels \<Rightarrow> row \<Rightarrow> row result" where
  "bid_cells h bids row =
     (case bids of
        (bprice, blevel) # _ \<Rightarrow>
          rbind (total_qty h blevel) (\<lambda>qty.
            Inr (AList.update ''Bid Price'' (price_to_string bprice 2)
                  (AList.update ''Bid Qty'' (decimal (unat qty))
                    (AList.update ''Bid Orders'' (decimal (level_size blevel)) row))))
      | [] \<Rightarrow> Inr (AList.update ''Bid Price'' [] (AList.update ''Bid Qty'' [] (AList.update ''Bid Orders'' [] row))))"

definition ask_cells :: "order_store \<Rightarrow> side_levels \<Rightarrow> row \<Rightarrow> row result" where
  "ask_cells h asks row =
     (case asks of
        (aprice, alevel) # _ \<Rightarrow>
          rbind (total_qty h alevel) (\<lambda>qty.
            Inr (AList.update ''Ask Price'' (price_to_string aprice 2)
                  (AList.update ''Ask Qty'' (decimal (unat qty))
                    (AList.update ''Ask Orders'' (decimal (level_size alevel)) row))))
      | [] \<Rightarrow> Inr (AList.update ''Ask Price'' [] (AList.update ''Ask Qty'' [] (AList.update ''Ask Orders'' [] row))))"

text \<open>The loop over the headers that widens the columns for a row, and adds up the widths.\<close>

fun widen :: "string list \<Rightarrow> row \<Rightarrow> widths \<times> int \<Rightarrow> widths \<times> int" where
  "widen [] row acc = acc"
| "widen (h # hs) row (col_max_size, temp_total) =
     (let old = (case map_of col_max_size h of None \<Rightarrow> 0 | Some n \<Rightarrow> n);
          cell = (case map_of row h of None \<Rightarrow> [] | Some c \<Rightarrow> c);
          new = max old (int (length cell))
      in widen hs row (AList.update h new col_max_size, temp_total + new))"

text \<open>The loop over the rows; \<open>bids\<close> and \<open>asks\<close> are the levels from the two iterators on.\<close>

function table_rows ::
    "order_store \<Rightarrow> side_levels \<Rightarrow> side_levels \<Rightarrow> widths \<times> int \<times> row list \<Rightarrow> (widths \<times> int \<times> row list) result" where
  "table_rows h bids asks (sizes, width, rows) =
     (if bids = [] \<and> asks = [] then Inr (sizes, width, rows)
      else
        rbind (bid_cells h bids (get_default_header table_headers)) (\<lambda>row1.
        rbind (ask_cells h asks row1) (\<lambda>row.
        let (sizes', temp_total) = widen table_headers row (sizes, 0)
        in table_rows h (tl bids) (tl asks) (sizes', max width temp_total, rows @ [row]))))"
  by pat_completeness auto
termination
  by (relation "measure (\<lambda>(h, bids, asks, acc). length bids + length asks)") (auto simp: neq_Nil_conv)

declare table_rows.simps [simp del]

fun rows_to_strings :: "row list \<Rightarrow> widths \<Rightarrow> string list result" where
  "rows_to_strings [] sizes = Inr []"
| "rows_to_strings (mp # mps) sizes =
     rbind (row_to_string table_headers mp sizes) (\<lambda>s. rbind (rows_to_strings mps sizes) (\<lambda>ss. Inr (s # ss)))"

definition newline :: string where
  "newline = [CHR 0x0A]"

definition table_text :: "int \<Rightarrow> string list \<Rightarrow> string" where
  "table_text total_col_size printables =
     concat (map (\<lambda>i. printables ! i @ newline @
       (if i = 0 \<or> i = length printables - 1 then pad (nat (total_col_size + 20)) CHR ''-'' @ newline else []))
       [0..<length printables])"

definition book_to_string :: "orderbook \<Rightarrow> string result" where
  "book_to_string ob =
     (let sizes = fold (\<lambda>h mp. AList.update h (int (length h)) mp) table_headers [];
          width = sum_list (map (int \<circ> length) table_headers) in
      rbind (table_rows (store ob) (ob_bids ob) (ob_asks ob) (sizes, width, [get_default_header table_headers]))
        (\<lambda>(sizes', width', rows).
      rbind (rows_to_strings rows sizes') (\<lambda>printables.
        Inr (newline @ table_text width' printables))))"

section \<open>Prices are printed to the nearest\<close>

lemma round_half_even_near:
  assumes "0 < b"
  shows "\<bar>real_of_int (round_half_even a b) - real_of_int a / real_of_int b\<bar> \<le> 1 / 2"
proof -
  let ?q = "a div b" and ?r = "a mod b"
  have r: "0 \<le> ?r" "?r < b" using assms by simp_all
  have "real_of_int a = real_of_int (b * ?q + ?r)" by simp
  then have "real_of_int a = real_of_int b * real_of_int ?q + real_of_int ?r" by (simp only: of_int_add of_int_mult)
  then have a: "real_of_int a / real_of_int b = real_of_int ?q + real_of_int ?r / real_of_int b"
    using assms by (simp add: add_divide_distrib)
  show ?thesis
  proof (cases "2 * ?r < b \<or> 2 * ?r = b \<and> even ?q")
    case True
    then have "2 * real_of_int ?r \<le> real_of_int b" by linarith
    then have "real_of_int ?r / real_of_int b \<le> 1 / 2" using assms by (simp add: divide_le_eq)
    moreover have "0 \<le> real_of_int ?r / real_of_int b" using r assms by simp
    ultimately show ?thesis using True a by (simp add: round_half_even_def Let_def)
  next
    case False
    then have "real_of_int b \<le> 2 * real_of_int ?r" by linarith
    then have "1 / 2 \<le> real_of_int ?r / real_of_int b" using assms by (simp add: le_divide_eq)
    moreover have "real_of_int ?r \<le> real_of_int b" using r(2) by linarith
    then have "real_of_int ?r / real_of_int b \<le> 1" using assms by (intro divide_le_eq_1_pos [THEN iffD2]) simp_all
    moreover have "round_half_even a b = ?q + 1" using False by (auto simp: round_half_even_def Let_def)
    ultimately show ?thesis using a by simp
  qed
qed

lemma product_ratio: "x * y = z \<Longrightarrow> y \<noteq> 0 \<Longrightarrow> z \<noteq> 0 \<Longrightarrow> x / z = 1 / (y :: real)"
  by (auto simp: field_simps)

lemma regroup_quotient: "w = m * x / y \<Longrightarrow> x / y = z \<Longrightarrow> w = m * (z :: real)"
  by (metis times_divide_eq_right)

lemma dbl_ratio_value:
  assumes "dbl_ratio d = (a, b)"
  shows "0 < b" "real_of_int a / real_of_int b = \<bar>dbl_value d\<bar>"
proof -
  let ?m = "nat (dbl_magnitude d)" and ?e = "dbl_exponent d" and ?f = "dbl_fraction d"
  have pos: "0 \<le> dbl_magnitude d" by (simp add: dbl_magnitude_def)
  have f: "0x10000000000000 + ?f \<noteq> 0" by (simp add: dbl_fraction_def add_nonneg_eq_0_iff)
  have e: "int (?m div 2 ^ 52) = ?e" "int (?m mod 2 ^ 52) = ?f" "0 \<le> ?e"
    using pos by (simp_all add: dbl_exponent_def dbl_fraction_def zdiv_int zmod_int)
  have "real (mag_value ?m) = (if ?e = 0 then real_of_int ?f else real_of_int (0x10000000000000 + ?f) * 2 ^ nat (?e - 1))"
  proof (cases "?e = 0")
    case True
    then have "?m div 2 ^ 52 = 0" using e(1) by linarith
    then have "real (mag_value ?m) = real (?m mod 2 ^ 52)" by (simp add: mag_value_def)
    also have "\<dots> = real_of_int (int (?m mod 2 ^ 52))" by simp
    finally show ?thesis using True e(2) by simp
  next
    case False
    then have n: "?m div 2 ^ 52 \<noteq> 0" using e(1) by linarith
    have "nat (?e - 1) = ?m div 2 ^ 52 - 1" using e(1) by linarith
    moreover have "real_of_int (0x10000000000000 + ?f) = real (2 ^ 52 + ?m mod 2 ^ 52)"
      using arg_cong [OF e(2), of real_of_int] by simp
    ultimately show ?thesis using n False by (simp add: mag_value_def)
  qed
  moreover have "\<bar>dbl_value d\<bar> = real (mag_value ?m) / 2 ^ 1074" by (simp add: dbl_value_def abs_mult)
  ultimately have v: "\<bar>dbl_value d\<bar> = (if ?e = 0 then real_of_int ?f else real_of_int (0x10000000000000 + ?f) * 2 ^ nat (?e - 1)) / 2 ^ 1074"
    by simp
  have normal: "\<bar>dbl_value d\<bar> = real_of_int (0x10000000000000 + ?f) * 2 ^ nat (?e - 1) / 2 ^ 1074" if "1 \<le> ?e"
  proof -
    have "?e \<noteq> 0" using that by linarith
    then show ?thesis using v by (simp only: if_False)
  qed
  consider (sub) "?e = 0" | (mid) "1 \<le> ?e" "?e < 1075" | (big) "1075 \<le> ?e" using e(3) by linarith
  then have "0 < b \<and> real_of_int a / real_of_int b = \<bar>dbl_value d\<bar>"
  proof cases
    case sub
    then have "a = ?f" "b = (if ?f = 0 then 1 else 2 ^ 1074)"
      using assms by (cases "?f = 0"; simp add: dbl_ratio_def Let_def)+
    then show ?thesis using v sub by (cases "?f = 0") simp_all
  next
    case mid
    then have ab: "a = 0x10000000000000 + ?f" "b = 2 ^ nat (1075 - ?e)" using assms f by (auto simp: dbl_ratio_def Let_def max_def)
    have "nat (?e - 1) + nat (1075 - ?e) = 1074" using mid by linarith
    then have "(2 :: real) ^ nat (?e - 1) * 2 ^ nat (1075 - ?e) = 2 ^ 1074" by (simp only: power_add [symmetric])
    then have "(2 :: real) ^ nat (?e - 1) / 2 ^ 1074 = 1 / 2 ^ nat (1075 - ?e)" by (intro product_ratio) simp_all
    from regroup_quotient [OF normal [OF mid(1)] this] have "\<bar>dbl_value d\<bar> = real_of_int a * (1 / 2 ^ nat (1075 - ?e))"
      by (simp only: ab)
    then show ?thesis by (simp add: ab)
  next
    case big
    then have ab: "a = (0x10000000000000 + ?f) * 2 ^ nat (?e - 1075)" "b = 1"
      using assms f by (auto simp: dbl_ratio_def Let_def max_def)
    have "nat (?e - 1) = nat (?e - 1075) + 1074" using big by linarith
    then have "(2 :: real) ^ nat (?e - 1) / 2 ^ 1074 = 2 ^ nat (?e - 1075)" by (simp only: power_add) simp
    from regroup_quotient [OF normal this]
    have "\<bar>dbl_value d\<bar> = real_of_int (0x10000000000000 + ?f) * 2 ^ nat (?e - 1075)" using big by linarith
    then show ?thesis by (simp add: ab)
  qed
  then show "0 < b" "real_of_int a / real_of_int b = \<bar>dbl_value d\<bar>" by simp_all
qed

lemma scaled_price_near:
  "\<bar>real_of_int (scaled_price k d) / 10 ^ k - \<bar>dbl_value d\<bar>\<bar> \<le> 1 / (2 * 10 ^ k)"
proof -
  obtain a b where ab: "dbl_ratio d = (a, b)" by fastforce
  have b: "0 < b" "real_of_int a / real_of_int b = \<bar>dbl_value d\<bar>" using dbl_ratio_value [OF ab] by blast+
  let ?n = "real_of_int (scaled_price k d)"
  have "\<bar>?n - real_of_int (a * 10 ^ k) / real_of_int b\<bar> \<le> 1 / 2"
    using round_half_even_near [OF b(1), of "a * 10 ^ k"] ab by (simp add: scaled_price_def del: of_int_mult)
  moreover have "real_of_int (a * 10 ^ k) / real_of_int b = \<bar>dbl_value d\<bar> * 10 ^ k" by (simp flip: b(2))
  ultimately have "\<bar>?n - \<bar>dbl_value d\<bar> * 10 ^ k\<bar> / 10 ^ k \<le> (1 / 2) / 10 ^ k" by (intro divide_right_mono) simp_all
  moreover have "\<bar>?n - \<bar>dbl_value d\<bar> * 10 ^ k\<bar> / 10 ^ k = \<bar>(?n - \<bar>dbl_value d\<bar> * 10 ^ k) / 10 ^ k\<bar>" by simp
  moreover have "(?n - \<bar>dbl_value d\<bar> * 10 ^ k) / 10 ^ k = ?n / 10 ^ k - \<bar>dbl_value d\<bar>" by (simp add: diff_divide_distrib)
  ultimately show ?thesis by simp
qed

lemma scaled_price_nonneg: "0 \<le> scaled_price k d"
proof -
  obtain a b where ab: "dbl_ratio d = (a, b)" by fastforce
  have b: "0 < b" "real_of_int a / real_of_int b = \<bar>dbl_value d\<bar>" using dbl_ratio_value [OF ab] by blast+
  then have "0 \<le> real_of_int a" by (metis abs_ge_zero of_int_0_less_iff zero_le_divide_iff not_less order_less_imp_le)
  then have "0 \<le> a * 10 ^ k div b" using b(1) by (simp add: pos_imp_zdiv_nonneg_iff)
  then show ?thesis using ab by (simp add: scaled_price_def round_half_even_def Let_def)
qed

text \<open>Reading a number in fixed format: the digits without the point, scaled, with the sign.\<close>

definition fixed_value :: "nat \<Rightarrow> string \<Rightarrow> real" where
  "fixed_value k s =
     (if hd s = CHR ''-'' then - 1 else 1) *
     real (decimal_value (filter (\<lambda>c. c \<noteq> CHR ''.'' \<and> c \<noteq> CHR ''-'') s)) / 10 ^ k"

lemma price_to_string_value:
  assumes fin: "dbl_finite p" and k: "0 < k"
  shows "fixed_value k (price_to_string p k) =
    (if dbl_negative p then - 1 else 1) * (real_of_int (scaled_price k p) / 10 ^ k)"
proof -
  let ?n = "scaled_price k p"
  let ?q = "nat (?n div 10 ^ k)" and ?r = "nat (?n mod 10 ^ k)"
  let ?s = "decimal ?q @ ''.'' @ pad (k - length (decimal ?r)) CHR ''0'' @ decimal ?r"
  have printed: "price_to_string p k = (if dbl_negative p then ''-'' else []) @ ?s"
    using assms by (simp add: price_to_string_def Let_def)
  have "?r < 10 ^ k" by (simp add: nat_less_iff)
  then have len: "length (decimal ?r) \<le> k" using k by (rule length_decimal)
  have digits: "filter (\<lambda>c. c \<noteq> CHR ''.'' \<and> c \<noteq> CHR ''-'') (decimal n) = decimal n" for n
    by (rule filter_True) (use decimal_chars in blast)
  have zeros: "filter (\<lambda>c. c \<noteq> CHR ''.'' \<and> c \<noteq> CHR ''-'') (pad n CHR ''0'') = pad n CHR ''0''" for n
    by (rule filter_True) (simp split: if_splits)
  have "decimal_value (decimal ?q @ pad (k - length (decimal ?r)) CHR ''0'' @ decimal ?r) = ?q * 10 ^ k + ?r"
    using len by (simp add: decimal_value_append)
  moreover have "int (?q * 10 ^ k + ?r) = ?n"
    using scaled_price_nonneg [of k p] by (simp add: pos_imp_zdiv_nonneg_iff div_mult_mod_eq)
  ultimately have val: "real (decimal_value (decimal ?q @ pad (k - length (decimal ?r)) CHR ''0'' @ decimal ?r)) = real_of_int ?n"
    by (metis of_int_of_nat_eq)
  have "hd ?s \<noteq> CHR ''-''" using decimal_chars [of "hd (decimal ?q)" ?q] by (cases "decimal ?q") auto
  then show ?thesis unfolding fixed_value_def printed using val digits zeros by simp
qed

text \<open>
  C35: what \<open>price_to_string\<close> prints of a finite price, read back, is within half a unit of the last
  decimal of the price, for every precision of at least one digit: no price is printed one cent off,
  whatever its size or sign.
\<close>

theorem price_printed_nearest:
  assumes "dbl_finite p" "0 < precision"
  shows "\<bar>fixed_value precision (price_to_string p precision) - dbl_value p\<bar> \<le> 1 / (2 * 10 ^ precision)"
proof -
  let ?n = "real_of_int (scaled_price precision p) / 10 ^ precision"
  have "\<bar>(if dbl_negative p then - 1 else 1) * ?n - dbl_value p\<bar> = \<bar>?n - \<bar>dbl_value p\<bar>\<bar>"
    by (auto simp: dbl_value_def)
  then show ?thesis using price_to_string_value [OF assms] scaled_price_near [of precision p] by simp
qed

theorem price_printed_nearest_witness:
  "price_to_string d99 2 = ''99.00'' \<and> \<bar>fixed_value 2 (price_to_string d99 2) - dbl_value d99\<bar> \<le> 1 / 200"
proof
  show "price_to_string d99 2 = ''99.00''" by code_simp
  have "dbl_finite d99" by code_simp
  from price_printed_nearest [OF this, of 2]
  show "\<bar>fixed_value 2 (price_to_string d99 2) - dbl_value d99\<bar> \<le> 1 / 200" by simp
qed

end
