(* ===== verification/Book_Layout.thy ===== *)
theory Book_Layout
  imports Book_Table
begin

text \<open>
  What the printed table looks like. \<open>table_spec\<close> lays out any matrix of cells, six to a line, and
  knows nothing of hash maps, iterators or running totals; the stream operator of \<open>orderbook.h\<close>
  prints exactly the layout of the cells of the book, and all lines of a layout are equally long.
\<close>

section \<open>Layouts\<close>

definition centred :: "nat \<Rightarrow> string \<Rightarrow> string" where
  "centred w c =
     pad ((w - length c) div 2 + 1) CHR '' '' @ c @ pad (w - length c - (w - length c) div 2 + 1) CHR '' ''"

definition line_spec :: "nat list \<Rightarrow> string list \<Rightarrow> string" where
  "line_spec ws cs =
     ''|'' @ concat (map (\<lambda>j. (if j = 3 then ''|'' else []) @ centred (ws ! j) (cs ! j) @ ''|'') [0..<6])"

definition column_width :: "string list list \<Rightarrow> nat \<Rightarrow> nat" where
  "column_width cells j = fold (\<lambda>cs w. max w (length (cs ! j))) cells 0"

definition column_widths :: "string list list \<Rightarrow> nat list" where
  "column_widths cells = map (column_width cells) [0..<6]"

definition rule_spec :: "nat list \<Rightarrow> string" where
  "rule_spec ws = pad (sum_list ws + 20) CHR ''-''"

fun table_lines :: "nat list \<Rightarrow> string list list \<Rightarrow> string list" where
  "table_lines ws [] = []"
| "table_lines ws (cs # body) =
     line_spec ws cs # rule_spec ws # map (line_spec ws) body @ (if body = [] then [] else [rule_spec ws])"

definition text_of_lines :: "string list \<Rightarrow> string" where
  "text_of_lines ls = concat (map (\<lambda>l. l @ newline) ls)"

definition table_spec :: "string list list \<Rightarrow> string list" where
  "table_spec cells = table_lines (column_widths cells) cells"

text \<open>The cells of a book: how many orders wait at a level, how much in all, and at what price.\<close>

definition level_cells :: "order_store \<Rightarrow> side_levels \<Rightarrow> nat \<Rightarrow> string list" where
  "level_cells h ls i =
     (if i < length ls
      then [decimal (length (live (snd (ls ! i)))), decimal (unat (waiting h (live (snd (ls ! i))))),
            price_to_string (fst (ls ! i)) 2]
      else [[], [], []])"

definition body_cells :: "order_store \<Rightarrow> side_levels \<Rightarrow> side_levels \<Rightarrow> string list list" where
  "body_cells h bids asks =
     map (\<lambda>i. level_cells h bids i @ rev (level_cells h asks i)) [0..<max (length bids) (length asks)]"

definition book_cells :: "orderbook \<Rightarrow> string list list" where
  "book_cells ob = table_headers # body_cells (store ob) (ob_bids ob) (ob_asks ob)"

lemma length_centred: "length c \<le> w \<Longrightarrow> length (centred w c) = w + 2"
  by (simp add: centred_def)

lemma upt_6: "[0..<6] = [0, 1, 2, 3, 4, 5 :: nat]"
  by (simp add: upt_rec)

lemma column_widths_nth [simp]: "j < 6 \<Longrightarrow> column_widths cells ! j = column_width cells j"
  by (simp add: column_widths_def)

lemma length_line_spec:
  assumes "\<And>j. j < 6 \<Longrightarrow> length (cs ! j) \<le> column_width cells j"
  shows "length (line_spec (column_widths cells) cs) = sum_list (column_widths cells) + 20"
proof -
  have "length (centred (column_widths cells ! j) (cs ! j)) = column_width cells j + 2" if "j < 6" for j
    using that assms by (simp add: length_centred)
  note len = this [of 0] this [of 1] this [of 2] this [of 3] this [of 4] this [of 5]
  show ?thesis using len unfolding line_spec_def upt_6 by (simp add: column_widths_def upt_6)
qed

lemma column_width_snoc: "column_width (cells @ [cs]) j = max (column_width cells j) (length (cs ! j))"
  by (simp add: column_width_def)

lemma column_width_ge: "cs \<in> set cells \<Longrightarrow> length (cs ! j) \<le> column_width cells j"
  by (induction cells rule: rev_induct) (auto simp: column_width_snoc le_max_iff_disj)

lemma table_spec_aligned:
  assumes "l \<in> set (table_spec cells)"
  shows "length l = sum_list (column_widths cells) + 20"
proof -
  have "length (line_spec (column_widths cells) cs) = sum_list (column_widths cells) + 20" if "cs \<in> set cells" for cs
    using column_width_ge [OF that] by (intro length_line_spec) simp
  then show ?thesis using assms by (cases cells) (auto simp: table_spec_def rule_spec_def split: if_splits)
qed

lemma length_table_spec: "cells \<noteq> [] \<Longrightarrow> length (table_spec cells) = length cells + (if length cells = 1 then 1 else 2)"
  by (cases cells) (auto simp: table_spec_def)

section \<open>The lines joined\<close>

lemma table_text_lines:
  "table_text (int n) (p # ps) =
   text_of_lines (p # pad (n + 20) CHR ''-'' # ps @ (if ps = [] then [] else [pad (n + 20) CHR ''-'']))"
proof (cases ps rule: rev_cases)
  case Nil
  then show ?thesis by (simp add: table_text_def text_of_lines_def nat_add_distrib)
next
  case (snoc qs q)
  let ?rule = "pad (nat (int n + 20)) CHR ''-''"
  let ?f = "\<lambda>i. (p # ps) ! i @ newline @ (if i = 0 \<or> i = length (p # ps) - 1 then ?rule @ newline else [])"
  have "[0..<Suc (length qs)] = 0 # map Suc [0..<length qs]" by (simp add: map_Suc_upt upt_conv_Cons del: upt_Suc)
  moreover have "[0..<length (p # ps)] = [0..<Suc (length qs)] @ [Suc (length qs)]" using snoc by simp
  ultimately have idx: "[0..<length (p # ps)] = 0 # map Suc [0..<length qs] @ [Suc (length qs)]" by simp
  have mid: "map (?f \<circ> Suc) [0..<length qs] = map (\<lambda>l. l @ newline) qs"
    using snoc by (intro nth_equalityI) (auto simp: nth_append)
  have "table_text (int n) (p # ps) = concat (?f 0 # map (?f \<circ> Suc) [0..<length qs] @ [?f (Suc (length qs))])"
    unfolding table_text_def idx by simp
  also have "\<dots> = concat (?f 0 # map (\<lambda>l. l @ newline) qs @ [?f (Suc (length qs))])" by (simp only: mid)
  finally show ?thesis using snoc by (simp add: text_of_lines_def nat_add_distrib)
qed

section \<open>Rows as cells\<close>

definition text_at :: "row \<Rightarrow> string \<Rightarrow> string" where
  "text_at row h = (case map_of row h of None \<Rightarrow> [] | Some c \<Rightarrow> c)"

definition cells_of :: "row \<Rightarrow> string list" where
  "cells_of row = map (text_at row) table_headers"

definition full_row :: "row \<Rightarrow> bool" where
  "full_row row \<longleftrightarrow> (\<forall>h \<in> set table_headers. map_of row h \<noteq> None)"

lemma default_header_row: "full_row (get_default_header table_headers)" "cells_of (get_default_header table_headers) = table_headers"
  by code_simp+

lemma level_cells_three: "\<exists>a b c. level_cells h ls i = [a, b, c]"
  by (simp add: level_cells_def)

lemma level_cells_tl: "level_cells h (tl ls) i = level_cells h ls (Suc i)"
  by (cases ls) (simp_all add: level_cells_def)

lemma body_cells_step:
  assumes "\<not> (bids = [] \<and> asks = [])"
  shows "body_cells h bids asks =
    (level_cells h bids 0 @ rev (level_cells h asks 0)) # body_cells h (tl bids) (tl asks)"
proof -
  let ?n = "max (length (tl bids)) (length (tl asks))"
  have "max (length bids) (length asks) = Suc ?n" using assms by (cases bids; cases asks) auto
  then have "[0..<max (length bids) (length asks)] = 0 # map Suc [0..<?n]"
    by (simp add: map_Suc_upt upt_conv_Cons del: upt_Suc)
  then show ?thesis by (simp add: body_cells_def level_cells_tl comp_def)
qed

text \<open>The cells of both sides are written into a row that starts as a copy of the header.\<close>

definition levels_shown :: "order_store \<Rightarrow> side_levels \<Rightarrow> bool" where
  "levels_shown h ls \<longleftrightarrow>
     (\<forall>x \<in> set ls. total_qty h (snd x) = Inr (waiting h (live (snd x))) \<and> level_size (snd x) = length (live (snd x)))"

lemma levels_shown_tl: "levels_shown h ls \<Longrightarrow> levels_shown h (tl ls)"
  by (cases ls) (simp_all add: levels_shown_def)

lemma row_cells:
  assumes "levels_shown h bids" "levels_shown h asks"
  obtains row1 row where "bid_cells h bids (get_default_header table_headers) = Inr row1"
    "ask_cells h asks row1 = Inr row" "full_row row"
    "cells_of row = level_cells h bids 0 @ rev (level_cells h asks 0)"
proof -
  define b where "b = level_cells h bids 0"
  define a where "a = level_cells h asks 0"
  obtain b1 b2 b3 where b: "b = [b1, b2, b3]" using level_cells_three b_def by metis
  obtain a1 a2 a3 where a: "a = [a1, a2, a3]" using level_cells_three a_def by metis
  have bc: "bid_cells h bids r = Inr (AList.update ''Bid Price'' b3 (AList.update ''Bid Qty'' b2 (AList.update ''Bid Orders'' b1 r)))" for r
    using assms(1) b by (cases bids) (auto simp: b_def level_cells_def bid_cells_def levels_shown_def)
  have ac: "ask_cells h asks r = Inr (AList.update ''Ask Price'' a3 (AList.update ''Ask Qty'' a2 (AList.update ''Ask Orders'' a1 r)))" for r
    using assms(2) a by (cases asks) (auto simp: a_def level_cells_def ask_cells_def levels_shown_def)
  show ?thesis
    by (rule that [OF bc ac])
      (use a b in \<open>simp_all add: full_row_def cells_of_def text_at_def table_headers_def update_conv' a_def b_def\<close>)
qed

section \<open>Widths\<close>

definition width_at :: "row list \<Rightarrow> string \<Rightarrow> nat" where
  "width_at rows h = fold (\<lambda>r w. max w (length (text_at r h))) rows 0"

definition sizes_ok :: "row list \<Rightarrow> widths \<Rightarrow> bool" where
  "sizes_ok rows sizes \<longleftrightarrow> (\<forall>h \<in> set table_headers. map_of sizes h = Some (int (width_at rows h)))"

definition total_width :: "row list \<Rightarrow> nat" where
  "total_width rows = sum_list (map (width_at rows) table_headers)"

lemma width_at_snoc: "width_at (rows @ [r]) h = max (width_at rows h) (length (text_at r h))"
  by (simp add: width_at_def)

lemma width_at_ge: "r \<in> set rows \<Longrightarrow> length (text_at r h) \<le> width_at rows h"
  by (induction rows rule: rev_induct) (auto simp: width_at_snoc le_max_iff_disj)

lemma width_at_column:
  assumes "j < 6"
  shows "width_at rows (table_headers ! j) = column_width (map cells_of rows) j"
proof (induction rows rule: rev_induct)
  case Nil
  then show ?case by (simp add: width_at_def column_width_def)
next
  case (snoc r rows)
  have "j < length table_headers" using assms by (simp add: table_headers_def)
  then have "cells_of r ! j = text_at r (table_headers ! j)" by (simp add: cells_of_def)
  then show ?case using snoc by (simp add: width_at_snoc column_width_snoc)
qed

lemma widths_columns: "map (width_at rows) table_headers = column_widths (map cells_of rows)"
proof (rule nth_equalityI)
  show "length (map (width_at rows) table_headers) = length (column_widths (map cells_of rows))"
    by (simp add: table_headers_def column_widths_def)
  show "map (width_at rows) table_headers ! j = column_widths (map cells_of rows) ! j"
    if "j < length (map (width_at rows) table_headers)" for j
  proof -
    have "j < length table_headers" "j < 6" using that by (simp_all add: table_headers_def)
    then show ?thesis by (simp add: width_at_column)
  qed
qed

text \<open>The loop over the headers: each column is as wide as its widest cell so far.\<close>

lemma widen_columns:
  fixes row :: row
  assumes "distinct hs" "\<And>h. h \<in> set hs \<Longrightarrow> map_of s h = Some (f h)"
  defines "g \<equiv> \<lambda>h. max (f h) (int (length (text_at row h)))"
  shows "\<exists>s'. widen hs row (s, t) = (s', t + sum_list (map g hs)) \<and>
    (\<forall>h. map_of s' h = (if h \<in> set hs then Some (g h) else map_of s h))"
  using assms(1,2)
proof (induction hs arbitrary: s t)
  case Nil
  then show ?case by simp
next
  case (Cons h hs)
  let ?s = "AList.update h (g h) s"
  have step: "widen (h # hs) row (s, t) = widen hs row (?s, t + g h)"
    using Cons.prems by (simp add: text_at_def g_def Let_def)
  have other: "map_of ?s x = Some (f x)" if "x \<in> set hs" for x
    using Cons.prems that by (auto simp: update_conv')
  obtain s' where s': "widen hs row (?s, t + g h) = (s', t + g h + sum_list (map g hs))"
    "\<And>x. map_of s' x = (if x \<in> set hs then Some (g x) else map_of ?s x)"
    using Cons.IH [of ?s "t + g h"] Cons.prems(1) other by auto
  show ?case unfolding step using s' Cons.prems(1) by (auto simp: update_conv' add.assoc)
qed

lemma sum_list_int: "sum_list (map (\<lambda>h. int (f h)) hs) = int (sum_list (map f hs))"
  by (induction hs) simp_all

lemma widen_row:
  assumes "sizes_ok rows sizes"
  obtains sizes' where "widen table_headers row (sizes, 0) = (sizes', int (total_width (rows @ [row])))"
    "sizes_ok (rows @ [row]) sizes'"
proof -
  have d: "distinct table_headers" by code_simp
  have m: "max (int (width_at rows h)) (int (length (text_at row h))) = int (width_at (rows @ [row]) h)" for h
    by (simp add: width_at_snoc)
  have "h \<in> set table_headers \<Longrightarrow> map_of sizes h = Some (int (width_at rows h))" for h
    using assms by (simp add: sizes_ok_def)
  from widen_columns [OF d this, where row = row and t = 0] that
  show ?thesis by (auto simp: m sizes_ok_def total_width_def sum_list_int)
qed

lemma total_width_mono: "total_width rows \<le> total_width (rows @ [row])"
  unfolding total_width_def by (intro sum_list_mono) (simp add: width_at_snoc)

text \<open>The loop over the rows collects the cells of the levels and keeps the widths of the columns.\<close>

lemma table_rows_cells:
  assumes "levels_shown h bids" "levels_shown h asks" "sizes_ok rows sizes" "width = int (total_width rows)"
  shows "\<exists>sizes' rows'. table_rows h bids asks (sizes, width, rows) = Inr (sizes', int (total_width (rows @ rows')), rows @ rows') \<and>
    sizes_ok (rows @ rows') sizes' \<and> map cells_of rows' = body_cells h bids asks \<and> (\<forall>r \<in> set rows'. full_row r)"
  using assms
proof (induction "length bids + length asks" arbitrary: bids asks sizes width rows rule: less_induct)
  case less
  show ?case
  proof (cases "bids = [] \<and> asks = []")
    case True
    then show ?thesis using less.prems by (intro exI [of _ sizes] exI [of _ "[]"]) (simp add: table_rows.simps body_cells_def)
  next
    case False
    obtain row1 row where r: "bid_cells h bids (get_default_header table_headers) = Inr row1"
      "ask_cells h asks row1 = Inr row" "full_row row"
      "cells_of row = level_cells h bids 0 @ rev (level_cells h asks 0)"
      by (rule row_cells [OF less.prems(1,2)])
    obtain sizes1 where w: "widen table_headers row (sizes, 0) = (sizes1, int (total_width (rows @ [row])))"
      "sizes_ok (rows @ [row]) sizes1" by (rule widen_row [OF less.prems(3)])
    have step: "table_rows h bids asks (sizes, width, rows) =
      table_rows h (tl bids) (tl asks) (sizes1, int (total_width (rows @ [row])), rows @ [row])"
      unfolding table_rows.simps [of h bids asks sizes width rows] if_not_P [OF False]
      using r w(1) less.prems(4) total_width_mono [of rows row] by simp
    have shorter: "length (tl bids) + length (tl asks) < length bids + length asks"
      using False by (cases bids; cases asks) auto
    have "levels_shown h (tl bids)" "levels_shown h (tl asks)"
      using less.prems(1,2) by (simp_all add: levels_shown_tl)
    from less.hyps [OF shorter this w(2) refl] obtain sizes' rows' where
      t: "table_rows h (tl bids) (tl asks) (sizes1, int (total_width (rows @ [row])), rows @ [row]) =
        Inr (sizes', int (total_width (rows @ row # rows')), rows @ row # rows')"
      "sizes_ok (rows @ row # rows') sizes'" "map cells_of rows' = body_cells h (tl bids) (tl asks)"
      "\<forall>r \<in> set rows'. full_row r" by auto
    show ?thesis using t r(3,4) body_cells_step [OF False]
      by (intro exI [of _ sizes'] exI [of _ "row # rows'"]) (simp add: step)
  qed
qed

section \<open>Lines\<close>

lemma cell_to_string_centred:
  assumes "map_of sizes h = Some (int w)" "map_of row h = Some c" "length c \<le> w"
  shows "cell_to_string row sizes h = Inr ((if h = ''Ask Price'' then ''|'' else []) @ centred w c @ ''|'')"
proof -
  have n: "int w - int (length c) = int (w - length c)" using assms(3) by simp
  have half: "int (w - length c) sdiv 2 = int ((w - length c) div 2)"
    by (simp add: signed_divide_int_def zdiv_int sgn_if)
  have right: "int (w - length c) - (int ((w - length c) div 2) + 1) + 2 = int (w - length c - (w - length c) div 2 + 1)"
    by (simp add: of_nat_diff)
  have l: "spaces (int ((w - length c) div 2) + 1) = Inr (pad ((w - length c) div 2 + 1) CHR '' '')"
    by (simp add: spaces_def nat_add_distrib)
  have r: "spaces (int (w - length c - (w - length c) div 2 + 1)) = Inr (pad (w - length c - (w - length c) div 2 + 1) CHR '' '')"
    by (simp only: spaces_def nat_int) simp
  show ?thesis using assms(1,2)
    by (simp only: cell_to_string_def map_at_def option.case rbind_Inr Let_def n half right l r centred_def append_assoc)
qed

lemma cells_to_string_centred:
  assumes "\<And>h. h \<in> set hs \<Longrightarrow> map_of sizes h = Some (int (f h)) \<and> map_of row h \<noteq> None \<and> length (text_at row h) \<le> f h"
  shows "cells_to_string hs row sizes =
    Inr (concat (map (\<lambda>h. (if h = ''Ask Price'' then ''|'' else []) @ centred (f h) (text_at row h) @ ''|'') hs))"
  using assms
proof (induction hs)
  case Nil
  then show ?case by simp
next
  case (Cons h hs)
  obtain c where "map_of row h = Some c" using Cons.prems [of h] by auto
  then have "map_of row h = Some (text_at row h)" by (simp add: text_at_def)
  moreover have "map_of sizes h = Some (int (f h))" "length (text_at row h) \<le> f h" using Cons.prems by simp_all
  ultimately have "cell_to_string row sizes h =
    Inr ((if h = ''Ask Price'' then ''|'' else []) @ centred (f h) (text_at row h) @ ''|'')"
    by (intro cell_to_string_centred)
  then show ?case using Cons by simp
qed

lemma row_to_string_line:
  assumes "sizes_ok rows sizes" "full_row r" "r \<in> set rows"
  shows "row_to_string table_headers r sizes = Inr (line_spec (column_widths (map cells_of rows)) (cells_of r))"
proof -
  have "map_of sizes h = Some (int (width_at rows h)) \<and> map_of r h \<noteq> None \<and> length (text_at r h) \<le> width_at rows h"
    if "h \<in> set table_headers" for h
    using assms that width_at_ge [OF assms(3)] by (simp add: sizes_ok_def full_row_def)
  note line = cells_to_string_centred [OF this]
  show ?thesis
    by (simp add: row_to_string_def line line_spec_def widths_columns [symmetric] upt_6 cells_of_def)
      (simp add: table_headers_def)
qed

lemma rows_to_strings_lines:
  assumes "sizes_ok rows sizes" "\<And>r. r \<in> set rs \<Longrightarrow> full_row r" "set rs \<subseteq> set rows"
  shows "rows_to_strings rs sizes = Inr (map (line_spec (column_widths (map cells_of rows)) \<circ> cells_of) rs)"
  using assms(2,3)
proof (induction rs)
  case Nil
  then show ?case by simp
next
  case (Cons r rs)
  then show ?case using row_to_string_line [OF assms(1), of r] by simp
qed

section \<open>The book as a table\<close>

lemma book_levels_shown:
  assumes "book_inv ob"
  shows "levels_shown (store ob) (levels_of sd ob)"
proof -
  have "total_qty (store ob) (snd x) = Inr (waiting (store ob) (live (snd x)))" "level_size (snd x) = length (live (snd x))"
    if "x \<in> set (levels_of sd ob)" for x
  proof -
    have "level_inv (orders ob) (snd x)" using book_side [OF assms, of sd] that by (auto simp: side_inv_except_def level_ok_def)
    then have "level_inv (store ob) (snd x)" by (rule level_inv_le) simp
    then show "total_qty (store ob) (snd x) = Inr (waiting (store ob) (live (snd x)))" "level_size (snd x) = length (live (snd x))"
      by (rule total_qty_live, rule level_size_live)
  qed
  then show ?thesis by (simp add: levels_shown_def)
qed

lemma book_to_string_layout:
  assumes "book_inv ob"
  shows "book_to_string ob = Inr (newline @ text_of_lines (table_spec (book_cells ob)))"
proof -
  let ?top = "get_default_header table_headers"
  let ?sizes = "fold (\<lambda>h mp. AList.update h (int (length h)) mp) table_headers []"
  have sizes: "sizes_ok [?top] ?sizes" "sum_list (map (int \<circ> length) table_headers) = int (total_width [?top])" by code_simp+
  have "levels_shown (store ob) (ob_bids ob)" "levels_shown (store ob) (ob_asks ob)"
    using book_levels_shown [OF assms, of BUY] book_levels_shown [OF assms, of SELL] by simp_all
  from table_rows_cells [OF this sizes] obtain sizes' rows' where
    t: "table_rows (store ob) (ob_bids ob) (ob_asks ob) (?sizes, sum_list (map (int \<circ> length) table_headers), [?top]) =
      Inr (sizes', int (total_width (?top # rows')), ?top # rows')"
    "sizes_ok (?top # rows') sizes'" "map cells_of rows' = body_cells (store ob) (ob_bids ob) (ob_asks ob)"
    "\<forall>r \<in> set rows'. full_row r" by auto
  have cells: "map cells_of (?top # rows') = book_cells ob" using t(3) default_header_row(2) by (simp add: book_cells_def)
  let ?ws = "column_widths (book_cells ob)"
  have "rows_to_strings (?top # rows') sizes' = Inr (map (line_spec (column_widths (map cells_of (?top # rows'))) \<circ> cells_of) (?top # rows'))"
    using t(4) default_header_row(1) by (intro rows_to_strings_lines [OF t(2)]) auto
  then have lines: "rows_to_strings (?top # rows') sizes' = Inr (map (line_spec ?ws) (book_cells ob))"
    by (simp only: cells list.map_comp [symmetric])
  have w: "total_width (?top # rows') = sum_list ?ws" by (simp only: total_width_def widths_columns cells)
  have "book_to_string ob = Inr (newline @ table_text (int (sum_list ?ws)) (map (line_spec ?ws) (book_cells ob)))"
    unfolding book_to_string_def Let_def t(1) by (simp only: rbind_Inr prod.case lines w)
  then show ?thesis
    by (simp add: book_cells_def table_text_lines table_spec_def rule_spec_def del: upt_Suc)
qed

text \<open>
  C27: the stream operator of the order book prints every consistent book without a fault, and prints
  exactly the layout of its cells: the header, a rule, one line per pair of levels with the number of
  orders, the quantity waiting and the price on each side, and a rule. The hash maps, the widths that
  grow row by row and the running total of the loop come to the widths of the finished columns, and
  all lines of the table are equally long.
\<close>

theorem book_prints_layout:
  assumes "book_inv ob"
  shows "book_to_string ob = Inr (newline @ text_of_lines (table_spec (book_cells ob))) \<and>
    (\<forall>l \<in> set (table_spec (book_cells ob)). length l = sum_list (column_widths (book_cells ob)) + 20)"
  using book_to_string_layout [OF assms] table_spec_aligned by simp

theorem book_prints_layout_witness:
  "book_to_string (snd (ex_after ex_two_sided)) =
     Inr (newline @ text_of_lines
      [''| Bid Orders | Bid Qty | Bid Price || Ask Price | Ask Qty | Ask Orders |'',
       ''------------------------------------------------------------------------'',
       ''|     1      |   100   |   99.00   ||  101.00   |   50    |     1      |'',
       ''------------------------------------------------------------------------''])"
proof -
  obtain w ob where s: "ex_after ex_two_sided = (w, ob)" by fastforce
  have "book_inv (snd (ex_after ex_two_sided))" using ex_after_book [OF ex_two_sided_ok s] s by simp
  from book_prints_layout [OF this, THEN conjunct1] show ?thesis by (simp only: ) code_simp
qed

end
