(* ===== verification/Order_Output.thy ===== *)
theory Order_Output
  imports Book_Table Price_Level_V1
begin

text \<open>
  The stream operators of \<open>order.h\<close>, \<open>price_level_v2.h\<close> and \<open>price_level.h\<close>. A stream writes a double with
  six significant digits, in fixed or in scientific notation, and without the zeros at the end.
\<close>

section \<open>Doubles in the general format\<close>

text \<open>How many decimal digits a number has; and the last \<open>k\<close> of them.\<close>

function digit_count :: "int \<Rightarrow> nat" where
  "digit_count n = (if n \<le> 0 then 0 else Suc (digit_count (n div 10)))"
  by pat_completeness auto
termination by (relation "measure nat") auto

declare digit_count.simps [simp del]

fun last_digits :: "nat \<Rightarrow> int \<Rightarrow> string" where
  "last_digits 0 n = []"
| "last_digits (Suc k) n = last_digits k (n div 10) @ [digit (nat (n mod 10))]"

text \<open>A fraction in units of \<open>10 ^ x\<close>; and the exponent of its first decimal digit.\<close>

definition in_units :: "int \<Rightarrow> int \<Rightarrow> int \<Rightarrow> int \<times> int" where
  "in_units a b x = (if 0 \<le> x then (a, b * 10 ^ nat x) else (a * 10 ^ nat (- x), b))"

definition first_digit :: "int \<Rightarrow> int \<Rightarrow> int" where
  "first_digit a b =
     (let x = int (digit_count a) - int (digit_count b)
      in case in_units a b x of (n, d) \<Rightarrow> if d \<le> n then x else x - 1)"

text \<open>The six digits and the exponent of the first one, after rounding, for a positive fraction.\<close>

definition significant :: "int \<Rightarrow> int \<Rightarrow> int \<times> int" where
  "significant a b =
     (let x = first_digit a b; s = (case in_units a b (x - 5) of (n, d) \<Rightarrow> round_half_even n d)
      in if s = 1000000 then (100000, x + 1) else (s, x))"

definition strip_zeros :: "string \<Rightarrow> string" where
  "strip_zeros s = rev (dropWhile (\<lambda>c. c = CHR ''0'') (rev s))"

definition with_point :: "string \<Rightarrow> string \<Rightarrow> string" where
  "with_point s decimals = s @ (if decimals = [] then [] else ''.'' @ decimals)"

definition general_text :: "int \<Rightarrow> int \<Rightarrow> string" where
  "general_text s x =
     (let digits = last_digits 6 s in
      if 0 \<le> x \<and> x < 6 then with_point (take (nat (x + 1)) digits) (strip_zeros (drop (nat (x + 1)) digits))
      else if - 4 \<le> x \<and> x < 0 then with_point ''0'' (pad (nat (- x - 1)) CHR ''0'' @ strip_zeros digits)
      else
        let e = decimal (nat \<bar>x\<bar>) in
        with_point (take 1 digits) (strip_zeros (drop 1 digits)) @ ''e'' @ (if x < 0 then ''-'' else ''+'') @
          pad (2 - length e) CHR ''0'' @ e)"

definition double_to_stream :: "double \<Rightarrow> string" where
  "double_to_stream p =
     (if dbl_negative p then ''-'' else []) @
     (if is_nan p then ''nan''
      else if \<not> dbl_finite p then ''inf''
      else case dbl_ratio p of (a, b) \<Rightarrow>
        if a = 0 then ''0'' else case significant a b of (s, x) \<Rightarrow> general_text s x)"

text \<open>Prices of the drivers, and the end of the fixed format.\<close>

lemma known_prices:
  "double_to_stream (Double 0x4024000000000000) = ''10''"
  "double_to_stream (Double 0x4058FF5C28F5C28F) = ''99.99''"
  "double_to_stream (Double 0x40590147AE147AE2) = ''100.02''"
  "double_to_stream (Double 0x412E847E00000000) = ''999999''"
  "double_to_stream (Double 0x412E847F00000000) = ''1e+06''"
  "double_to_stream (Double 0xC132D68700000000) = ''-1.23457e+06''"
  by code_simp+

section \<open>Orders and commands\<close>

text \<open>Time points count nanoseconds; \<open>to_time_t\<close> drops what is less than a second.\<close>

definition to_time_t :: "time_point \<Rightarrow> int" where
  "to_time_t t = t sdiv 1000000000"

definition signed_decimal :: "int \<Rightarrow> string" where
  "signed_decimal n = (if n < 0 then ''-'' else []) @ last_digits (max 1 (digit_count \<bar>n\<bar>)) \<bar>n\<bar>"

definition order_to_string :: "order \<Rightarrow> string" where
  "order_to_string ord =
     (let side_str = (if ord_side ord = BUY then ''BUY'' else ''SELL'');
          updated_time_t = to_time_t (get_updated_time ord)
      in ''Order(instrument='' @ ord_instrument ord @ '', id='' @ decimal (unat (ord_id ord)) @
         '', side='' @ side_str @ '', price='' @ double_to_stream (ord_price ord) @
         '', quantity='' @ decimal (unat (ord_quantity ord)) @
         '', updated_time='' @ signed_decimal updated_time_t @ '')'')"

definition order_command_to_string :: "order_command \<Rightarrow> string" where
  "order_command_to_string cmd =
     (let command_type = (case cmd_type cmd of
            ADD \<Rightarrow> ''ADD'' | MODIFY \<Rightarrow> ''MODIFY'' | CANCEL \<Rightarrow> ''CANCEL'' | SHUTDOWN \<Rightarrow> ''SHUTDOWN'')
      in ''OrderCommand(type='' @ command_type @ '', order='' @ order_to_string (cmd_order cmd) @ '')'')"

section \<open>Levels\<close>

fun level_entries_text :: "order_store \<Rightarrow> order_entry list \<Rightarrow> bool \<Rightarrow> string result" where
  "level_entries_text h [] first_order_entry = Inr []"
| "level_entries_text h (e # es) first_order_entry =
     (if \<not> ent_is_valid e then level_entries_text h es first_order_entry
      else
        rbind (deref h (ent_order e)) (\<lambda>ord.
        rbind (level_entries_text h es False) (\<lambda>rest.
          Inr ((if first_order_entry then [] else ''->'') @ order_to_string ord @ rest))))"

definition level_to_string :: "order_store \<Rightarrow> price_level \<Rightarrow> string result" where
  "level_to_string h lv =
     rbind (level_entries_text h (lvl_order_entries lv) True) (\<lambda>s. Inr (''PriceLevel('' @ s @ '')''))"

fun list_nodes_text :: "order_store \<Rightarrow> (nat \<times> order_ptr) list \<Rightarrow> bool \<Rightarrow> string result" where
  "list_nodes_text h [] at_begin = Inr []"
| "list_nodes_text h ((_, p) # nodes) at_begin =
     rbind (deref h p) (\<lambda>ord.
     rbind (list_nodes_text h nodes False) (\<lambda>rest.
       Inr ((if at_begin then [] else ''->'') @ order_to_string ord @ rest)))"

definition list_level_to_string :: "order_store \<Rightarrow> list_level \<Rightarrow> string result" where
  "list_level_to_string h lv =
     rbind (list_nodes_text h (ll_orders_list lv) True) (\<lambda>s. Inr (''PriceLevel('' @ s @ '')''))"

section \<open>What a level prints\<close>

fun joined :: "string \<Rightarrow> string list \<Rightarrow> string" where
  "joined sep [] = []"
| "joined sep [s] = s"
| "joined sep (s # t # ts) = s @ sep @ joined sep (t # ts)"

definition orders_text :: "order_store \<Rightarrow> order_ptr list \<Rightarrow> string" where
  "orders_text h ps = ''PriceLevel('' @ joined ''->'' (map (order_to_string \<circ> the \<circ> h) ps) @ '')''"

lemma joined_Cons: "joined sep (s # ts) = s @ concat (map ((@) sep) ts)"
  by (induction ts arbitrary: s) simp_all

lemma level_entries_text_live:
  assumes "allocated h (map ent_order (filter ent_is_valid es))"
  shows "level_entries_text h es first =
    (let ts = map (order_to_string \<circ> the \<circ> h) (map ent_order (filter ent_is_valid es))
     in Inr (if first then joined ''->'' ts else concat (map ((@) ''->'') ts)))"
  using assms by (induction es arbitrary: first) (auto simp: allocated_def joined_Cons deref_def Let_def)

lemma list_nodes_text_live:
  assumes "allocated h (map snd nodes)"
  shows "list_nodes_text h nodes first =
    (let ts = map (order_to_string \<circ> the \<circ> h) (map snd nodes)
     in Inr (if first then joined ''->'' ts else concat (map ((@) ''->'') ts)))"
  using assms by (induction nodes arbitrary: first) (auto simp: allocated_def joined_Cons deref_def Let_def)

lemma level_to_string_live:
  assumes "level_inv h lv"
  shows "level_to_string h lv = Inr (orders_text h (live lv))"
proof -
  have "allocated h (map ent_order (filter ent_is_valid (lvl_order_entries lv)))"
    using lv2.inv_allocated [OF assms] by (simp add: live_def)
  from level_entries_text_live [OF this, of True] show ?thesis
    by (simp add: level_to_string_def orders_text_def live_def Let_def)
qed

lemma list_level_to_string_live:
  assumes "list_inv h lv"
  shows "list_level_to_string h lv = Inr (orders_text h (list_live lv))"
proof -
  have "allocated h (map snd (ll_orders_list lv))" using assms by (simp add: list_inv_def list_live_def)
  from list_nodes_text_live [OF this, of True] show ?thesis
    by (simp add: list_level_to_string_def orders_text_def list_live_def Let_def)
qed

section \<open>Properties\<close>

text \<open>
  C30: a level prints the orders of its queue in order of arrival, joined by arrows; the tombstones of the
  second version do not show, so that both versions print the same text for the same queue.
\<close>

theorem levels_print_queue:
  assumes "level_inv h l2" "list_inv h l1" "list_live l1 = live l2"
  shows "level_to_string h l2 =
      Inr (''PriceLevel('' @ joined ''->'' (map (\<lambda>p. order_to_string (the (h p))) (live l2)) @ '')'') \<and>
    list_level_to_string h l1 = level_to_string h l2"
  using level_to_string_live [OF assms(1)] list_level_to_string_live [OF assms(2)] assms(3)
  by (simp add: orders_text_def comp_def)

theorem levels_print_queue_witness:
  "\<exists>k1 k2 l1 l2. list_add_order ex_store (Slot 0 0) (new_list_level 0) = Inr k1 \<and>
     lv1.run_ops ex_store [AddOp (Slot 0 1), RemoveOp 1] k1 = Inr ([True], l1) \<and>
     level_add_order ex_store (Slot 0 0) (new_price_level 0) = Inr k2 \<and>
     lv2.run_ops ex_store [AddOp (Slot 0 1), RemoveOp 1] k2 = Inr ([True], l2) \<and>
     list_level_to_string ex_store l1 = level_to_string ex_store l2 \<and>
     level_to_string ex_store l2 = Inr ''PriceLevel(Order(instrument=, id=2, side=BUY, price=0, quantity=7, updated_time=0))''"
proof -
  let ?ops = "[AddOp (Slot 0 1), RemoveOp 1]" and ?o = "(default_order 0)\<lparr>ord_id := 1, ord_quantity := 5\<rparr>"
  have o: "ex_store (Slot 0 0) = Some ?o" by (simp add: ex_store_def)
  have spec: "queue_ops_ok ex_store ?ops [Slot 0 0]" "queue_spec ex_store ?ops [Slot 0 0] = ([True], [Slot 0 1])"
    by (simp_all add: ex_store_def ids_of_def)
  obtain k1 where k1: "list_add_order ex_store (Slot 0 0) (new_list_level 0) = Inr k1" "list_inv ex_store k1" "list_live k1 = [Slot 0 0]"
    using lv1.add_law [of ex_store "new_list_level 0" "Slot 0 0" ?o] o by auto
  obtain k2 where k2: "level_add_order ex_store (Slot 0 0) (new_price_level 0) = Inr k2" "level_inv ex_store k2" "live k2 = [Slot 0 0]"
    using lv2.add_law [of ex_store "new_price_level 0" "Slot 0 0" ?o] o by auto
  obtain l1 where l1: "lv1.run_ops ex_store ?ops k1 = Inr ([True], l1)" "list_inv ex_store l1" "list_live l1 = [Slot 0 1]"
    using lv1.run_ops_spec [OF k1(2), of ?ops] k1(3) spec by auto
  obtain l2 where l2: "lv2.run_ops ex_store ?ops k2 = Inr ([True], l2)" "level_inv ex_store l2" "live l2 = [Slot 0 1]"
    using lv2.run_ops_spec [OF k2(2), of ?ops] k2(3) spec by auto
  have "''PriceLevel('' @ joined ''->'' (map (\<lambda>p. order_to_string (the (ex_store p))) [Slot 0 1]) @ '')'' =
      ''PriceLevel(Order(instrument=, id=2, side=BUY, price=0, quantity=7, updated_time=0))''" by code_simp
  then show ?thesis using levels_print_queue [OF l2(2) l1(2)] l1(3) l2(3) k1(1) l1(1) k2(1) l2(1)
    by (intro exI [of _ k1] exI [of _ k2] exI [of _ l1] exI [of _ l2]) simp
qed

end
