(* ===== verification/Double_Arith.thy ===== *)
theory Double_Arith
  imports Book_Table
begin

text \<open>
  The arithmetic on doubles that the drivers under \<open>src/\<close> do to make up prices: the exact result,
  as a fraction, rounded to the nearest double with ties to even. Operands and results are
  nonnegative, and results in the range of the normal numbers.
\<close>

function bit_length :: "int \<Rightarrow> nat" where
  "bit_length n = (if n \<le> 0 then 0 else Suc (bit_length (n div 2)))"
  by pat_completeness auto
termination by (relation "measure nat") auto

declare bit_length.simps [simp del]

text \<open>A fraction in units of \<open>2 ^ (e - 52)\<close>; and the exponent for which that has 53 bits.\<close>

definition scale_ratio :: "int \<Rightarrow> int \<Rightarrow> int \<Rightarrow> int \<times> int" where
  "scale_ratio a b e = (if e \<le> 52 then (a * 2 ^ nat (52 - e), b) else (a, b * 2 ^ nat (e - 52)))"

definition ratio_exponent :: "int \<Rightarrow> int \<Rightarrow> int" where
  "ratio_exponent a b =
     (let e = int (bit_length a) - int (bit_length b)
      in case scale_ratio a b e of (x, y) \<Rightarrow> if 0x10000000000000 * y \<le> x then e else e - 1)"

definition dbl_of_ratio :: "int \<Rightarrow> int \<Rightarrow> double" where
  "dbl_of_ratio a b =
     (if a = 0 then Double 0
      else
        let e = ratio_exponent a b
        in case scale_ratio a b e of (x, y) \<Rightarrow>
          Double (word_of_int ((e + 1022) * 0x10000000000000 + round_half_even x y)))"

definition dbl_of_int :: "int \<Rightarrow> double" where
  "dbl_of_int n = dbl_of_ratio n 1"

definition dbl_add :: "double \<Rightarrow> double \<Rightarrow> double" where
  "dbl_add p q = (case dbl_ratio p of (a, b) \<Rightarrow> case dbl_ratio q of (c, d) \<Rightarrow> dbl_of_ratio (a * d + c * b) (b * d))"

definition dbl_sub :: "double \<Rightarrow> double \<Rightarrow> double" where
  "dbl_sub p q = (case dbl_ratio p of (a, b) \<Rightarrow> case dbl_ratio q of (c, d) \<Rightarrow> dbl_of_ratio (a * d - c * b) (b * d))"

definition dbl_div :: "double \<Rightarrow> double \<Rightarrow> double" where
  "dbl_div p q = (case dbl_ratio p of (a, b) \<Rightarrow> case dbl_ratio q of (c, d) \<Rightarrow> dbl_of_ratio (a * d) (b * c))"

text \<open>Some results known from processors: \<open>99.99\<close>, \<open>0.1 + 0.2\<close>, and both directions of a tie.\<close>

lemma known_doubles:
  "dbl_of_ratio 9999 100 = Double 0x4058FF5C28F5C28F"
  "dbl_add (dbl_of_ratio 1 10) (dbl_of_ratio 2 10) = Double 0x3FD3333333333334"
  "dbl_of_int (2 ^ 53 + 1) = Double 0x4340000000000000"
  "dbl_of_int (2 ^ 53 + 3) = Double 0x4340000000000002"
  by code_simp+

end
