(* ===== verification/Workload.thy ===== *)
theory Workload
  imports Trading_System Book_Growth Double_Arith
begin

text \<open>
  What the drivers \<open>src/src/bench_*.cpp\<close> have in common: they build a system, submit orders to it, shut
  it down and run its workers. An \<open>order_stream\<close> says which order each book is given as its \<open>c\<close>-th, and what
  the book has come to by then; the books of a worker then come to just that.
\<close>

section \<open>Streams of orders\<close>

lemma process_command_keys:
  assumes "process_command mv cmd (w, books) = Inr (c, cmd', w', books')"
  shows "map fst books' = map fst books"
proof (cases "map_of books (ord_instrument (cmd_order cmd))")
  case None
  then show ?thesis using assms process_command_unknown [OF None, of mv w] by simp
next
  case (Some ob)
  let ?x = "ord_instrument (cmd_order cmd)"
  have "?x \<in> set (map fst books)" using map_of_SomeD [OF Some] by force
  then have "map fst (AList.update ?x b books) = map fst books" for b by (simp only: update_keys if_True)
  moreover have "books' = books \<or> (\<exists>b. books' = AList.update ?x b books)"
    using assms Some by (cases "cmd_type cmd") (auto simp: process_command_def rbind_eq_Inr)
  ultimately show ?thesis by auto
qed

text \<open>
  \<open>accepts x c client\<close>: the driver may give the book of \<open>x\<close> the order \<open>client\<close> as its \<open>c\<close>-th;
  \<open>stage x c k ob\<close>: the book \<open>ob\<close> of \<open>x\<close> has been given \<open>c\<close> orders, and is prepared for \<open>k\<close> more.
\<close>

locale order_stream =
  fixes accepts :: "instrument \<Rightarrow> nat \<Rightarrow> order \<Rightarrow> bool"
    and stage :: "instrument \<Rightarrow> nat \<Rightarrow> nat \<Rightarrow> orderbook \<Rightarrow> bool"
  assumes one_more: "stage x c (Suc k) ob \<Longrightarrow> accepts x c client \<Longrightarrow>
      \<exists>i w' ob'. add_order client (w, ob) = Inr (i, w', ob') \<and> stage x (Suc c) k ob'"
begin

text \<open>The books of a worker that has performed \<open>past\<close> and is prepared for \<open>coming\<close>.\<close>

definition fed :: "order_command list \<Rightarrow> order_command list \<Rightarrow> books \<Rightarrow> bool" where
  "fed past coming books \<longleftrightarrow> (\<forall>x ob. map_of books x = Some ob \<longrightarrow> stage x (length (about x past)) (length (about x coming)) ob)"

text \<open>Each book is only given orders that the driver may give it at that point.\<close>

definition admitted :: "order_command list \<Rightarrow> bool" where
  "admitted cmds \<longleftrightarrow> (\<forall>x. \<forall>i < length (about x cmds).
     cmd_type (about x cmds ! i) = ADD \<and> accepts x i (cmd_order (about x cmds ! i)))"

lemma admitted_next:
  assumes "admitted (past @ cmd # coming)" "cmd_type cmd \<noteq> SHUTDOWN"
  shows "cmd_type cmd = ADD"
    "accepts (ord_instrument (cmd_order cmd)) (length (about (ord_instrument (cmd_order cmd)) past)) (cmd_order cmd)"
proof -
  let ?x = "ord_instrument (cmd_order cmd)"
  have "about ?x (past @ cmd # coming) = about ?x past @ cmd # about ?x coming" using assms(2) by (simp add: about_def)
  then have "cmd_type cmd = ADD \<and> accepts ?x (length (about ?x past)) (cmd_order cmd)"
    using assms(1) [unfolded admitted_def, rule_format, of "length (about ?x past)" ?x] by simp
  then show "cmd_type cmd = ADD" "accepts ?x (length (about ?x past)) (cmd_order cmd)" by simp_all
qed

lemma admitted_snoc:
  assumes "admitted cmds" "cmd_type cmd = ADD"
    "accepts (ord_instrument (cmd_order cmd)) (length (about (ord_instrument (cmd_order cmd)) cmds)) (cmd_order cmd)"
  shows "admitted (cmds @ [cmd])"
  unfolding admitted_def
proof (intro allI impI)
  fix x i
  assume i: "i < length (about x (cmds @ [cmd]))"
  show "cmd_type (about x (cmds @ [cmd]) ! i) = ADD \<and> accepts x i (cmd_order (about x (cmds @ [cmd]) ! i))"
  proof (cases "i < length (about x cmds)")
    case True
    then show ?thesis using assms(1) by (simp add: admitted_def nth_append)
  next
    case False
    then have "x = ord_instrument (cmd_order cmd)" "i = length (about x cmds)" "about x [cmd] = [cmd]"
      using i assms(2) by (auto simp: about_def split: if_splits)
    then show ?thesis using assms(2,3) by (simp add: nth_append)
  qed
qed

lemma fed_next:
  assumes fed: "fed past (cmd # coming) books" and add: "cmd_type cmd = ADD"
      "accepts (ord_instrument (cmd_order cmd)) (length (about (ord_instrument (cmd_order cmd)) past)) (cmd_order cmd)"
  obtains c cmd' w' books' where "process_command mv cmd (w, books) = Inr (c, cmd', w', books')" "fed (past @ [cmd]) coming books'"
proof -
  let ?x = "ord_instrument (cmd_order cmd)"
  have grow: "about x (past @ [cmd]) = about x past @ (if x = ?x then [cmd] else [])"
    "about x (cmd # coming) = (if x = ?x then [cmd] else []) @ about x coming" for x
    using add(1) by (simp_all add: about_def)
  have others: "stage x (length (about x (past @ [cmd]))) (length (about x coming)) ob" if "x \<noteq> ?x" "map_of books x = Some ob" for x ob
    using fed [unfolded fed_def, rule_format, OF that(2)] grow [of x] that(1) by simp
  show ?thesis
  proof (cases "map_of books ?x")
    case None
    have "x \<noteq> ?x" if "map_of books x = Some ob" for x ob using that None by auto
    then have "fed (past @ [cmd]) coming books" using others unfolding fed_def by blast
    then show ?thesis using that process_command_unknown [OF None, of mv w] by blast
  next
    case (Some ob)
    have "stage ?x (length (about ?x past)) (Suc (length (about ?x coming))) ob"
      using fed [unfolded fed_def, rule_format, OF Some] grow(2) [of ?x] by simp
    from one_more [OF this add(2)] obtain i w1 ob1 where p:
      "add_order (cmd_order cmd) (w, ob) = Inr (i, w1, ob1)" "stage ?x (Suc (length (about ?x past))) (length (about ?x coming)) ob1" by blast
    have proc: "process_command mv cmd (w, books) = Inr (True, moved_command mv cmd, w1, AList.update ?x ob1 books)"
      using Some p(1) add(1) by (simp add: process_command_def)
    have "fed (past @ [cmd]) coming (AList.update ?x ob1 books)"
      unfolding fed_def
    proof (intro allI impI)
      fix x b
      assume b: "map_of (AList.update ?x ob1 books) x = Some b"
      show "stage x (length (about x (past @ [cmd]))) (length (about x coming)) b"
      proof (cases "x = ?x")
        case True
        then show ?thesis using b p(2) grow(1) [of x] by (simp add: update_conv')
      next
        case False
        then show ?thesis using b others by (simp add: update_conv')
      qed
    qed
    then show ?thesis using that proc by blast
  qed
qed

text \<open>A worker performs the first commands of its queue, whatever the commands after them.\<close>

lemma process_all_fed:
  assumes "fed past cmds books" "admitted (past @ cmds)" "no_shutdown cmds"
  shows "\<exists>w' books'. process_all mv sur k (cmds @ rest) (w, books) = process_all mv sur (k + length cmds) rest (w', books') \<and>
    map fst books' = map fst books \<and> fed (past @ cmds) [] books'"
  using assms
proof (induction cmds arbitrary: past k w books)
  case Nil
  then show ?case by auto
next
  case (Cons cmd cmds)
  have noshut: "cmd_type cmd \<noteq> SHUTDOWN" "no_shutdown cmds" using Cons.prems(3) by simp_all
  obtain c cmd' w1 books1 where p: "process_command mv cmd (sur_world sur k w, books) = Inr (c, cmd', w1, books1)"
      "fed (past @ [cmd]) cmds books1"
    by (rule fed_next [OF Cons.prems(1) admitted_next [OF Cons.prems(2) noshut(1)]])
  have "admitted ((past @ [cmd]) @ cmds)" using Cons.prems(2) by simp
  from Cons.IH [OF p(2) this noshut(2), of "Suc k" w1] show ?case using p(1) process_command_keys [OF p(1)] by simp
qed

end

end
