(* ===== verification/Drivers.thy ===== *)
theory Drivers
  imports Workload "HOL-Library.Multiset"
begin

text \<open>
  The shape of the drivers \<open>src/src/bench_*.cpp\<close>: the orders are made up first, and submitted before any
  worker runs. The \<open>_s\<close> drivers run their only worker in the main thread afterwards, so that the whole
  run is one function; in the \<open>_m\<close> drivers the workers are threads that run while the main thread
  submits the SHUTDOWNs. Pinning threads, sleeping and measuring time are left out, and so are the lines
  printed of it.
\<close>

section \<open>Making up and submitting orders\<close>

definition bench_instruments :: "nat \<Rightarrow> instrument list" where
  "bench_instruments n = map (\<lambda>i. ''S'' @ decimal i) [0..<n]"

text \<open>The result of \<open>submit\<close> is ignored.\<close>

fun submit_orders ::
    "(instrument \<Rightarrow> instrument) \<Rightarrow> order_command list \<Rightarrow> order_routing_system \<Rightarrow> order_routing_system result" where
  "submit_orders mv [] sys = Inr sys"
| "submit_orders mv (cmd # cmds) sys = rbind (submit_move mv cmd sys) (\<lambda>(_, _, sys'). submit_orders mv cmds sys')"

text \<open>
  Up to the last order submitted; \<open>mk\<close> makes up the commands and advances the clock. The allocator is
  the default one, and the queues hold all orders, one SHUTDOWN and the slot that stays free. The
  commands are returned for the record.
\<close>

definition load_orders ::
    "nat \<Rightarrow> nat \<Rightarrow> nat \<Rightarrow> nat \<Rightarrow> (instrument list \<Rightarrow> clock \<Rightarrow> order_command list \<times> clock) \<Rightarrow>
       (instrument \<Rightarrow> instrument) \<Rightarrow> clock \<Rightarrow> (order_routing_system \<times> order_command list \<times> world) result" where
  "load_orders pool_size num_instruments num_workers num_orders mk mv clk =
     (let instruments = bench_instruments num_instruments in
      rbind (build_order_routing_system_sized pool_size instruments num_workers (num_orders + 2) num_orders
        \<lparr>wd_clock = clk, wd_ids = default_id_allocator\<rparr>) (\<lambda>(sys, w).
      let (cmds, clk1) = mk instruments (wd_clock w) in
      rbind (submit_orders mv cmds sys) (\<lambda>sys1. Inr (sys1, cmds, w\<lparr>wd_clock := clk1\<rparr>))))"

section \<open>One thread\<close>

definition alone :: surroundings where
  "alone = \<lparr>sur_queue = (\<lambda>_ q. q), sur_world = (\<lambda>_ w. w)\<rparr>"

definition run_alone ::
    "(instrument \<Rightarrow> instrument) \<Rightarrow> (books \<Rightarrow> books) \<Rightarrow> order_routing_system \<times> order_command list \<times> world \<Rightarrow> string result" where
  "run_alone mv visit = (\<lambda>(sys, _, w).
     rbind (submit_all_shutdown_commands (\<lambda>_ _ q. q) (wd_clock w) sys) (\<lambda>(clk, sys1).
     rbind (assert_or (0 < length (ors_worker_contexts sys1)) OutOfRange) (\<lambda>_.
     let ctx = ors_worker_contexts sys1 ! 0 in
     rbind (worker_run mv alone visit (wc_queue ctx, w\<lparr>wd_clock := clk\<rparr>, new_worker ctx)) (\<lambda>(out, _).
       Inr out))))"

lemma alone_simps [simp]: "sur_queue alone k = (\<lambda>q. q)" "sur_world alone k = (\<lambda>w. w)"
  by (simp_all add: alone_def)

section \<open>Fresh books\<close>

definition fresh_book :: "nat \<Rightarrow> nat \<Rightarrow> orderbook \<Rightarrow> bool" where
  "fresh_book n k ob \<longleftrightarrow> ob_bids ob = [] \<and> ob_asks ob = [] \<and> ob_trades_completed ob = 0 \<and> pool_length ob = n \<and>
     stocked 0 ob \<and> ids_for k ob"

lemma new_orderbook_fresh:
  assumes "new_orderbook_sized n instr r w = (ob, w')" "ids_left (Suc m) (wd_ids w)" "0 < n"
    "k \<le> unat (ida_block_size (wd_ids w))"
  shows "fresh_book n k ob \<and> ids_left m (wd_ids w') \<and> ida_block_size (wd_ids w') = ida_block_size (wd_ids w)"
proof -
  have ids: "wd_ids w' = snd (get_next_id_block (wd_ids w))"
    using assms(1) by (auto simp: new_orderbook_sized_def Let_def split: prod.splits)
  have "unat (ida_global_counter (wd_ids w) + ida_block_size (wd_ids w)) =
      unat (ida_global_counter (wd_ids w)) + unat (ida_block_size (wd_ids w))"
    by (rule ids_left_Suc(2) [OF assms(2)])
  moreover have "default_orders (wd_clock w) n \<noteq> []" using assms(3) length_default_orders by (metis less_irrefl list.size(3))
  ultimately have "fresh_book n k ob" using assms(1,4)
    by (auto simp: new_orderbook_sized_def fresh_book_def stocked_def ids_for_def new_order_pool_def default_order_def Let_def split_beta)
  then show ?thesis using ids ids_left_Suc(1) [OF assms(2)] by simp
qed

lemma new_books_fresh:
  assumes "new_books_sized n instrs r w = (bs, w')" "ids_left (length instrs + m) (wd_ids w)" "0 < n"
    "k \<le> unat (ida_block_size (wd_ids w))"
  shows "(\<forall>ob \<in> set bs. fresh_book n k ob) \<and> ids_left m (wd_ids w') \<and> ida_block_size (wd_ids w') = ida_block_size (wd_ids w)"
  using assms
proof (induction instrs arbitrary: w bs)
  case Nil
  then show ?case by simp
next
  case (Cons instr instrs)
  obtain ob w1 where ob: "new_orderbook_sized n instr r w = (ob, w1)" by fastforce
  obtain bs' where bs: "new_books_sized n instrs r w1 = (bs', w')" "bs = ob # bs'"
    using Cons.prems(1) ob by (auto split: prod.splits)
  have "ids_left (Suc (length instrs + m)) (wd_ids w)" using Cons.prems(2) by simp
  from new_orderbook_fresh [OF ob this Cons.prems(3,4)] Cons.IH [OF bs(1)] Cons.prems(3,4) bs(2)
  show ?case by simp
qed

lemma new_contexts_fresh:
  assumes "new_contexts_sized n sets cap r w = (ctxs, w')" "ids_left (length (concat sets)) (wd_ids w)" "0 < n"
    "k \<le> unat (ida_block_size (wd_ids w))"
  shows "\<forall>ctx \<in> set ctxs. \<forall>ob \<in> set (wc_orderbooks ctx). fresh_book n k ob"
  using assms
proof (induction sets arbitrary: w ctxs)
  case Nil
  then show ?case by simp
next
  case (Cons instrs sets)
  obtain ctx w1 where ctx: "new_worker_context_sized n instrs cap r w = (ctx, w1)" by fastforce
  obtain ctxs' where ctxs: "new_contexts_sized n sets cap r w1 = (ctxs', w')" "ctxs = ctx # ctxs'"
    using Cons.prems(1) ctx by (auto split: prod.splits)
  obtain bs where bs: "new_books_sized n instrs r (w\<lparr>wd_clock := later cap (wd_clock w)\<rparr>) = (bs, w1)" "wc_orderbooks ctx = bs"
    using ctx by (auto simp: new_worker_context_sized_def Let_def split: prod.splits)
  have "ids_left (length instrs + length (concat sets)) (wd_ids (w\<lparr>wd_clock := later cap (wd_clock w)\<rparr>))"
    using Cons.prems(2) by simp
  from new_books_fresh [OF bs(1) this Cons.prems(3)] Cons.IH [OF ctxs(1)] Cons.prems(3,4) bs(2) ctxs(2)
  show ?case by simp
qed

lemma build_fresh:
  assumes "build_order_routing_system_sized n instruments num_workers queue_cap reserve w = Inr (sys, w')"
    "0 < num_workers" "ids_left (length instruments) (wd_ids w)" "0 < n" "k \<le> unat (ida_block_size (wd_ids w))"
    "ctx \<in> set (ors_worker_contexts sys)" "ob \<in> set (wc_orderbooks ctx)"
  shows "fresh_book n k ob"
proof -
  obtain sets router where d: "distribute num_workers 0 instruments (replicate num_workers [], []) = Inr (sets, router)"
      "length sets = num_workers" "\<forall>k < num_workers. sets ! k = share num_workers k 0 instruments"
    using distribute_spec [OF assms(2), of "replicate num_workers []" 0 instruments "[]"] by auto
  obtain ctxs w1 where c: "new_contexts_sized n sets queue_cap (reserve div length instruments + 1) w = (ctxs, w1)"
    by fastforce
  have left: "ids_left (length (concat sets)) (wd_ids w)" using shares_length [OF assms(2) d(2,3)] assms(3) by simp
  have "ors_worker_contexts sys = ctxs"
    using assms(1) d(1) c by (auto simp: build_order_routing_system_sized_def rbind_eq_Inr)
  then show ?thesis using new_contexts_fresh [OF c left assms(4,5)] assms(6,7) by simp
qed

section \<open>The orders reach the queues\<close>

definition routed :: "order_routing_system \<Rightarrow> nat \<Rightarrow> order_command list \<Rightarrow> order_command list" where
  "routed sys k = filter (\<lambda>cmd. map_of (ors_instrument_router sys) (ord_instrument (cmd_order cmd)) = Some k)"

abbreviation room_of :: "order_routing_system \<Rightarrow> nat \<Rightarrow> nat" where
  "room_of sys k \<equiv> spsc_room (wc_queue (ors_worker_contexts sys ! k))"

lemma submit_move_room:
  assumes "routing_ok sys" "queues_ok sys" "map_of (ors_instrument_router sys) (ord_instrument (cmd_order cmd)) = Some k"
    "0 < room_of sys k"
  shows "\<exists>q. submit_move mv cmd sys = Inr (True, moved_command mv cmd, set_queue k q sys) \<and> spsc_inv q \<and>
    spsc_items q = pending sys k @ [cmd] \<and> Suc (spsc_room q) = room_of sys k"
proof -
  have k: "k < length (ors_worker_contexts sys)" using assms(1,3) by (simp add: routing_ok_def)
  obtain q where "spsc_push cmd (wc_queue (ors_worker_contexts sys ! k)) = Inr (True, q)" "spsc_inv q"
      "spsc_items q = pending sys k @ [cmd]" "Suc (spsc_room q) = room_of sys k"
    using spsc.put_ok [OF queues_ok_at [OF assms(2) k] assms(4)] by (auto simp: pending_def)
  then show ?thesis using assms(3) k by (intro exI [of _ q]) (simp add: submit_move_submit submit_def)
qed

lemma submit_orders_ok:
  assumes "routing_ok sys" "queues_ok sys" "\<forall>cmd \<in> set cmds. ord_instrument (cmd_order cmd) \<in> dom (map_of (ors_instrument_router sys))"
    "\<forall>k < length (ors_worker_contexts sys). length (routed sys k cmds) \<le> room_of sys k"
  shows "\<exists>sys1. submit_orders mv cmds sys = Inr sys1 \<and> routing_ok sys1 \<and> queues_ok sys1 \<and>
    ors_instrument_router sys1 = ors_instrument_router sys \<and>
    length (ors_worker_contexts sys1) = length (ors_worker_contexts sys) \<and>
    (\<forall>k < length (ors_worker_contexts sys).
       wc_orderbooks (ors_worker_contexts sys1 ! k) = wc_orderbooks (ors_worker_contexts sys ! k) \<and>
       pending sys1 k = pending sys k @ routed sys k cmds \<and> room_of sys1 k + length (routed sys k cmds) = room_of sys k)"
  using assms
proof (induction cmds arbitrary: sys)
  case Nil
  then show ?case by (simp add: routed_def)
next
  case (Cons cmd cmds)
  obtain j where j: "map_of (ors_instrument_router sys) (ord_instrument (cmd_order cmd)) = Some j" using Cons.prems(3) by auto
  have jl: "j < length (ors_worker_contexts sys)" using Cons.prems(1) j by (simp add: routing_ok_def)
  have routed: "routed sys k (cmd # cmds) = (if k = j then [cmd] else []) @ routed sys k cmds" for k
    using j by (simp add: routed_def)
  have "0 < room_of sys j" using Cons.prems(4) [rule_format, OF jl] routed [of j] by simp
  from submit_move_room [OF Cons.prems(1,2) j this] obtain q where q:
    "submit_move mv cmd sys = Inr (True, moved_command mv cmd, set_queue j q sys)" "spsc_inv q"
    "spsc_items q = pending sys j @ [cmd]" "Suc (spsc_room q) = room_of sys j" by blast
  let ?sys = "set_queue j q sys"
  have same: "routed ?sys k cmds = routed sys k cmds" for k by (simp add: routed_def)
  have room: "room_of ?sys k = (if k = j then spsc_room q else room_of sys k)" for k by (simp add: set_queue_at(1) [OF jl])
  have "length (routed ?sys k cmds) \<le> room_of ?sys k" if "k < length (ors_worker_contexts sys)" for k
    using Cons.prems(4) [rule_format, OF that] q(4) by (cases "k = j") (simp_all add: routed same room)
  then obtain sys1 where s: "submit_orders mv cmds ?sys = Inr sys1" "routing_ok sys1" "queues_ok sys1"
      "ors_instrument_router sys1 = ors_instrument_router sys"
      "length (ors_worker_contexts sys1) = length (ors_worker_contexts sys)"
      "\<forall>k < length (ors_worker_contexts sys).
         wc_orderbooks (ors_worker_contexts sys1 ! k) = wc_orderbooks (ors_worker_contexts ?sys ! k) \<and>
         pending sys1 k = pending ?sys k @ routed ?sys k cmds \<and> room_of sys1 k + length (routed ?sys k cmds) = room_of ?sys k"
    using Cons.IH [of ?sys] Cons.prems(1-3) q(2) by (auto simp: routing_ok_set queues_ok_set)
  have "wc_orderbooks (ors_worker_contexts sys1 ! k) = wc_orderbooks (ors_worker_contexts sys ! k) \<and>
      pending sys1 k = pending sys k @ routed sys k (cmd # cmds) \<and>
      room_of sys1 k + length (routed sys k (cmd # cmds)) = room_of sys k"
    if k: "k < length (ors_worker_contexts sys)" for k
    using s(6) [rule_format, OF k] q(3,4) room [of k] jl
    by (cases "k = j") (simp_all add: routed same set_queue_at(2) [OF jl])
  then show ?case using q(1) s(1-5) by (intro exI [of _ sys1]) simp
qed

text \<open>The whole preparation: a worker has the fresh books of its instruments and the orders for them.\<close>

definition loaded :: "nat \<Rightarrow> nat \<Rightarrow> instrument list \<Rightarrow> nat \<Rightarrow> order_command list \<Rightarrow> order_routing_system \<Rightarrow> bool" where
  "loaded pool_size spare instruments n cmds sys \<longleftrightarrow> routing_ok sys \<and> queues_ok sys \<and> length (ors_worker_contexts sys) = n \<and>
     (\<forall>x. map_of (ors_instrument_router sys) x = first_worker n 0 instruments x) \<and>
     (\<forall>k < n. map ob_instrument (wc_orderbooks (ors_worker_contexts sys ! k)) = share n k 0 instruments \<and>
        (\<forall>ob \<in> set (wc_orderbooks (ors_worker_contexts sys ! k)). fresh_book pool_size 1000000 ob) \<and>
        pending sys k = routed sys k cmds \<and> spare \<le> room_of sys k)"

lemma first_worker_dom: "0 < n \<Longrightarrow> x \<in> set instruments \<Longrightarrow> \<exists>k. first_worker n i instruments x = Some k"
  using first_worker_total by blast

lemma bench_instruments_distinct: "distinct (bench_instruments n)" "length (bench_instruments n) = n"
  by (auto simp: bench_instruments_def distinct_map inj_on_def decimal_inject)

lemma load_orders_loaded:
  assumes "0 < num_instruments" "0 < num_workers" "num_instruments * 1000000 < 2 ^ 63" "0 < pool_size"
    and mk: "\<And>clk. length (fst (mk (bench_instruments num_instruments) clk)) = num_orders"
      "\<And>clk cmd. cmd \<in> set (fst (mk (bench_instruments num_instruments) clk)) \<Longrightarrow>
        ord_instrument (cmd_order cmd) \<in> set (bench_instruments num_instruments)"
  shows "\<exists>sys w clk1. load_orders pool_size num_instruments num_workers num_orders mk mv clk =
      Inr (sys, fst (mk (bench_instruments num_instruments) clk1), w) \<and>
    loaded pool_size 1 (bench_instruments num_instruments) num_workers (fst (mk (bench_instruments num_instruments) clk1)) sys"
proof -
  let ?is = "bench_instruments num_instruments"
  let ?w0 = "\<lparr>wd_clock = clk, wd_ids = default_id_allocator\<rparr>"
  have ids: "0 < ida_block_size (wd_ids ?w0)" "ids_left (length ?is) (wd_ids ?w0)" "unat (ida_block_size (wd_ids ?w0)) = 1000000"
    using assms(3) by (simp_all add: default_id_allocator_def new_id_allocator_def DEFAULT_BLOCK_SIZE_def
      FIRST_ORDER_ID_def ids_left_def bench_instruments_distinct(2))
  have ne: "?is \<noteq> []" using assms(1) bench_instruments_distinct(2) by (metis length_0_conv less_irrefl)
  from build_system [OF ne assms(2) _ ids(1,2), of "num_orders + 2" pool_size num_orders]
  obtain sys w where b: "build_order_routing_system_sized pool_size ?is num_workers (num_orders + 2) num_orders ?w0 = Inr (sys, w)"
      "length (ors_worker_contexts sys) = num_workers"
      "\<forall>ctx \<in> set (ors_worker_contexts sys). fresh_queue (num_orders + 2) (wc_queue ctx)"
      "\<forall>x. map_of (ors_instrument_router sys) x = first_worker num_workers 0 ?is x"
      "\<forall>k < num_workers. map ob_instrument (wc_orderbooks (ors_worker_contexts sys ! k)) = share num_workers k 0 ?is"
    by auto
  obtain cmds clk1 where m: "mk ?is (wd_clock w) = (cmds, clk1)" by fastforce
  have fresh: "fresh_book pool_size 1000000 ob" if "k < num_workers" "ob \<in> set (wc_orderbooks (ors_worker_contexts sys ! k))" for k ob
    using build_fresh [OF b(1) assms(2) ids(2) assms(4) _ nth_mem that(2)] that(1) b(2) ids(3) by simp
  have q: "fresh_queue (num_orders + 2) (wc_queue (ors_worker_contexts sys ! k))" if "k < num_workers" for k
    using b(2,3) that by simp
  have r: "routing_ok sys" by (rule routing_ok_shares(1) [OF assms(2) b(2,4,5)])
  have qs: "queues_ok sys" using b(3) by (auto simp: queues_ok_def fresh_queue_def)
  have known: "\<forall>cmd \<in> set cmds. ord_instrument (cmd_order cmd) \<in> dom (map_of (ors_instrument_router sys))"
    using mk(2) [of _ "wd_clock w"] m b(4) first_worker_dom [OF assms(2)] by (fastforce simp: dom_def)
  have len: "length (routed sys k cmds) \<le> num_orders" for k
    using mk(1) [of "wd_clock w"] m length_filter_le [of _ cmds] by (simp add: routed_def)
  have empty: "room_of sys k = num_orders + 1" "pending sys k = []" if "k < num_workers" for k
    using q [OF that] by (simp_all add: fresh_queue_def pending_def)
  have room: "\<forall>k < length (ors_worker_contexts sys). length (routed sys k cmds) \<le> room_of sys k"
    using len empty(1) b(2) by (simp add: le_SucI)
  obtain sys1 where s: "submit_orders mv cmds sys = Inr sys1" "routing_ok sys1" "queues_ok sys1"
      "ors_instrument_router sys1 = ors_instrument_router sys" "length (ors_worker_contexts sys1) = num_workers"
    and k: "\<forall>k < num_workers. wc_orderbooks (ors_worker_contexts sys1 ! k) = wc_orderbooks (ors_worker_contexts sys ! k) \<and>
         pending sys1 k = pending sys k @ routed sys k cmds \<and> room_of sys1 k + length (routed sys k cmds) = room_of sys k"
    using submit_orders_ok [OF r qs known room, of mv] unfolding b(2) by blast
  have s6: "\<forall>k < num_workers. wc_orderbooks (ors_worker_contexts sys1 ! k) = wc_orderbooks (ors_worker_contexts sys ! k) \<and>
         pending sys1 k = routed sys k cmds \<and> 1 \<le> room_of sys1 k"
  proof (intro allI impI)
    fix j
    assume j: "j < num_workers"
    have "room_of sys1 j + length (routed sys j cmds) = num_orders + 1" using k [rule_format, OF j] empty(1) [OF j] by simp
    then have "1 \<le> room_of sys1 j" using len [of j] by linarith
    then show "wc_orderbooks (ors_worker_contexts sys1 ! j) = wc_orderbooks (ors_worker_contexts sys ! j) \<and>
         pending sys1 j = routed sys j cmds \<and> 1 \<le> room_of sys1 j"
      using k [rule_format, OF j] empty(2) [OF j] by simp
  qed
  note s = s s6
  have "routed sys1 k cmds = routed sys k cmds" for k using s(4) by (simp add: routed_def)
  then have "loaded pool_size 1 ?is num_workers (fst (mk ?is (wd_clock w))) sys1"
    using s(2-6) b(4,5) fresh m by (simp add: loaded_def)
  moreover have "load_orders pool_size num_instruments num_workers num_orders mk mv clk = Inr (sys1, fst (mk ?is (wd_clock w)), w\<lparr>wd_clock := clk1\<rparr>)"
    using b(1) m s(1) by (simp add: load_orders_def)
  ultimately show ?thesis by blast
qed

section \<open>What a run in one thread comes to\<close>

lemma shutdown_alone:
  assumes "ors_worker_contexts sys = [ctx]" "spsc_inv (wc_queue ctx)" "0 < spsc_room (wc_queue ctx)"
  shows "\<exists>q. submit_all_shutdown_commands (\<lambda>_ _ q. q) clk sys = Inr (later 1 clk, sys\<lparr>ors_worker_contexts := [ctx\<lparr>wc_queue := q\<rparr>]\<rparr>) \<and>
    spsc_inv q \<and> spsc_items q = spsc_items (wc_queue ctx) @ [shutdown_command (now clk)]"
proof -
  obtain q where q: "spsc_push (shutdown_command (now clk)) (wc_queue ctx) = Inr (True, q)" "spsc_inv q"
      "spsc_items q = spsc_items (wc_queue ctx) @ [shutdown_command (now clk)]"
    using spsc.put_ok [OF assms(2,3)] by blast
  let ?s = "\<lparr>sd_attempts = 0, sd_submitted = [False], sd_count = 0, sd_clock = clk, sd_queues = [wc_queue ctx]\<rparr>"
  let ?s' = "\<lparr>sd_attempts = 1, sd_submitted = [True], sd_count = 1, sd_clock = later 1 clk, sd_queues = [q]\<rparr>"
  have "shutdown_pass (\<lambda>_ _ q. q) [0] ?s = Inr ?s'" using q(1) by (simp add: shutdown_attempt_def)
  then have "shutdown_loop (\<lambda>_ _ q. q) ?s = shutdown_loop (\<lambda>_ _ q. q) ?s'"
    by (simp add: shutdown_loop.simps [of _ ?s])
  also have "\<dots> = Some (Inr ?s')" by (simp add: shutdown_loop.simps)
  finally show ?thesis using q(2,3) assms(1) by (intro exI [of _ q]) (simp add: submit_all_shutdown_commands_def)
qed

lemma share_one: "share 1 0 i instrs = instrs"
  by (induction instrs arbitrary: i) (simp_all add: share_def)

lemma first_worker_one: "x \<in> set instrs \<Longrightarrow> first_worker 1 i instrs x = Some 0"
  by (induction instrs arbitrary: i) auto

lemma quota_all:
  assumes "\<And>cmd. cmd \<in> set cmds \<Longrightarrow> ord_instrument (cmd_order cmd) \<in> set instrs"
    "\<And>x. x \<in> set instrs \<Longrightarrow> length (about x cmds) = quota"
  shows "length (about x cmds) \<le> quota"
proof (cases "x \<in> set instrs")
  case False
  then have "about x cmds = []" using assms(1) unfolding about_def filter_empty_conv by blast
  then show ?thesis by simp
qed (simp add: assms(2))

context order_stream
begin

lemma fed_fresh:
  assumes "\<forall>ob \<in> set obs. fresh_book pool_size 1000000 ob"
    "\<And>x ob. fresh_book pool_size 1000000 ob \<Longrightarrow> stage x 0 (length (about x cmds)) ob"
  shows "fed [] cmds (map (\<lambda>ob. (ob_instrument ob, ob)) obs)"
  unfolding fed_def
proof (intro allI impI)
  fix x ob
  assume "map_of (map (\<lambda>ob. (ob_instrument ob, ob)) obs) x = Some ob"
  from map_of_SomeD [OF this] have "fresh_book pool_size 1000000 ob" using assms(1) by auto
  then show "stage x (length (about x [])) (length (about x cmds)) ob" using assms(2) by (simp add: about_def)
qed

text \<open>
  The run performs the first orders, and goes on from there with \<open>rest\<close>: it comes to what the books come
  to with them, or faults as they do.
\<close>

lemma run_alone_result:
  assumes load: "loaded pool_size 1 instrs 1 (cmds @ rest) sys" and cmds: "distinct instrs" "no_shutdown (cmds @ rest)" "admitted cmds"
      "\<forall>cmd \<in> set (cmds @ rest). ord_instrument (cmd_order cmd) \<in> set instrs"
    and fresh: "\<And>x ob. fresh_book pool_size 1000000 ob \<Longrightarrow> stage x 0 (length (about x cmds)) ob"
  shows "\<exists>k w' books. map fst books = instrs \<and> fed cmds [] books \<and> run_alone mv visit (sys, rec, w) =
    rbind (process_all mv alone k rest (w', books)) (\<lambda>(_, books'). Inr (concat (map report_line (visit books'))))"
proof -
  obtain ctx where ctx: "ors_worker_contexts sys = [ctx]" using load by (auto simp: loaded_def length_Suc_conv)
  have routed: "routed sys 0 (cmds @ rest) = cmds @ rest"
    using load cmds(4) first_worker_one unfolding routed_def loaded_def by (intro filter_True) simp
  have l: "map ob_instrument (wc_orderbooks ctx) = instrs" "\<forall>ob \<in> set (wc_orderbooks ctx). fresh_book pool_size 1000000 ob"
      "spsc_items (wc_queue ctx) = cmds @ rest" "0 < spsc_room (wc_queue ctx)" "spsc_inv (wc_queue ctx)"
    using load ctx routed share_one by (auto simp: loaded_def pending_def queues_ok_def)
  obtain q where q: "submit_all_shutdown_commands (\<lambda>_ _ q. q) (wd_clock w) sys =
        Inr (later 1 (wd_clock w), sys\<lparr>ors_worker_contexts := [ctx\<lparr>wc_queue := q\<rparr>]\<rparr>)"
      "spsc_inv q" "spsc_items q = (cmds @ rest) @ [shutdown_command (now (wd_clock w))]"
    using shutdown_alone [OF ctx l(5,4), of "wd_clock w"] l(3) by auto
  let ?w = "w\<lparr>wd_clock := later 1 (wd_clock w)\<rparr>" and ?books = "map (\<lambda>ob. (ob_instrument ob, ob)) (wc_orderbooks ctx)"
  have books: "new_worker (ctx\<lparr>wc_queue := q\<rparr>) = ?books" using new_worker_distinct [of "ctx\<lparr>wc_queue := q\<rparr>"] cmds(1) l(1) by simp
  obtain w' books' where p: "process_all mv alone 0 (cmds @ rest) (?w, ?books) = process_all mv alone (0 + length cmds) rest (w', books')"
      "map fst books' = map fst ?books" "fed cmds [] books'"
    using process_all_fed [where mv = mv and sur = alone and k = 0 and rest = rest and w = ?w, OF fed_fresh [OF l(2) fresh]] cmds(2,3) by auto
  have "run_alone mv visit (sys, rec, w) = rbind (worker_run mv alone visit (q, ?w, ?books)) (\<lambda>(out, _). Inr out)"
    using q(1) books by (simp add: run_alone_def assert_or_def)
  also have "\<dots> = rbind (process_all mv alone (length cmds) rest (w', books')) (\<lambda>(_, books'). Inr (concat (map report_line (visit books'))))"
    using worker_loop_drains [of alone q "cmds @ rest" "shutdown_command (now (wd_clock w))" "[]" mv 0 ?w ?books] q(2,3) cmds(2) p(1)
    by (auto simp: worker_run_def shutdown_command_def split: sum.splits)
  finally show ?thesis using p(2,3) l(1) by (intro exI [of _ "length cmds"] exI [of _ w'] exI [of _ books']) (simp add: comp_def)
qed

text \<open>
  A driver that gives each instrument \<open>quota\<close> orders prints one line for each instrument, in the order of
  the hash map, and \<open>line\<close> is what the outcome makes of it.
\<close>

lemma run_alone_lines:
  fixes visit :: "books \<Rightarrow> books" and num_instruments :: nat
  defines "instrs \<equiv> bench_instruments num_instruments"
  assumes num: "0 < num_instruments" "num_instruments * 1000000 < 2 ^ 63" "0 < pool_size"
    and visit: "\<forall>books. mset (visit books) = mset books"
    and mk: "\<And>c. length (fst (mk instrs c)) = num_orders" "\<And>c. admitted (fst (mk instrs c))"
      "\<And>c cmd. cmd \<in> set (fst (mk instrs c)) \<Longrightarrow> cmd_type cmd = ADD \<and> ord_instrument (cmd_order cmd) \<in> set instrs"
      "\<And>c x. x \<in> set instrs \<Longrightarrow> length (about x (fst (mk instrs c))) = quota"
    and stages: "\<And>x ob k. fresh_book pool_size 1000000 ob \<Longrightarrow> k \<le> quota \<Longrightarrow> stage x 0 k ob"
      "\<And>x ob. x \<in> set instrs \<Longrightarrow> stage x quota 0 ob \<Longrightarrow> report_line (x, ob) = line x"
  shows "\<exists>xs. mset xs = mset instrs \<and>
    rbind (load_orders pool_size num_instruments 1 num_orders mk mv clk) (run_alone mv visit) = Inr (concat (map line xs))"
proof -
  obtain sys w c where load: "load_orders pool_size num_instruments 1 num_orders mk mv clk = Inr (sys, fst (mk instrs c), w)"
      "loaded pool_size 1 instrs 1 (fst (mk instrs c) @ []) sys"
    using load_orders_loaded [OF num(1) zero_less_one num(2,3), of mk num_orders mv clk] mk(1,3)
    unfolding instrs_def append_Nil2 by blast
  let ?cmds = "fst (mk instrs c)"
  have all: "length (about x ?cmds) \<le> quota" for x by (rule quota_all) (use mk in blast)+
  have stop: "no_shutdown (?cmds @ [])" unfolding no_shutdown_def append_Nil2 using mk(3) by (metis command_type.distinct(5))
  have known: "\<forall>cmd \<in> set (?cmds @ []). ord_instrument (cmd_order cmd) \<in> set instrs" unfolding append_Nil2 using mk(3) by blast
  obtain books where b: "run_alone mv visit (sys, ?cmds, w) = Inr (concat (map report_line (visit books)))"
      "map fst books = instrs" "fed ?cmds [] books"
    using run_alone_result [where mv = mv and visit = visit and rec = ?cmds and w = w, OF load(2) _ stop mk(2) known stages(1) [OF _ all]] bench_instruments_distinct(1)
    unfolding instrs_def by auto
  have keys: "distinct (map fst books)" using b(2) bench_instruments_distinct(1) by (simp add: instrs_def)
  have "report_line y = line (fst y)" if y: "y \<in> set (visit books)" for y
  proof -
    obtain x ob where xo: "y = (x, ob)" by fastforce
    have y': "(x, ob) \<in> set books" using y visit xo by (metis set_mset_mset)
    then have x: "x \<in> set instrs" using b(2) by (metis fst_conv imageI set_map)
    have "map_of books x = Some ob" using y' keys by simp
    then have "stage x quota 0 ob" using b(3) mk(4) [OF x, of c] by (auto simp: fed_def about_def)
    then show ?thesis using stages(2) [OF x] xo by simp
  qed
  then have lines: "map report_line (visit books) = map line (map fst (visit books))" by simp
  have "mset (map fst (visit books)) = mset instrs" using visit b(2) by (metis mset_map)
  moreover have "rbind (load_orders pool_size num_instruments 1 num_orders mk mv clk) (run_alone mv visit) =
      Inr (concat (map line (map fst (visit books))))"
    unfolding load(1) rbind_Inr b(1) lines ..
  ultimately show ?thesis by blast
qed

end

end
