(* ===== verification/Driver_Threads.thy ===== *)
theory Driver_Threads
  imports Drivers
begin

text \<open>
  \<open>src/src/bench_match20_m.cpp\<close> and \<open>src/src/bench_insert_m.cpp\<close>: the orders are submitted first; then the
  main thread starts a thread for each worker, submits the SHUTDOWNs while they run, and joins them. This
  is a step relation in which the main thread and the workers that have not stopped take turns in any
  order. A step of the main thread is one round of the inner loop of \<open>submit_all_shutdown_commands\<close>; a
  step of a worker is one turn of the loop in \<open>Worker::run\<close>. \<open>launch\<close> has the workers constructed, although
  each thread constructs its own: the constructor only moves the books out of the context of its worker,
  which no other thread touches.
\<close>

section \<open>The threads\<close>

record driver =
  dr_trading :: trading
  dr_shutdown :: shutdown_state
  dr_pos :: nat

text \<open>The counter of the inner loop is \<open>dr_pos\<close>. The log starts with what is in the queues.\<close>

definition launch :: "order_routing_system \<times> order_command list \<times> world \<Rightarrow> driver" where
  "launch = (\<lambda>(sys, _, w).
     let n = length (ors_worker_contexts sys) in
     \<lparr>dr_trading = (start_trading sys w)\<lparr>tr_log := concat (map (\<lambda>k. map (Pair k) (pending sys k)) [0..<n])\<rparr>,
      dr_shutdown = \<lparr>sd_attempts = 0, sd_submitted = replicate n False, sd_count = 0, sd_clock = wd_clock w,
                     sd_queues = map wc_queue (ors_worker_contexts sys)\<rparr>,
      dr_pos = 0\<rparr>)"

definition main_turn :: "driver \<Rightarrow> driver result" where
  "main_turn d =
     (let s = dr_trading d; sd = dr_shutdown d; i = dr_pos d; n = workers_number s in
      if i < n then
        if sd_submitted sd ! i then Inr (d\<lparr>dr_pos := i + 1\<rparr>)
        else rbind (shutdown_attempt (\<lambda>_ k _. queue_of s k) i sd) (\<lambda>sd'.
          Inr \<lparr>dr_trading = s\<lparr>tr_system := set_queue i (sd_queues sd' ! i) (tr_system s),
                 tr_log := (if sd_submitted sd' ! i then tr_log s @ [(i, shutdown_command (now (sd_clock sd)))] else tr_log s)\<rparr>,
               dr_shutdown = sd', dr_pos = i + 1\<rparr>)
      else if sd_count sd = n then Inr d
      else Inr (d\<lparr>dr_pos := 0\<rparr>))"

definition thread_turn :: "(instrument \<Rightarrow> instrument) \<Rightarrow> nat \<Rightarrow> driver \<Rightarrow> driver result" where
  "thread_turn mv k d = rbind (worker_turn mv k (dr_trading d)) (\<lambda>(_, s). Inr (d\<lparr>dr_trading := s\<rparr>))"

abbreviation running :: "nat \<Rightarrow> driver \<Rightarrow> bool" where
  "running k d \<equiv> k < workers_number (dr_trading d) \<and> \<not> tr_stopped (dr_trading d) ! k"

inductive driver_step :: "(instrument \<Rightarrow> instrument) \<Rightarrow> driver \<Rightarrow> driver \<Rightarrow> bool" for mv where
  main_runs: "main_turn d = Inr d' \<Longrightarrow> driver_step mv d d'"
| worker_runs: "running k d \<Longrightarrow> thread_turn mv k d = Inr d' \<Longrightarrow> driver_step mv d d'"
| time_passes: "driver_step mv d (d\<lparr>dr_trading := (dr_trading d)\<lparr>tr_world := (tr_world (dr_trading d))\<lparr>wd_clock := c\<rparr>\<rparr>,
    dr_shutdown := (dr_shutdown d)\<lparr>sd_clock := c'\<rparr>\<rparr>)"

text \<open>The main thread has returned from \<open>submit_all_shutdown_commands\<close>, and every thread can be joined.\<close>

definition joined :: "driver \<Rightarrow> bool" where
  "joined d \<longleftrightarrow> dr_pos d = workers_number (dr_trading d) \<and> sd_count (dr_shutdown d) = workers_number (dr_trading d) \<and>
     (\<forall>k < workers_number (dr_trading d). tr_stopped (dr_trading d) ! k)"

text \<open>
  An execution that goes on for ever, in which the scheduler is fair: again and again the main thread gets
  its turn, and so does each worker, unless it has stopped. A thread that has nothing to do takes idle turns.
\<close>

definition fair_run :: "(instrument \<Rightarrow> instrument) \<Rightarrow> driver \<Rightarrow> (nat \<Rightarrow> driver) \<Rightarrow> bool" where
  "fair_run mv d r \<longleftrightarrow> r 0 = d \<and> (\<forall>i. driver_step mv (r i) (r (Suc i))) \<and>
     (\<forall>i. \<exists>j \<ge> i. main_turn (r j) = Inr (r (Suc j))) \<and>
     (\<forall>k i. \<exists>j \<ge> i. running k (r j) \<longrightarrow> thread_turn mv k (r j) = Inr (r (Suc j)))"

text \<open>The threads in turn, worker after worker, the main thread first.\<close>

definition turn_of :: "(instrument \<Rightarrow> instrument) \<Rightarrow> nat \<Rightarrow> driver \<Rightarrow> driver result" where
  "turn_of mv t d = (case t of 0 \<Rightarrow> main_turn d | Suc k \<Rightarrow> if running k d then thread_turn mv k d else main_turn d)"

primrec round_robin :: "(instrument \<Rightarrow> instrument) \<Rightarrow> nat \<Rightarrow> driver \<Rightarrow> nat \<Rightarrow> driver" where
  "round_robin mv n d 0 = d"
| "round_robin mv n d (Suc i) =
     (let d' = round_robin mv n d i in case turn_of mv (i mod Suc n) d' of Inl _ \<Rightarrow> d' | Inr d'' \<Rightarrow> d'')"

text \<open>
  No thread can fault; there are fair executions, taking turns being one, and each of them comes to the
  point where every thread can be joined.
\<close>

definition runs_safely :: "(instrument \<Rightarrow> instrument) \<Rightarrow> driver \<Rightarrow> bool" where
  "runs_safely mv d \<longleftrightarrow> (\<exists>d'. main_turn d = Inr d') \<and> (\<forall>k. running k d \<longrightarrow> (\<exists>d'. thread_turn mv k d = Inr d')) \<and>
     fair_run mv d (round_robin mv (workers_number (dr_trading d)) d) \<and> (\<forall>r. fair_run mv d r \<longrightarrow> (\<exists>i. joined (r i)))"

text \<open>The worker \<open>k\<close> has left nothing in its queue, and reports the lines \<open>lines\<close>.\<close>

definition reports :: "nat \<Rightarrow> string list \<Rightarrow> driver \<Rightarrow> bool" where
  "reports k lines d \<longleftrightarrow> pending (tr_system (dr_trading d)) k = [] \<and>
     map report_line (tr_workers (dr_trading d) ! k) = lines"

section \<open>The main thread\<close>

definition sent :: "nat \<Rightarrow> instrument list \<Rightarrow> nat \<Rightarrow> order_command list \<Rightarrow> order_command list" where
  "sent n instrs k = filter (\<lambda>cmd. first_worker n 0 instrs (ord_instrument (cmd_order cmd)) = Some k)"

text \<open>The first pass finds room in every queue: there is no second one.\<close>

definition main_inv :: "nat \<Rightarrow> instrument list \<Rightarrow> order_command list \<Rightarrow> driver \<Rightarrow> bool" where
  "main_inv n instrs cmds d \<longleftrightarrow> dr_pos d \<le> n \<and> workers_number (dr_trading d) = n \<and>
     sd_submitted (dr_shutdown d) = replicate (dr_pos d) True @ replicate (n - dr_pos d) False \<and>
     sd_count (dr_shutdown d) = dr_pos d \<and> length (sd_queues (dr_shutdown d)) = n \<and>
     (\<forall>k < n. dr_pos d \<le> k \<longrightarrow> for_worker k (tr_log (dr_trading d)) = sent n instrs k cmds \<and> 0 < room_of (tr_system (dr_trading d)) k) \<and>
     (\<forall>k < dr_pos d. \<exists>t. for_worker k (tr_log (dr_trading d)) = sent n instrs k cmds @ [shutdown_command t])"

lemma marks_nth: "j < n \<Longrightarrow> (replicate i True @ replicate (n - i) False) ! j = (j < i)"
  by (simp add: nth_append)

lemma replicate_mark:
  assumes "i < n"
  shows "(replicate i True @ replicate (n - i) False)[i := True] = replicate (i + 1) True @ replicate (n - (i + 1)) False"
    "\<not> (replicate i True @ replicate (n - i) False) ! i"
proof -
  show "(replicate i True @ replicate (n - i) False)[i := True] = replicate (i + 1) True @ replicate (n - (i + 1)) False"
  proof (rule nth_equalityI)
    fix j
    assume "j < length ((replicate i True @ replicate (n - i) False)[i := True])"
    then have j: "j < n" using assms by simp
    then show "(replicate i True @ replicate (n - i) False)[i := True] ! j = (replicate (i + 1) True @ replicate (n - (i + 1)) False) ! j"
      unfolding marks_nth [OF j] using assms marks_nth [OF j, of i] by (cases "i = j") auto
  qed (use assms in simp)
qed (use assms marks_nth in blast)

lemma main_turn_pushes:
  assumes inv: "main_inv n instrs cmds d" and q: "queues_ok (tr_system (dr_trading d))" and pos: "dr_pos d < n"
  obtains sd q t where "main_turn d = Inr \<lparr>dr_trading = (dr_trading d)\<lparr>tr_system := set_queue (dr_pos d) q (tr_system (dr_trading d)),
        tr_log := tr_log (dr_trading d) @ [(dr_pos d, shutdown_command t)]\<rparr>, dr_shutdown = sd, dr_pos = dr_pos d + 1\<rparr>"
    "spsc_push (shutdown_command t) (queue_of (dr_trading d) (dr_pos d)) = Inr (True, q)" "length (sd_queues sd) = n"
    "sd_count sd = dr_pos d + 1" "sd_submitted sd = replicate (dr_pos d + 1) True @ replicate (n - (dr_pos d + 1)) False"
proof -
  let ?s = "dr_trading d" and ?sd = "dr_shutdown d" and ?i = "dr_pos d"
  let ?t = "now (sd_clock ?sd)"
  have n: "workers_number ?s = n" "length (sd_queues ?sd) = n" "sd_count ?sd = ?i" "0 < room_of (tr_system ?s) ?i"
    and sub: "sd_submitted ?sd = replicate ?i True @ replicate (n - ?i) False"
    using inv pos by (simp_all add: main_inv_def)
  have "spsc_inv (queue_of ?s ?i)" using queues_ok_at [OF q] pos n(1) by simp
  from spsc.put_ok [OF this n(4)] obtain q where q: "spsc_push (shutdown_command ?t) (queue_of ?s ?i) = Inr (True, q)" by blast
  note new = replicate_mark(1) [OF pos, folded sub] and old = replicate_mark(2) [OF pos, folded sub]
  let ?sd' = "?sd\<lparr>sd_attempts := Suc (sd_attempts ?sd), sd_submitted := (sd_submitted ?sd)[?i := True],
    sd_count := sd_count ?sd + 1, sd_clock := later 1 (sd_clock ?sd), sd_queues := (sd_queues ?sd)[?i := q]\<rparr>"
  have "shutdown_attempt (\<lambda>_ k _. queue_of ?s k) ?i ?sd = Inr ?sd'" using q by (simp add: shutdown_attempt_def)
  moreover have "?i < length (sd_submitted ?sd)" using pos by (simp add: sub)
  ultimately have "main_turn d = Inr \<lparr>dr_trading = ?s\<lparr>tr_system := set_queue ?i q (tr_system ?s),
        tr_log := tr_log ?s @ [(?i, shutdown_command ?t)]\<rparr>, dr_shutdown = ?sd', dr_pos = ?i + 1\<rparr>"
    using pos n(1,2) old by (simp add: main_turn_def Let_def)
  from that [OF this q] show ?thesis using n(2,3) new by simp
qed

section \<open>The workers\<close>

lemma turn_room:
  assumes "flight_inv s" "k < workers_number s" "worker_turn mv k s = Inr (popped, s')" "j < workers_number s"
  shows "room_of (tr_system s) j \<le> room_of (tr_system s') j"
proof -
  have q: "spsc_inv (queue_of s k)" using assms(1,2) by (simp add: flight_inv_def queues_ok_def)
  obtain x q' where p: "spsc_pop (moved_command mv) (queue_of s k) = Inr (x, q')" "tr_system s' = set_queue k q' (tr_system s)"
    using worker_turn_pop [OF assms(3)] .
  have "spsc_room (queue_of s k) \<le> spsc_room q'"
  proof (cases "spsc_items (queue_of s k)")
    case Nil
    then show ?thesis using spsc.get_empty [OF q Nil, of "moved_command mv"] p(1) by simp
  next
    case (Cons y ys)
    then show ?thesis using spsc.get_ok [OF q Cons, of "moved_command mv"] p(1) by auto
  qed
  then show ?thesis using p(2) assms(2) by (simp add: set_queue_at)
qed

lemma for_worker_log:
  "for_worker k (concat (map (\<lambda>j. map (Pair j) (f j)) [0..<n])) = (if k < n then f k else [])"
proof (induction n)
  case (Suc n)
  have "for_worker k (map (Pair j) cmds) = (if j = k then cmds else [])" for j cmds
    by (induction cmds) (auto simp: for_worker_def)
  then show ?case using Suc by (auto simp: less_Suc_eq)
qed simp

lemma about_sent: "about x (sent n instrs k cmds) = (if first_worker n 0 instrs x = Some k then about x cmds else [])"
  by (induction cmds) (auto simp: about_def sent_def)

lemma about_shutdown [simp]: "about x [shutdown_command t] = []"
  by (simp add: about_def shutdown_command_def)

context order_stream
begin

lemma admitted_sent: "admitted cmds \<Longrightarrow> admitted (sent n instrs k cmds)"
  by (simp add: admitted_def about_sent)

lemma admitted_about: "(\<And>x. about x as = about x bs) \<Longrightarrow> admitted as = admitted bs"
  by (simp add: admitted_def)

definition threads_inv :: "nat \<Rightarrow> instrument list \<Rightarrow> order_command list \<Rightarrow> driver \<Rightarrow> bool" where
  "threads_inv n instrs cmds d \<longleftrightarrow> main_inv n instrs cmds d \<and> flight_inv (dr_trading d) \<and>
     (\<forall>k < n. map fst (tr_workers (dr_trading d) ! k) = share n k 0 instrs \<and>
        fed (for_worker k (tr_done (dr_trading d))) (pending (tr_system (dr_trading d)) k) (tr_workers (dr_trading d) ! k))"

lemma sent_log:
  assumes "main_inv n instrs cmds d" "k < n"
  shows "for_worker k (tr_log (dr_trading d)) = sent n instrs k cmds \<or>
    (\<exists>t. for_worker k (tr_log (dr_trading d)) = sent n instrs k cmds @ [shutdown_command t])"
  using assms by (cases "k < dr_pos d") (auto simp: main_inv_def)

text \<open>The next command that a worker takes out is one that its books are prepared for.\<close>

lemma next_ok:
  assumes inv: "threads_inv n instrs cmds d" and adm: "admitted cmds" and k: "k < n"
    and cmd: "pending (tr_system (dr_trading d)) k = cmd # coming" "cmd_type cmd \<noteq> SHUTDOWN"
  obtains c cmd' w books where "process_command mv cmd (tr_world (dr_trading d), tr_workers (dr_trading d) ! k) = Inr (c, cmd', w, books)"
    "fed (for_worker k (tr_done (dr_trading d)) @ [cmd]) coming books"
proof -
  let ?s = "dr_trading d"
  have m: "main_inv n instrs cmds d" "flight_inv ?s" "workers_number ?s = n"
    and fed: "fed (for_worker k (tr_done ?s)) (cmd # coming) (tr_workers ?s ! k)"
    using inv k cmd(1) by (auto simp: threads_inv_def main_inv_def)
  have log: "for_worker k (tr_log ?s) = for_worker k (tr_done ?s) @ cmd # coming"
    using m(2,3) k cmd(1) by (simp add: flight_inv_def)
  have "admitted (for_worker k (tr_log ?s))"
    using sent_log [OF m(1) k] admitted_sent [OF adm, of n instrs k]
      admitted_about [of "sent n instrs k cmds @ [shutdown_command t]" "sent n instrs k cmds" for t] by fastforce
  note add = admitted_next [OF this [unfolded log] cmd(2)]
  show ?thesis by (rule fed_next [OF fed add]) (rule that)
qed

text \<open>A worker that runs does not fault.\<close>

lemma turn_runs:
  assumes inv: "threads_inv n instrs cmds d" and adm: "admitted cmds" and k: "running k d"
  obtains popped s where "worker_turn mv k (dr_trading d) = Inr (popped, s)"
proof -
  let ?s = "dr_trading d"
  have m: "flight_inv ?s" "k < n" using inv k by (auto simp: threads_inv_def main_inv_def)
  have q: "spsc_inv (queue_of ?s k)" using m(1) k by (simp add: flight_inv_def queues_ok_def)
  show ?thesis
  proof (cases "pending (tr_system ?s) k")
    case Nil
    then have "spsc_pop (moved_command mv) (queue_of ?s k) = Inr (None, queue_of ?s k)"
      using spsc.get_empty [OF q] by (simp add: pending_def)
    then show ?thesis using that by (simp add: worker_turn_defs)
  next
    case (Cons cmd coming)
    obtain q' where q': "spsc_pop (moved_command mv) (queue_of ?s k) = Inr (Some cmd, q')"
      using spsc.get_ok [OF q Cons [unfolded pending_def]] by blast
    show ?thesis
    proof (cases "cmd_type cmd = SHUTDOWN")
      case True
      then show ?thesis using that q' by (simp add: worker_turn_defs)
    next
      case False
      obtain c cmd' w books where "process_command mv cmd (tr_world ?s, tr_workers ?s ! k) = Inr (c, cmd', w, books)"
        by (rule next_ok [OF inv adm m(2) Cons False])
      then show ?thesis using that q' False by (simp add: worker_turn_defs)
    qed
  qed
qed

lemma fed_shutdown [simp]:
  "fed past (coming @ [shutdown_command t]) books = fed past coming books"
  "cmd_type stop = SHUTDOWN \<Longrightarrow> fed (past @ [stop]) coming books = fed past (stop # coming) books"
  by (simp_all add: fed_def) (simp add: about_def)

lemma main_keeps:
  assumes inv: "threads_inv n instrs cmds d" and turn: "main_turn d = Inr d'"
  shows "threads_inv n instrs cmds d'"
proof (cases "dr_pos d = n")
  case True
  then show ?thesis using assms by (simp add: threads_inv_def main_inv_def main_turn_def Let_def)
next
  case False
  let ?s = "dr_trading d" and ?i = "dr_pos d"
  have m: "main_inv n instrs cmds d" "flight_inv ?s" "workers_number ?s = n" "?i < n"
    and ks: "\<forall>k < n. map fst (tr_workers ?s ! k) = share n k 0 instrs \<and>
        fed (for_worker k (tr_done ?s)) (pending (tr_system ?s) k) (tr_workers ?s ! k)"
    using inv False by (auto simp: threads_inv_def main_inv_def)
  have qs: "queues_ok (tr_system ?s)" using m(2) by (simp add: flight_inv_def)
  obtain sd q t where d: "main_turn d = Inr \<lparr>dr_trading = ?s\<lparr>tr_system := set_queue ?i q (tr_system ?s),
        tr_log := tr_log ?s @ [(?i, shutdown_command t)]\<rparr>, dr_shutdown = sd, dr_pos = ?i + 1\<rparr>"
      "spsc_push (shutdown_command t) (queue_of ?s ?i) = Inr (True, q)" "length (sd_queues sd) = n"
      "sd_count sd = ?i + 1" "sd_submitted sd = replicate (?i + 1) True @ replicate (n - (?i + 1)) False"
    by (rule main_turn_pushes [OF m(1) qs m(4)])
  have "0 < spsc_room (queue_of ?s ?i)" "spsc_inv (queue_of ?s ?i)"
    using m(1,3,4) queues_ok_at [OF qs] by (simp_all add: main_inv_def)
  from spsc.put_ok [OF this(2,1), of "shutdown_command t"] d(2)
  have items: "spsc_items q = pending (tr_system ?s) ?i @ [shutdown_command t]" by (auto simp: pending_def)
  have d': "d' = \<lparr>dr_trading = ?s\<lparr>tr_system := set_queue ?i q (tr_system ?s),
        tr_log := tr_log ?s @ [(?i, shutdown_command t)]\<rparr>, dr_shutdown = sd, dr_pos = ?i + 1\<rparr>" using turn d(1) by simp
  have flight: "flight_inv (dr_trading d')" using flight_shutdown [OF m(2) _ d(2)] m(3,4) d' by simp
  have "main_inv n instrs cmds d'" using m(1,3,4) d(3-5) by (auto simp: d' main_inv_def set_queue_at less_Suc_eq)
  moreover have "map fst (tr_workers (dr_trading d') ! k) = share n k 0 instrs \<and>
      fed (for_worker k (tr_done (dr_trading d'))) (pending (tr_system (dr_trading d')) k) (tr_workers (dr_trading d') ! k)" if "k < n" for k
    using ks [rule_format, OF that] m(3,4) items by (cases "k = ?i") (simp_all add: d')
  ultimately show ?thesis using flight by (simp add: threads_inv_def)
qed

lemma thread_keeps:
  assumes inv: "threads_inv n instrs cmds d" and adm: "admitted cmds" and k: "running k d"
    and turn: "worker_turn mv k (dr_trading d) = Inr (popped, s)"
  shows "threads_inv n instrs cmds (d\<lparr>dr_trading := s\<rparr>)"
proof -
  let ?s = "dr_trading d"
  have m: "main_inv n instrs cmds d" "flight_inv ?s" "workers_number ?s = n" "k < n"
    using inv k by (auto simp: threads_inv_def main_inv_def)
  have kn: "k < workers_number ?s" "\<not> tr_stopped ?s ! k" using k by simp_all
  have flight: "flight_inv s" by (rule flight_works [OF m(2) kn turn])
  have len: "k < length (tr_workers ?s)" using m(2) kn(1) by (simp add: flight_inv_def)
  have same: "workers_number s = n \<and> tr_log s = tr_log ?s \<and>
    (\<forall>j < n. map fst (tr_workers s ! j) = map fst (tr_workers ?s ! j) \<and>
      (fed (for_worker j (tr_done ?s)) (pending (tr_system ?s) j) (tr_workers ?s ! j) \<longrightarrow>
       fed (for_worker j (tr_done s)) (pending (tr_system s) j) (tr_workers s ! j)))"
    using m(2) kn(1) turn
  proof (cases rule: worker_turn_pops)
    case nothing
    then show ?thesis using m(3) by simp
  next
    case (stops cmd q)
    then show ?thesis using m(3,4) by simp
  next
    case (performs cmd q c cmd' w books)
    have "map fst books = map fst (tr_workers ?s ! k)"
      by (rule process_command_keys [OF performs(5)])
    moreover have "fed (for_worker k (tr_done ?s) @ [cmd]) (spsc_items q) books"
      by (rule next_ok [OF inv adm m(4) performs(4,2), of mv]) (use performs(5) in simp)
    ultimately show ?thesis unfolding performs(6) using m(3,4) len by (simp add: nth_list_update)
  qed
  have "room_of (tr_system ?s) j \<le> room_of (tr_system s) j" if "j < n" for j
    using turn_room [OF m(2) kn(1) turn] m(3) that by simp
  then have "main_inv n instrs cmds (d\<lparr>dr_trading := s\<rparr>)"
    using m(1) same unfolding main_inv_def by (auto intro: less_le_trans)
  moreover have "\<forall>j < n. map fst (tr_workers s ! j) = share n j 0 instrs \<and>
      fed (for_worker j (tr_done s)) (pending (tr_system s) j) (tr_workers s ! j)"
    using inv same by (auto simp: threads_inv_def)
  ultimately show ?thesis using flight by (simp add: threads_inv_def)
qed

lemma driver_step_keeps: "driver_step mv d d' \<Longrightarrow> admitted cmds \<Longrightarrow> threads_inv n instrs cmds d \<Longrightarrow> threads_inv n instrs cmds d'"
proof (induction rule: driver_step.induct)
  case (main_runs d d')
  then show ?case using main_keeps by blast
next
  case (worker_runs k d d')
  then obtain popped s where "worker_turn mv k (dr_trading d) = Inr (popped, s)" "d' = d\<lparr>dr_trading := s\<rparr>"
    by (auto simp: thread_turn_def rbind_eq_Inr)
  then show ?case using thread_keeps worker_runs by blast
next
  case (time_passes d c c')
  then show ?case by (simp add: threads_inv_def main_inv_def)
qed

lemma reach_keeps: "(driver_step mv)\<^sup>*\<^sup>* d d' \<Longrightarrow> admitted cmds \<Longrightarrow> threads_inv n instrs cmds d \<Longrightarrow> threads_inv n instrs cmds d'"
  by (induction rule: rtranclp_induct) (auto intro: driver_step_keeps)

lemma launch_inv:
  assumes load: "loaded pool_size 1 instrs n cmds sys" and "distinct instrs"
    "\<And>x ob k. fresh_book pool_size 1000000 ob \<Longrightarrow> k \<le> length (about x cmds) \<Longrightarrow> stage x 0 k ob"
  shows "threads_inv n instrs cmds (launch (sys, rec, w))"
proof -
  let ?d = "launch (sys, rec, w)"
  have n: "length (ors_worker_contexts sys) = n" "routing_ok sys" "queues_ok sys"
    using load by (simp_all add: loaded_def)
  have router: "map_of (ors_instrument_router sys) x = first_worker n 0 instrs x" for x using load by (simp add: loaded_def)
  then have routed: "routed sys k cmds = sent n instrs k cmds" for k by (simp add: routed_def sent_def)
  have ks: "map ob_instrument (wc_orderbooks (ors_worker_contexts sys ! k)) = share n k 0 instrs"
      "\<forall>ob \<in> set (wc_orderbooks (ors_worker_contexts sys ! k)). fresh_book pool_size 1000000 ob"
      "pending sys k = sent n instrs k cmds" "0 < room_of sys k" if "k < n" for k
    using load that routed by (auto simp: loaded_def)
  have dist: "distinct (map ob_instrument (wc_orderbooks (ors_worker_contexts sys ! k)))" if "k < n" for k
    using ks(1) [OF that] distinct_share [OF assms(2)] by simp
  have log: "for_worker k (tr_log (dr_trading ?d)) = sent n instrs k cmds" if "k < n" for k
    using for_worker_log [of k "pending sys" n] that ks(3) by (simp add: launch_def n(1) Let_def)
  have "cmd_type cmd = SHUTDOWN \<or> map_of (ors_instrument_router sys) (ord_instrument (cmd_order cmd)) = Some k"
    if "(k, cmd) \<in> set (tr_log (dr_trading ?d))" for k cmd
    using that ks(3) router by (auto simp: launch_def n(1) Let_def sent_def)
  then have flight: "flight_inv (dr_trading ?d)"
    using log ks(3) n(2,3) by (auto simp: flight_inv_def launch_def start_trading_def n(1) Let_def)
  have main: "main_inv n instrs cmds ?d"
    using log ks(4) by (simp add: main_inv_def launch_def start_trading_def n(1) Let_def)
  have "map fst (new_worker (ors_worker_contexts sys ! k)) = share n k 0 instrs \<and>
      fed [] (sent n instrs k cmds) (new_worker (ors_worker_contexts sys ! k))" if "k < n" for k
    using new_worker_distinct [OF dist [OF that]] ks(1) [OF that] fed_fresh [OF ks(2) [OF that], of "sent n instrs k cmds"] assms(3)
    by (simp add: about_sent comp_def)
  then show ?thesis using flight main ks(3)
    by (simp add: threads_inv_def) (simp add: launch_def start_trading_def n(1) Let_def)
qed

text \<open>What a worker that has stopped leaves.\<close>

lemma stopped_result:
  assumes inv: "threads_inv n instrs cmds d" and "distinct instrs" "no_shutdown cmds" and k: "k < n" "tr_stopped (dr_trading d) ! k"
  shows "pending (tr_system (dr_trading d)) k = []"
    "\<forall>(x, ob) \<in> set (tr_workers (dr_trading d) ! k). stage x (length (about x cmds)) 0 ob"
proof -
  let ?s = "dr_trading d"
  have m: "main_inv n instrs cmds d" "flight_inv ?s" "workers_number ?s = n"
    and books: "map fst (tr_workers ?s ! k) = share n k 0 instrs" "fed (for_worker k (tr_done ?s)) (pending (tr_system ?s) k) (tr_workers ?s ! k)"
    using inv k by (auto simp: threads_inv_def main_inv_def flight_inv_def)
  obtain past stop where past: "for_worker k (tr_done ?s) = past @ [stop]" "cmd_type stop = SHUTDOWN" "no_shutdown past"
    using flight_stopped [OF m(2) _ k(2)] m(3) k(1) by auto
  have log: "for_worker k (tr_log ?s) = past @ stop # pending (tr_system ?s) k"
    using m(2,3) k(1) past(1) by (simp add: flight_inv_def)
  have none: "no_shutdown (sent n instrs k cmds)" using assms(3) by (auto simp: no_shutdown_def sent_def)
  have "\<not> no_shutdown (past @ stop # pending (tr_system ?s) k)" using past(2) by simp
  then obtain t where t: "past @ stop # pending (tr_system ?s) k = sent n instrs k cmds @ [shutdown_command t]"
    using sent_log [OF m(1) k(1)] log none by metis
  show empty: "pending (tr_system ?s) k = []"
  proof (cases "pending (tr_system ?s) k" rule: rev_cases)
    case (snoc coming cmd)
    then have "sent n instrs k cmds = past @ stop # coming" using t by simp
    then show ?thesis using none past(2) by simp
  qed
  have took: "for_worker k (tr_done ?s) = sent n instrs k cmds @ [shutdown_command t]" using t past(1) empty by simp
  show "\<forall>(x, ob) \<in> set (tr_workers ?s ! k). stage x (length (about x cmds)) 0 ob"
  proof (clarify)
    fix x ob
    assume xo: "(x, ob) \<in> set (tr_workers ?s ! k)"
    have "distinct (map fst (tr_workers ?s ! k))" unfolding books(1) by (rule distinct_share [OF assms(2)])
    then have at: "map_of (tr_workers ?s ! k) x = Some ob" using xo by simp
    have "x \<in> set (share n k 0 instrs)" using xo books(1) by (metis fst_conv image_eqI set_map)
    then have "first_worker n 0 instrs x = Some k" by (rule share_unique [OF assms(2)])
    then have "about x (for_worker k (tr_done ?s)) = about x cmds" unfolding took by (simp add: about_sent)
    then show "stage x (length (about x cmds)) 0 ob"
      using books(2) [unfolded fed_def, rule_format, OF at] empty by (simp add: about_def)
  qed
qed

text \<open>What is left to be done: a round of the main thread puts one command into a queue.\<close>

definition to_do :: "driver \<Rightarrow> nat" where
  "to_do d = 2 * (workers_number (dr_trading d) - dr_pos d) +
     (\<Sum>k < workers_number (dr_trading d). length (pending (tr_system (dr_trading d)) k))"

lemma sum_change:
  fixes f g :: "nat \<Rightarrow> nat"
  assumes "k < n" "\<And>j. j \<noteq> k \<Longrightarrow> f j = g j"
  shows "sum f {..<n} + g k = sum g {..<n} + f k"
proof -
  have "sum f ({..<n} - {k}) = sum g ({..<n} - {k})" using assms(2) by (intro sum.cong) auto
  then show ?thesis using assms(1) by (simp add: sum.remove [of "{..<n}" k])
qed

lemma turn_drains:
  assumes "flight_inv s" "k < workers_number s" "worker_turn mv k s = Inr (popped, s')" "pending (tr_system s) k \<noteq> []"
  shows "workers_number s' = workers_number s" "Suc (length (pending (tr_system s') k)) = length (pending (tr_system s) k)"
    "j \<noteq> k \<Longrightarrow> pending (tr_system s') j = pending (tr_system s) j"
  by (rule worker_turn_pops [OF assms(1-3)]; use assms(2,4) in auto)+

lemma main_runs_on:
  assumes inv: "threads_inv n instrs cmds d"
  shows "\<exists>d'. main_turn d = Inr d'"
proof (cases "dr_pos d < n")
  case True
  have "main_inv n instrs cmds d" "queues_ok (tr_system (dr_trading d))" using inv by (simp_all add: threads_inv_def flight_inv_def)
  from main_turn_pushes [OF this True] show ?thesis by metis
next
  case False
  then show ?thesis using inv by (simp add: threads_inv_def main_inv_def main_turn_def Let_def)
qed

lemma main_drains:
  assumes inv: "threads_inv n instrs cmds d" and pos: "dr_pos d < n" and turn: "main_turn d = Inr d'"
  shows "to_do d' < to_do d"
proof -
  let ?s = "dr_trading d" and ?i = "dr_pos d"
  have m: "main_inv n instrs cmds d" "workers_number ?s = n" and qs: "queues_ok (tr_system ?s)"
    using inv by (auto simp: threads_inv_def main_inv_def flight_inv_def)
  obtain sd q t where d: "main_turn d = Inr \<lparr>dr_trading = ?s\<lparr>tr_system := set_queue ?i q (tr_system ?s),
        tr_log := tr_log ?s @ [(?i, shutdown_command t)]\<rparr>, dr_shutdown = sd, dr_pos = ?i + 1\<rparr>"
      and push: "spsc_push (shutdown_command t) (queue_of ?s ?i) = Inr (True, q)"
    by (rule main_turn_pushes [OF m(1) qs pos])
  have "0 < spsc_room (queue_of ?s ?i)" "spsc_inv (queue_of ?s ?i)"
    using m pos queues_ok_at [OF qs] by (simp_all add: main_inv_def)
  from spsc.put_ok [OF this(2,1), of "shutdown_command t"] push
  have items: "length (spsc_items q) = Suc (length (pending (tr_system ?s) ?i))" by (auto simp: pending_def simp del: spsc_items_length)
  have "(\<Sum>k < n. length (pending (set_queue ?i q (tr_system ?s)) k)) = Suc (\<Sum>k < n. length (pending (tr_system ?s) k))"
    using sum_change [OF pos, of "\<lambda>k. length (pending (set_queue ?i q (tr_system ?s)) k)" "\<lambda>k. length (pending (tr_system ?s) k)"]
      m(2) pos items by (simp del: spsc_items_length)
  then show ?thesis using d turn m(2) pos by (auto simp: to_do_def)
qed

lemma thread_drains:
  assumes inv: "threads_inv n instrs cmds d" and k: "running k d" and more: "pending (tr_system (dr_trading d)) k \<noteq> []"
    and turn: "thread_turn mv k d = Inr d'"
  shows "to_do d' < to_do d"
proof -
  let ?s = "dr_trading d"
  have m: "flight_inv ?s" "workers_number ?s = n" "k < n" using inv k by (auto simp: threads_inv_def main_inv_def)
  obtain popped s where t: "worker_turn mv k ?s = Inr (popped, s)" "d' = d\<lparr>dr_trading := s\<rparr>"
    using turn by (auto simp: thread_turn_def rbind_eq_Inr)
  note drains = turn_drains [OF m(1) conjunct1 [OF k] t(1) more]
  have "(\<Sum>j < n. length (pending (tr_system s) j)) < (\<Sum>j < n. length (pending (tr_system ?s) j))"
    using sum_change [OF m(3), of "\<lambda>j. length (pending (tr_system s) j)" "\<lambda>j. length (pending (tr_system ?s) j)"] drains(2,3) by simp
  then show ?thesis using drains(1) m(2) t(2) by (simp add: to_do_def)
qed

text \<open>Once all SHUTDOWNs have been submitted, a worker that runs has a command in its queue.\<close>

lemma more_to_take:
  assumes inv: "threads_inv n instrs cmds d" and pos: "dr_pos d = n" and k: "running k d"
  shows "pending (tr_system (dr_trading d)) k \<noteq> []"
proof -
  let ?s = "dr_trading d"
  have m: "main_inv n instrs cmds d" "flight_inv ?s" "k < n" using inv k by (auto simp: threads_inv_def main_inv_def)
  have "\<exists>t. for_worker k (tr_log ?s) = sent n instrs k cmds @ [shutdown_command t]" using m(1,3) pos by (simp add: main_inv_def)
  moreover have "for_worker k (tr_log ?s) = for_worker k (tr_done ?s) @ pending (tr_system ?s) k" "no_shutdown (for_worker k (tr_done ?s))"
    using m(2) k by (simp_all add: flight_inv_def)
  ultimately show ?thesis by (auto simp: shutdown_command_def)
qed

lemma not_joined:
  assumes inv: "threads_inv n instrs cmds d" and "\<not> joined d" "dr_pos d = n"
  obtains k where "k < n" "running k d"
  using assms by (auto simp: joined_def threads_inv_def main_inv_def)

lemma worker_runs_on:
  assumes inv: "threads_inv n instrs cmds d" and adm: "admitted cmds" and k: "running k d"
  shows "\<exists>d'. thread_turn mv k d = Inr d'"
  by (rule turn_runs [OF inv adm k, of mv]) (simp add: thread_turn_def)

text \<open>A step takes something off what is to be done, or changes nothing that matters.\<close>

lemma step_drains:
  assumes step: "driver_step mv d d'" and inv: "threads_inv n instrs cmds d"
  shows "to_do d' < to_do d \<or> (to_do d' = to_do d \<and> dr_pos d' = dr_pos d \<and>
    tr_stopped (dr_trading d') = tr_stopped (dr_trading d) \<and> workers_number (dr_trading d') = workers_number (dr_trading d) \<and>
    joined d' = joined d)"
  using step
proof (cases rule: driver_step.cases)
  case main_runs
  then show ?thesis
  proof (cases "dr_pos d < n")
    case True
    then show ?thesis using main_drains [OF inv] main_runs by simp
  next
    case False
    then have "d' = d" using inv main_runs by (simp add: threads_inv_def main_inv_def main_turn_def Let_def)
    then show ?thesis by simp
  qed
next
  case (worker_runs k)
  show ?thesis
  proof (cases "pending (tr_system (dr_trading d)) k")
    case Cons
    then show ?thesis using thread_drains [OF inv worker_runs(1) _ worker_runs(2)] by simp
  next
    case Nil
    obtain popped s where t: "worker_turn mv k (dr_trading d) = Inr (popped, s)" "d' = d\<lparr>dr_trading := s\<rparr>"
      using worker_runs(2) by (auto simp: thread_turn_def rbind_eq_Inr)
    have "flight_inv (dr_trading d)" using inv by (simp add: threads_inv_def)
    from this conjunct1 [OF worker_runs(1)] t(1) have "s = dr_trading d"
      by (cases rule: worker_turn_pops) (simp_all add: Nil)
    then show ?thesis using t(2) by simp
  qed
next
  case time_passes
  then show ?thesis by (simp add: to_do_def joined_def)
qed

lemma fair_run_ends:
  assumes run: "fair_run mv d r" and inv: "threads_inv n instrs cmds d" and adm: "admitted cmds"
  shows "\<exists>i. joined (r i)"
proof (rule ccontr)
  assume "\<nexists>i. joined (r i)"
  then have never: "\<not> joined (r i)" for i by blast
  have steps: "driver_step mv (r i) (r (Suc i))" for i using run by (simp add: fair_run_def)
  have invs: "threads_inv n instrs cmds (r i)" for i
    by (induction i) (use run inv driver_step_keeps [OF steps adm] in \<open>simp_all add: fair_run_def\<close>)
  obtain m where least: "\<And>i. to_do (r m) \<le> to_do (r i)" using ex_has_least_nat [of "\<lambda>_. True" _ "\<lambda>i. to_do (r i)"] by blast
  have still: "to_do (r j) = to_do (r m) \<and> dr_pos (r j) = dr_pos (r m) \<and>
      tr_stopped (dr_trading (r j)) = tr_stopped (dr_trading (r m)) \<and>
      workers_number (dr_trading (r j)) = workers_number (dr_trading (r m))" if "m \<le> j" for j
    using that
  proof (induction rule: dec_induct)
    case (step j)
    then show ?case using step_drains [OF steps invs, of j] least [of "Suc j"] by auto
  qed simp
  have no_progress: "\<not> to_do (r (Suc j)) < to_do (r j)" if "m \<le> j" for j using still [OF that] least [of "Suc j"] by simp
  show False
  proof (cases "dr_pos (r m) = n")
    case False
    then have pos: "dr_pos (r m) < n" using invs [of m] by (simp add: threads_inv_def main_inv_def)
    obtain j where j: "m \<le> j" "main_turn (r j) = Inr (r (Suc j))" using run unfolding fair_run_def by blast
    have "dr_pos (r j) < n" using still [OF j(1)] pos by simp
    from main_drains [OF invs this j(2)] show False using no_progress [OF j(1)] by blast
  next
    case True
    obtain k where k: "running k (r m)" by (rule not_joined [OF invs never True])
    obtain j where j: "m \<le> j" "running k (r j) \<longrightarrow> thread_turn mv k (r j) = Inr (r (Suc j))" using run unfolding fair_run_def by blast
    have run_j: "running k (r j)" "dr_pos (r j) = n" using k True still [OF j(1)] by simp_all
    then have "thread_turn mv k (r j) = Inr (r (Suc j))" using j(2) by simp
    from thread_drains [OF invs run_j(1) more_to_take [OF invs run_j(2,1)] this] show False using no_progress [OF j(1)] by blast
  qed
qed

lemma turn_of_steps:
  assumes inv: "threads_inv n instrs cmds d" and adm: "admitted cmds"
  obtains d' where "turn_of mv t d = Inr d'" "driver_step mv d d'"
proof -
  obtain dm where dm: "main_turn d = Inr dm" using main_runs_on [OF inv] by blast
  have "\<exists>d'. turn_of mv t d = Inr d' \<and> driver_step mv d d'"
  proof (cases t)
    case 0
    then show ?thesis using dm driver_step.main_runs by (auto simp: turn_of_def)
  next
    case (Suc k)
    show ?thesis
    proof (cases "running k d")
      case True
      then show ?thesis using worker_runs_on [OF inv adm True, of mv] driver_step.worker_runs [OF True]
        unfolding turn_of_def Suc by auto
    next
      case False
      then show ?thesis using dm driver_step.main_runs unfolding turn_of_def Suc by auto
    qed
  qed
  then show ?thesis using that by blast
qed

lemma round_robin_fair:
  assumes inv: "threads_inv n instrs cmds d" and adm: "admitted cmds"
  shows "fair_run mv d (round_robin mv n d)"
proof -
  let ?r = "round_robin mv n d"
  have next_turn: "turn_of mv (i mod Suc n) (?r i) = Inr (?r (Suc i)) \<and> driver_step mv (?r i) (?r (Suc i))"
    if "threads_inv n instrs cmds (?r i)" for i
    by (rule turn_of_steps [OF that adm, of mv "i mod Suc n"]) simp
  have invs: "threads_inv n instrs cmds (?r i)" for i
  proof (induction i)
    case (Suc i)
    then show ?case using driver_step_keeps [OF conjunct2 [OF next_turn [OF Suc]] adm] by blast
  qed (simp add: inv)
  note turns = next_turn [OF invs]
  have later: "i \<le> i * Suc n + t" for i t by (simp add: trans_le_add1)
  have which: "(i * Suc n + t) mod Suc n = t" if "t \<le> n" for i t unfolding mod_mult_self3 using that by simp
  have "\<exists>j \<ge> i. main_turn (?r j) = Inr (?r (Suc j))" for i
  proof -
    let ?j = "i * Suc n + 0"
    have j: "i \<le> ?j" "?j mod Suc n = 0" by (rule later, rule which, simp)
    have "turn_of mv 0 (?r ?j) = Inr (?r (Suc ?j))" using conjunct1 [OF turns [of ?j]] unfolding j(2) .
    then show ?thesis unfolding turn_of_def nat.case using j(1) by blast
  qed
  moreover have "\<exists>j \<ge> i. running k (?r j) \<longrightarrow> thread_turn mv k (?r j) = Inr (?r (Suc j))" for k i
  proof (cases "k < n")
    case True
    let ?j = "i * Suc n + Suc k"
    have j: "i \<le> ?j" "?j mod Suc n = Suc k" by (rule later, rule which) (use True in simp)
    have "turn_of mv (Suc k) (?r ?j) = Inr (?r (Suc ?j))" using conjunct1 [OF turns [of ?j]] unfolding j(2) .
    then have "running k (?r ?j) \<longrightarrow> thread_turn mv k (?r ?j) = Inr (?r (Suc ?j))" unfolding turn_of_def nat.case by (metis (full_types))
    then show ?thesis using j(1) by blast
  next
    case False
    then have "\<not> running k (?r i)" using invs [of i] by (simp add: threads_inv_def main_inv_def)
    then show ?thesis by blast
  qed
  moreover have "?r 0 = d" by (rule round_robin.simps)
  ultimately show ?thesis unfolding fair_run_def using turns by blast
qed

lemma threads_lines:
  fixes num_instruments :: nat
  defines "instrs \<equiv> bench_instruments num_instruments"
  assumes num: "0 < num_instruments" "0 < num_workers" "num_instruments * 1000000 < 2 ^ 63"
      "0 < pool_size"
    and mk: "\<And>c. length (fst (mk instrs c)) = num_orders" "\<And>c. admitted (fst (mk instrs c))"
      "\<And>c cmd. cmd \<in> set (fst (mk instrs c)) \<Longrightarrow> cmd_type cmd = ADD \<and> ord_instrument (cmd_order cmd) \<in> set instrs"
      "\<And>c x. x \<in> set instrs \<Longrightarrow> length (about x (fst (mk instrs c))) = quota"
    and stages: "\<And>x ob k. fresh_book pool_size 1000000 ob \<Longrightarrow> k \<le> quota \<Longrightarrow> stage x 0 k ob"
      "\<And>x ob. x \<in> set instrs \<Longrightarrow> stage x quota 0 ob \<Longrightarrow> report_line (x, ob) = line x"
  shows "\<exists>d0. rbind (load_orders pool_size num_instruments num_workers num_orders mk mv clk) (\<lambda>s. Inr (launch s)) = Inr d0 \<and>
    (\<forall>d. (driver_step mv)\<^sup>*\<^sup>* d0 d \<longrightarrow>
       runs_safely mv d \<and> workers_number (dr_trading d) = num_workers \<and>
       (\<forall>k < num_workers. tr_stopped (dr_trading d) ! k \<longrightarrow> reports k (map line (share num_workers k 0 instrs)) d))"
proof -
  obtain sys w c where load: "load_orders pool_size num_instruments num_workers num_orders mk mv clk = Inr (sys, fst (mk instrs c), w)"
      "loaded pool_size 1 instrs num_workers (fst (mk instrs c)) sys"
    using load_orders_loaded [OF num, of mk num_orders mv clk] mk(1,3) unfolding instrs_def by blast
  let ?cmds = "fst (mk instrs c)" and ?d0 = "launch (sys, fst (mk instrs c), w)"
  have dist: "distinct instrs" by (simp add: instrs_def bench_instruments_distinct)
  have start: "threads_inv num_workers instrs ?cmds ?d0"
  proof (rule launch_inv [OF load(2) dist stages(1)])
    show "k \<le> quota" if "k \<le> length (about x ?cmds)" for x k
      using that quota_all [of ?cmds instrs quota x] mk(3,4) le_trans by blast
  qed
  have stop: "no_shutdown ?cmds" unfolding no_shutdown_def using mk(3) by (metis command_type.distinct(5))
  have "runs_safely mv d \<and> workers_number (dr_trading d) = num_workers \<and>
      (\<forall>k < num_workers. tr_stopped (dr_trading d) ! k \<longrightarrow> reports k (map line (share num_workers k 0 instrs)) d)"
    if d: "(driver_step mv)\<^sup>*\<^sup>* ?d0 d" for d
  proof (intro conjI allI impI)
    have inv: "threads_inv num_workers instrs ?cmds d" by (rule reach_keeps [OF d mk(2) start])
    show number: "workers_number (dr_trading d) = num_workers" using inv by (simp add: threads_inv_def main_inv_def)
    show "runs_safely mv d" unfolding runs_safely_def
      using main_runs_on [OF inv] worker_runs_on [OF inv mk(2)] round_robin_fair [OF inv mk(2), folded number] fair_run_ends [OF _ inv mk(2)]
      by blast
    fix k
    assume k: "k < num_workers" "tr_stopped (dr_trading d) ! k"
    note left = stopped_result [OF inv dist stop k]
    have keys: "map fst (tr_workers (dr_trading d) ! k) = share num_workers k 0 instrs" using inv k(1) by (simp add: threads_inv_def)
    have "report_line y = line (fst y)" if y: "y \<in> set (tr_workers (dr_trading d) ! k)" for y
    proof -
      have "fst y \<in> set instrs" using y keys share_subset by (metis image_eqI set_map subsetD)
      then show ?thesis using left(2) y stages(2) mk(4) by (cases y) auto
    qed
    then have "map report_line (tr_workers (dr_trading d) ! k) = map line (share num_workers k 0 instrs)"
      unfolding keys [symmetric] by simp
    then show "reports k (map line (share num_workers k 0 instrs)) d" using left(1) by (simp add: reports_def)
  qed
  then show ?thesis using load(1) by simp
qed

end

end
