(* ===== verification/Bench_Match20.thy ===== *)
theory Bench_Match20
  imports Driver_Threads
begin

text \<open>
  \<open>src/src/bench_match20_s.cpp\<close>: groups of ten orders, each group for the next instrument, five bids from
  6 to 10 and five offers from 10 to 14. The comment in the code wants a trade for around 20 percent of
  the orders sent; it is exactly one trade, of two orders, in every group of ten.
\<close>

section \<open>The orders\<close>

definition match20_price :: "nat \<Rightarrow> price" where
  "match20_price j =
     (if j < 5 then dbl_add (dbl_of_int 6) (dbl_of_int (int j)) else dbl_add (dbl_of_int 5) (dbl_of_int (int j)))"

definition match20_order :: "time_point \<Rightarrow> instrument \<Rightarrow> nat \<Rightarrow> order" where
  "match20_order t instr j = client_order t instr (if j < 5 then BUY else SELL) (match20_price j) 1000"

fun match20_commands :: "instrument list \<Rightarrow> nat list \<Rightarrow> nat \<times> clock \<Rightarrow> order_command list \<times> clock" where
  "match20_commands instruments [] (instrument_idx, clk) = ([], clk)"
| "match20_commands instruments (i # is) (instrument_idx, clk) =
     (let j = i mod 10;
          idx1 = (if j = 0 then instrument_idx + 1 else instrument_idx);
          idx2 = (if idx1 = length instruments then 0 else idx1);
          (cmds, clk') = match20_commands instruments is (idx2, later 1 clk)
      in (order_command_of ADD (match20_order (now clk) (instruments ! idx2) j) # cmds, clk'))"

definition bench_match20_s_sized ::
    "nat \<Rightarrow> nat \<Rightarrow> (instrument \<Rightarrow> instrument) \<Rightarrow> (books \<Rightarrow> books) \<Rightarrow> clock \<Rightarrow> string result" where
  "bench_match20_s_sized pool_size num_orders mv visit clk =
     rbind (load_orders pool_size 5 1 num_orders (\<lambda>instruments c. match20_commands instruments [0..<num_orders] (0, c)) mv clk)
       (run_alone mv visit)"

section \<open>What they leave in a book\<close>

definition low_prices :: "price list" where "low_prices = map match20_price [0..<4]"

definition high_prices :: "price list" where "high_prices = map match20_price [6..<10]"

text \<open>The prices are exact: 6 to 10, and 10 to 14.\<close>

lemma match20_bits:
  "match20_price 0 = Double 0x4018000000000000"
  "match20_price 1 = Double 0x401C000000000000"
  "match20_price 2 = Double 0x4020000000000000"
  "match20_price 3 = Double 0x4022000000000000"
  "match20_price 4 = Double 0x4024000000000000"
  "match20_price 5 = Double 0x4024000000000000"
  "match20_price 6 = Double 0x4026000000000000"
  "match20_price 7 = Double 0x4028000000000000"
  "match20_price 8 = Double 0x402A000000000000"
  "match20_price 9 = Double 0x402C000000000000"
  by code_simp+

lemma low_high_bits:
  "low_prices = [Double 0x4018000000000000, Double 0x401C000000000000, Double 0x4020000000000000, Double 0x4022000000000000]"
  "high_prices = [Double 0x4026000000000000, Double 0x4028000000000000, Double 0x402A000000000000, Double 0x402C000000000000]"
  by code_simp+

lemma match20_prices:
  "match20_price 4 = match20_price 5" "match20_price 5 \<ge> match20_price 5"
  "list_all (\<lambda>b. list_all (\<lambda>a. \<not> b \<ge> a) high_prices) (match20_price 5 # low_prices)"
  "list_all (\<lambda>a. side_lt SELL (match20_price 5) a) high_prices" "list_all (\<lambda>b. side_lt BUY (match20_price 4) b) low_prices"
  unfolding match20_bits low_high_bits by code_simp+

lemma match20_price_number: "j < 10 \<Longrightarrow> \<not> is_nan (match20_price j)"
proof -
  have "list_all (\<lambda>p. \<not> is_nan p) (low_prices @ match20_price 4 # match20_price 5 # high_prices)"
    unfolding match20_bits low_high_bits by code_simp
  moreover assume "j < 10"
  then have "j \<in> set ([0..<4] @ [4, 5] @ [6..<10])" by auto
  ultimately show ?thesis by (auto simp: list_all_iff low_prices_def high_prices_def)
qed

definition match20_accepts :: "instrument \<Rightarrow> nat \<Rightarrow> order \<Rightarrow> bool" where
  "match20_accepts x c client \<longleftrightarrow>
     ord_side client = (if c mod 10 < 5 then BUY else SELL) \<and> ord_price client = match20_price (c mod 10) \<and>
     ord_quantity client = 1000"

text \<open>
  The bid at 10 of a group that waits for the offer at 10, in the slot that it was given. It is only looked
  for there if the pool does not grow for that very offer. A pool grows when it is full, and its size
  doubles: so the size must not leave 5 when divided by 10, unless all orders fit into it.
\<close>

definition waiting_bid :: "nat \<Rightarrow> orderbook \<Rightarrow> bool" where
  "waiting_bid c ob \<longleftrightarrow> (\<exists>q bid bs. ob_bids ob = (match20_price 4, lone_level (match20_price 4) q (ord_id bid)) # bs \<and>
     store ob q = Some bid \<and> ord_quantity_filled bid = 0 \<and> ord_quantity bid = 1000 \<and> ptr_index q < c \<and>
     tidy (set low_prices) (ob_next_available_order_id ob) BUY bs)"

definition sound_pool :: "nat \<Rightarrow> nat \<Rightarrow> nat \<Rightarrow> nat \<Rightarrow> bool" where
  "sound_pool pool_size c k n \<longleftrightarrow> (c \<le> pool_size \<longrightarrow> n = pool_size) \<and>
     (if pool_size mod 10 = 5 then c + k \<le> pool_size else n mod 10 \<noteq> 5)"

definition match20_stage :: "nat \<Rightarrow> instrument \<Rightarrow> nat \<Rightarrow> nat \<Rightarrow> orderbook \<Rightarrow> bool" where
  "match20_stage pool_size x c k ob \<longleftrightarrow>
     calm (if c mod 10 = 5 then insert (match20_price 4) (set low_prices) else set low_prices) (set high_prices) c (Suc k) ob \<and>
     sound_pool pool_size c k (pool_length ob) \<and> (c mod 10 = 5 \<longrightarrow> waiting_bid c ob) \<and>
     (\<exists>t. t = c div 10 + (if 5 < c mod 10 then 1 else 0) \<and> ob_trades_completed ob = of_nat t \<and>
        orders_in (ob_bids ob) + t = 5 * (c div 10) + min (c mod 10) 5 \<and> orders_in (ob_asks ob) + t = 5 * (c div 10) + (c mod 10 - 5))"

lemma sound_pool_Suc: "sound_pool pool_size c (Suc k) n \<Longrightarrow> sound_pool pool_size (Suc c) k (grown c n)"
proof -
  assume sound: "sound_pool pool_size c (Suc k) n"
  have "2 * n mod 10 \<noteq> 5" by presburger
  then show "sound_pool pool_size (Suc c) k (grown c n)" using sound by (simp add: sound_pool_def grown_def split: if_splits)
qed

lemma sound_pool_room: "sound_pool pool_size c (Suc k) n \<Longrightarrow> c mod 10 = 5 \<Longrightarrow> c \<le> n \<Longrightarrow> c < n"
  by (cases "c = n") (auto simp: sound_pool_def split: if_splits)

lemma low_high: "p \<in> set low_prices \<or> p = match20_price 4 \<Longrightarrow> q \<in> set high_prices \<Longrightarrow> \<not> p \<ge> q"
  using match20_prices(1,3) by (auto simp: list_all_iff)

lemma low_high_apart: "apart (set low_prices) (set high_prices)" "apart (insert (match20_price 4) (set low_prices)) (set high_prices)"
  using low_high by (auto simp: apart_def)

lemma low_price: "j < 4 \<Longrightarrow> insert (match20_price j) (set low_prices) = set low_prices"
  by (auto simp: low_prices_def)

lemma high_price: "5 < j \<Longrightarrow> j < 10 \<Longrightarrow> insert (match20_price j) (set high_prices) = set high_prices"
proof -
  assume "5 < j" "j < 10"
  then have "j \<in> set [6..<10]" by (simp only: set_upt atLeastLessThan_iff) simp
  then have "match20_price j \<in> set high_prices" unfolding high_prices_def set_map by (rule imageI)
  then show ?thesis by (rule insert_absorb)
qed

lemma first_prices:
  "tidy (set low_prices) n BUY ls \<Longrightarrow> first_at BUY (match20_price 4) ls" "tidy (set high_prices) n SELL ls \<Longrightarrow> first_at SELL (match20_price 5) ls"
  using match20_prices(4,5) by (auto simp: tidy_def first_at_def list_all_iff)

lemma match20_step:
  assumes stage: "match20_stage P x c (Suc k) ob" and acc: "match20_accepts x c client"
  shows "\<exists>i w' ob'. add_order client (w, ob) = Inr (i, w', ob') \<and> match20_stage P x (Suc c) k ob'"
proof -
  obtain g j where c: "c = 10 * g + j" "j < 10" by (metis mod_less_divisor mult_div_mod_eq zero_less_numeral)
  have at: "c mod 10 = j" "c div 10 = g" using c by simp_all
  have later: "Suc c mod 10 = (if j = 9 then 0 else Suc j)" "Suc c div 10 = (if j = 9 then Suc g else g)"
    using c by (auto simp: mod_Suc div_Suc)
  have r: "ord_price client = match20_price j" "ord_quantity client = 1000" "ord_side client = (if j < 5 then BUY else SELL)"
    using acc at by (simp_all add: match20_accepts_def)
  have calm: "calm (if j = 5 then insert (match20_price 4) (set low_prices) else set low_prices) (set high_prices) c (Suc (Suc k)) ob"
    and pool: "sound_pool P c (Suc k) (pool_length ob)"
    and t: "ob_trades_completed ob = of_nat (g + (if 5 < j then 1 else 0))" "orders_in (ob_bids ob) + (g + (if 5 < j then 1 else 0)) = 5 * g + min j 5"
      "orders_in (ob_asks ob) + (g + (if 5 < j then 1 else 0)) = 5 * g + (j - 5)"
    using stage at by (simp_all add: match20_stage_def)
  note pool' = sound_pool_Suc [OF pool] and nn = match20_price_number [OF c(2), folded r(1)]
  consider (low) "j < 4" | (top) "j = 4" | (hit) "j = 5" | (high) "5 < j" by linarith
  then show ?thesis
  proof cases
    case low
    have B: "widened (ord_side client) BUY (ord_price client) (set low_prices) = set low_prices"
      "widened (ord_side client) SELL (ord_price client) (set high_prices) = set high_prices"
      using low r by (simp_all add: widened_def low_price)
    obtain i p ord w' ob' where a: "add_order client (w, ob) = Inr (i, w', ob')"
      "entered_at client i p ord ob (ob'\<lparr>ob_try_match_flag := True\<rparr>)" "ptr_index p = c" "calm (set low_prices) (set high_prices) (Suc c) (Suc k) ob'"
      by (rule add_apart [of "set low_prices" "set high_prices" c "Suc k" ob client w]) (use calm low nn low_high_apart B in simp_all)
    show ?thesis using a low t pool' r(3) by (auto simp: match20_stage_def entered_at_def later)
  next
    case top
    have B: "widened (ord_side client) BUY (ord_price client) (set low_prices) = insert (match20_price 4) (set low_prices)"
      "widened (ord_side client) SELL (ord_price client) (set high_prices) = set high_prices"
      using top r by (simp_all add: widened_def)
    obtain i p ord w' ob' where a: "add_order client (w, ob) = Inr (i, w', ob')"
      "entered_at client i p ord ob (ob'\<lparr>ob_try_match_flag := True\<rparr>)" "ptr_index p = c"
      "calm (insert (match20_price 4) (set low_prices)) (set high_prices) (Suc c) (Suc k) ob'"
      by (rule add_apart [of "set low_prices" "set high_prices" c "Suc k" ob client w]) (use calm top nn low_high_apart B in simp_all)
    have tidy: "tidy (set low_prices) (ob_next_available_order_id ob) BUY (ob_bids ob)" "ids_for (Suc (Suc k)) ob"
      using calm top by (simp_all add: calm_def)
    have "ob_next_available_order_id ob \<le> ob_next_available_order_id ob + 1"
      using get_order_id_next(2) [OF tidy(2)] by (simp add: word_le_nat_alt)
    from tidy_mono [OF tidy(1) subset_refl this] first_prices(1) [OF tidy(1)] have "waiting_bid (Suc c) ob'"
      using a(2,3) r top by (auto simp: waiting_bid_def entered_at_def)
    then show ?thesis using a top t pool' r(3) by (auto simp: match20_stage_def entered_at_def later)
  next
    case hit
    obtain q bid bs where b: "ob_bids ob = (match20_price 4, lone_level (match20_price 4) q (ord_id bid)) # bs"
       "store ob q = Some bid" "ord_quantity_filled bid = 0" "ord_quantity bid = 1000" "ptr_index q < c"
       "tidy (set low_prices) (ob_next_available_order_id ob) BUY bs"
      using stage at hit by (auto simp: match20_stage_def waiting_bid_def)
    have calm5: "calm (insert (match20_price 4) (set low_prices)) (set high_prices) c (Suc (Suc k)) ob" using calm hit by simp
    have asks: "tidy (set high_prices) (ob_next_available_order_id ob) SELL (ob_asks ob)" "c \<le> pool_length ob"
      using calm by (simp_all add: calm_def stocked_def)
    obtain i w' ob' where a: "add_order client (w, ob) = Inr (i, w', ob')" "calm (set low_prices) (set high_prices) (Suc c) (Suc k) ob'"
        "ob_bids ob' = bs" "ob_asks ob' = ob_asks ob" "ob_trades_completed ob' = ob_trades_completed ob + 1" "pool_length ob' = pool_length ob"
      by (rule add_meets [OF calm5 _ _ b(1,2) refl b(3) _ b(5,6), of client w])
        (use r hit b(4) nn match20_prices match20_price_number [of 4] low_high_apart first_prices(2) [OF asks(1)] sound_pool_room [OF pool _ asks(2)] at in simp_all)
    have "sound_pool P (Suc c) k (pool_length ob')"
      using pool' a(6) sound_pool_room [OF pool _ asks(2)] at hit by (simp add: grown_def)
    then show ?thesis using a b(1) hit t by (auto simp: match20_stage_def level_size_def lone_level_def later)
  next
    case high
    have B: "widened (ord_side client) BUY (ord_price client) (set low_prices) = set low_prices"
      "widened (ord_side client) SELL (ord_price client) (set high_prices) = set high_prices"
      using high c(2) r by (simp_all add: widened_def high_price)
    obtain i p ord w' ob' where a: "add_order client (w, ob) = Inr (i, w', ob')"
      "entered_at client i p ord ob (ob'\<lparr>ob_try_match_flag := True\<rparr>)" "ptr_index p = c" "calm (set low_prices) (set high_prices) (Suc c) (Suc k) ob'"
      by (rule add_apart [of "set low_prices" "set high_prices" c "Suc k" ob client w]) (use calm high nn low_high_apart B in simp_all)
    show ?thesis using a high t pool' r(3) by (auto simp: match20_stage_def entered_at_def later)
  qed
qed

interpretation match20: order_stream match20_accepts "match20_stage P" for P
  by unfold_locales (rule match20_step)

section \<open>Who gets which order\<close>

definition match20_command :: "instrument list \<Rightarrow> (nat \<Rightarrow> time_point) \<Rightarrow> nat \<Rightarrow> order_command" where
  "match20_command instrs f i =
     order_command_of ADD (match20_order (f i) (instrs ! ((i div 10 + 1) mod length instrs)) (i mod 10))"

lemma group_begun: "(i + 9) div 10 = (if i mod 10 = 0 then i div 10 else i div 10 + 1)" for i :: nat
  by presburger

lemma next_instrument:
  fixes i m idx :: nat
  assumes m: "0 < m" and idx: "idx = ((i + 9) div 10) mod m"
  shows "(if (if i mod 10 = 0 then idx + 1 else idx) = m then 0 else if i mod 10 = 0 then idx + 1 else idx) = (i div 10 + 1) mod m"
proof (cases "i mod 10 = 0")
  case True
  have "idx = (i div 10) mod m" unfolding idx group_begun if_P [OF True] ..
  then show ?thesis unfolding if_P [OF True] by (simp only: Suc_eq_plus1 [symmetric] mod_Suc)
next
  case False
  have same: "idx = (i div 10 + 1) mod m" unfolding idx group_begun if_not_P [OF False] ..
  have "idx \<noteq> m" unfolding same using mod_less_divisor [OF m] by (rule less_imp_neq)
  from if_not_P [OF this] show ?thesis unfolding if_not_P [OF False] by (simp only: same)
qed

lemma match20_commands_map:
  assumes "instrs \<noteq> []" "idx = ((i + 9) div 10) mod length instrs"
  shows "\<exists>f clk'. match20_commands instrs [i..<n] (idx, clk) = (map (match20_command instrs f) [i..<n], clk')"
  using assms(2)
proof (induction "n - i" arbitrary: i idx clk)
  case 0
  then show ?case by simp
next
  case (Suc d)
  let ?m = "length instrs" and ?j = "i mod 10"
  let ?idx1 = "if ?j = 0 then idx + 1 else idx"
  let ?idx2 = "if ?idx1 = ?m then 0 else ?idx1"
  have m: "0 < ?m" using assms(1) by simp
  have idx2: "?idx2 = (i div 10 + 1) mod ?m" by (rule next_instrument [OF m Suc.prems])
  have next_idx: "?idx2 = ((Suc i + 9) div 10) mod ?m" unfolding idx2 by simp
  have shorter: "d = n - Suc i" using Suc.hyps(2) by simp
  obtain f clk' where f: "match20_commands instrs [Suc i..<n] (?idx2, later 1 clk) = (map (match20_command instrs f) [Suc i..<n], clk')"
    using Suc.hyps(1) [OF shorter next_idx, of "later 1 clk"] by blast
  let ?f = "f(i := now clk)"
  have "[i..<n] = i # [Suc i..<n]" using Suc.hyps(2) by (simp add: upt_conv_Cons)
  moreover have "map (match20_command instrs f) [Suc i..<n] = map (match20_command instrs ?f) [Suc i..<n]"
    by (simp add: match20_command_def)
  moreover have "match20_command instrs ?f i = order_command_of ADD (match20_order (now clk) (instrs ! ?idx2) ?j)"
    unfolding idx2 by (simp add: match20_command_def)
  ultimately have "match20_commands instrs [i..<n] (idx, clk) = (map (match20_command instrs ?f) [i..<n], clk')"
    using f by (simp add: Let_def)
  then show ?case by blast
qed

text \<open>The groups of ten that go to the instrument \<open>a\<close>, among the first \<open>q\<close>.\<close>

definition groups_of :: "nat \<Rightarrow> nat \<Rightarrow> nat \<Rightarrow> nat" where
  "groups_of m a q = length (filter (\<lambda>k. (k + 1) mod m = a) [0..<q])"

lemma groups_of_simps: "groups_of m a 0 = 0" "groups_of m a (Suc q) = groups_of m a q + (if (q + 1) mod m = a then 1 else 0)"
  by (simp_all add: groups_of_def)

lemma groups_of_five: "a < 5 \<Longrightarrow> groups_of 5 a (5 * g) = g"
proof (induction g)
  case 0
  then show ?case by (simp add: groups_of_simps)
next
  case (Suc g)
  have step: "groups_of 5 a (5 * Suc g) = groups_of 5 a (5 * g) + (if (5 * g + 1) mod 5 = a then 1 else 0) +
      (if (5 * g + 2) mod 5 = a then 1 else 0) + (if (5 * g + 3) mod 5 = a then 1 else 0) +
      (if (5 * g + 4) mod 5 = a then 1 else 0) + (if (5 * g + 5) mod 5 = a then 1 else 0)"
  proof -
    have "5 * Suc g = Suc (Suc (Suc (Suc (Suc (5 * g)))))" by simp
    then show ?thesis by (simp only: groups_of_simps) (simp only: Suc_eq_plus1 add.assoc numeral_plus_one one_plus_numeral
      one_add_one numeral_plus_numeral Num.arith_simps)
  qed
  have m: "(5 * g + 1) mod 5 = 1" "(5 * g + 2) mod 5 = 2" "(5 * g + 3) mod 5 = 3" "(5 * g + 4) mod 5 = 4" "(5 * g + 5) mod 5 = 0"
    by presburger+
  have "groups_of 5 a (5 * g) = g" using Suc by simp
  then show ?case unfolding step m using Suc.prems by arith
qed

lemma match20_counts:
  assumes "distinct instrs" "instrs \<noteq> []"
  shows "match20.admitted (map (match20_command instrs f) [0..<n]) \<and>
    (\<forall>a < length instrs. length (about (instrs ! a) (map (match20_command instrs f) [0..<n])) =
       10 * groups_of (length instrs) a (n div 10) + (if (n div 10 + 1) mod length instrs = a then n mod 10 else 0))"
proof (induction n)
  case 0
  then show ?case by (simp add: match20.admitted_def about_def groups_of_simps)
next
  case (Suc n)
  let ?m = "length instrs" and ?cmds = "map (match20_command instrs f) [0..<n]" and ?cmd = "match20_command instrs f n"
  let ?b = "(n div 10 + 1) mod ?m"
  have b: "?b < ?m" using assms(2) by simp
  have cmd: "cmd_type ?cmd = ADD" "ord_instrument (cmd_order ?cmd) = instrs ! ?b"
    by (simp_all add: match20_command_def order_command_of_def match20_order_def client_order_def)
  have len: "length (about (instrs ! ?b) ?cmds) = 10 * groups_of ?m ?b (n div 10) + n mod 10" using Suc b by simp
  have "match20_accepts (instrs ! ?b) (length (about (instrs ! ?b) ?cmds)) (cmd_order ?cmd)"
    unfolding len by (simp add: match20_accepts_def match20_command_def order_command_of_def match20_order_def client_order_def)
  then have adm: "match20.admitted (?cmds @ [?cmd])" using Suc cmd by (intro match20.admitted_snoc) simp_all
  have counts: "length (about (instrs ! a) (?cmds @ [?cmd])) =
      10 * groups_of ?m a (Suc n div 10) + (if (Suc n div 10 + 1) mod ?m = a then Suc n mod 10 else 0)" if a: "a < ?m" for a
  proof -
    have "instrs ! ?b = instrs ! a \<longleftrightarrow> ?b = a" using assms(1) a b by (simp add: nth_eq_iff_index_eq)
    then have "length (about (instrs ! a) (?cmds @ [?cmd])) = length (about (instrs ! a) ?cmds) + (if ?b = a then 1 else 0)"
      using cmd by (auto simp: about_def)
    moreover have "Suc n div 10 = (if n mod 10 = 9 then Suc (n div 10) else n div 10)" "Suc n mod 10 = (if n mod 10 = 9 then 0 else Suc (n mod 10))"
      by (simp_all add: div_Suc mod_Suc)
    ultimately show ?thesis using Suc a by (auto simp: groups_of_simps)
  qed
  show ?case using adm counts by simp
qed

section \<open>The run\<close>

text \<open>The line of the report for an instrument, after \<open>g\<close> groups of its orders.\<close>

definition match20_line :: "nat \<Rightarrow> instrument \<Rightarrow> string" where
  "match20_line g x =
     ''Instrument: '' @ x @ '', trades done: '' @ decimal g @ '', total orders in ob: ('' @
     decimal (4 * g) @ '', '' @ decimal (4 * g) @ '')'' @ [CHR 0x0A]"

lemma match20_done_line:
  assumes "match20_stage pool_size x (10 * g) 0 ob" "g < 100000"
  shows "report_line (x, ob) = match20_line g x"
proof -
  have "ob_trades_completed ob = of_nat g" "orders_in (ob_bids ob) = 4 * g" "orders_in (ob_asks ob) = 4 * g"
    using assms(1) by (simp_all add: match20_stage_def)
  moreover have "unat (of_nat g :: 64 word) = g" using assms(2) by (simp add: unat_of_nat)
  ultimately show ?thesis by (simp add: report_line_def match20_line_def totals)
qed

lemma match20_fresh:
  assumes "fresh_book pool_size 1000000 ob" "k \<le> 10 * g" "g < 100000" "pool_size mod 10 = 5 \<longrightarrow> k \<le> pool_size"
  shows "match20_stage pool_size x 0 k ob"
  using assms by (auto simp: match20_stage_def fresh_book_def calm_def tidy_def map_sorted_def sound_pool_def ids_for_def)

lemma match20_commands_made:
  obtains f where "fst (match20_commands (bench_instruments 5) [0..<n] (0, c)) = map (match20_command (bench_instruments 5) f) [0..<n]"
proof -
  have "bench_instruments 5 \<noteq> []" using bench_instruments_distinct(2) [of 5] by auto
  from match20_commands_map [OF this, of 0 0 n c] that show ?thesis by fastforce
qed

lemma match20_command_facts:
  assumes "instrs \<noteq> []"
  shows "cmd_type (match20_command instrs f i) = ADD" "ord_instrument (cmd_order (match20_command instrs f i)) \<in> set instrs"
  using assms by (simp_all add: match20_command_def order_command_of_def match20_order_def client_order_def)

lemma match20_quota:
  assumes "x \<in> set (bench_instruments 5)"
  shows "length (about x (map (match20_command (bench_instruments 5) f) [0..<50 * g])) = 10 * g"
proof -
  let ?is = "bench_instruments 5"
  have five: "length ?is = 5" "distinct ?is" by (simp_all add: bench_instruments_distinct)
  then have ne: "?is \<noteq> []" by auto
  obtain a where a: "a < length ?is" "x = ?is ! a" using assms by (metis in_set_conv_nth)
  have n: "50 * g div 10 = 5 * g" "50 * g mod 10 = 0" by presburger+
  have "a < 5" using a(1) five(1) by simp
  then show ?thesis using conjunct2 [OF match20_counts [OF five(2) ne, of f "50 * g"], rule_format, OF a(1)]
    unfolding a(2) n five(1) by (simp only: groups_of_five if_cancel add_0_right)
qed

lemma match20_made:
  fixes c :: clock and g :: nat
  defines "cmds \<equiv> fst (match20_commands (bench_instruments 5) [0..<50 * g] (0, c))"
  shows "length cmds = 50 * g" "match20.admitted cmds"
    "\<And>cmd. cmd \<in> set cmds \<Longrightarrow> cmd_type cmd = ADD \<and> ord_instrument (cmd_order cmd) \<in> set (bench_instruments 5)"
    "\<And>x. x \<in> set (bench_instruments 5) \<Longrightarrow> length (about x cmds) = 10 * g"
proof -
  let ?is = "bench_instruments 5"
  have ne: "?is \<noteq> []" using bench_instruments_distinct(2) [of 5] by auto
  obtain f where f: "cmds = map (match20_command ?is f) [0..<50 * g]" unfolding cmds_def by (rule match20_commands_made)
  show "match20.admitted cmds" unfolding f using match20_counts [OF bench_instruments_distinct(1) ne] by (rule conjunct1)
  show "length cmds = 50 * g"
    "\<And>cmd. cmd \<in> set cmds \<Longrightarrow> cmd_type cmd = ADD \<and> ord_instrument (cmd_order cmd) \<in> set ?is"
    "\<And>x. x \<in> set ?is \<Longrightarrow> length (about x cmds) = 10 * g"
    unfolding f using match20_quota match20_command_facts [OF ne] by auto
qed

text \<open>
  C18: the benchmark with matching, run to the end in one thread: after \<open>50 * g\<close> orders every one of the
  five books has made \<open>g\<close> trades and holds \<open>4 * g\<close> bids and as many offers, and that is what the worker
  prints, in some order of the instruments. So exactly 20 percent of the orders are traded, as the
  comment in the driver wants; no order is lost, left in a queue or refused, and nothing faults. The orders
  may outgrow the pools, as the million orders of the driver do, if it does not leave 5 by 10.
\<close>

theorem match20_trades_a_fifth:
  fixes visit :: "books \<Rightarrow> books"
  assumes "0 < pool_size" "pool_size mod 10 = 5 \<longrightarrow> 10 * g \<le> pool_size" "g < 100000"
    "\<forall>books. mset (visit books) = mset books"
  shows "\<exists>xs. mset xs = mset (bench_instruments 5) \<and>
    bench_match20_s_sized pool_size (50 * g) mv visit clk = Inr (concat (map (match20_line g) xs))"
proof -
  have "match20_stage pool_size x 0 k ob" if "fresh_book pool_size 1000000 ob" "k \<le> 10 * g" for x k ob
    by (rule match20_fresh [OF that assms(3)]) (use assms(2) that(2) in auto)
  then show ?thesis unfolding bench_match20_s_sized_def
    by (intro match20.run_alone_lines [OF _ _ assms(1,4), where P = pool_size and quota = "10 * g"])
      (use match20_made [where g = g] match20_done_line [OF _ assms(3)] in simp_all)
qed

text \<open>All the orders of the driver, in books of the size that the code has.\<close>

theorem match20_trades_a_fifth_witness:
  "\<exists>xs. mset xs = mset (bench_instruments 5) \<and>
     bench_match20_s_sized SPACE_RESERVE 1000000 (\<lambda>x. x) rev (wd_clock ex_world) = Inr (concat (map (match20_line 20000) xs))"
  using match20_trades_a_fifth [of SPACE_RESERVE 20000 rev "\<lambda>x. x" "wd_clock ex_world"] by (simp add: SPACE_RESERVE_def)

section \<open>A pool that grows at the wrong time\<close>

lemma match20_stuck:
  assumes stage: "match20_stage P x P 0 ob" and odd: "P mod 10 = 5" and acc: "match20_accepts x P client"
  shows "add_order client (w, ob) = Inl (Undefined DanglingPointer)"
proof -
  have calm: "calm (insert (match20_price 4) (set low_prices)) (set high_prices) P (Suc 0) ob" and full: "P = pool_length ob"
    and wait: "waiting_bid P ob"
    using stage odd by (simp_all add: match20_stage_def sound_pool_def)
  have r: "ord_price client = match20_price 5" "ord_side client = SELL" using acc odd by (simp_all add: match20_accepts_def)
  have asks: "tidy (set high_prices) (ob_next_available_order_id ob) SELL (ob_asks ob)" using calm by (simp add: calm_def)
  obtain q bid bs where b: "ob_bids ob = (match20_price 4, lone_level (match20_price 4) q (ord_id bid)) # bs" "store ob q = Some bid" "ptr_index q < P"
    using wait by (auto simp: waiting_bid_def)
  show ?thesis
    by (rule add_dangles [OF calm r(2) full b])
      (use r(1) match20_prices(1,2) match20_price_number [of 5] first_prices(2) [OF asks] in simp_all)
qed

text \<open>The first book that is full is that of the second instrument, after \<open>h\<close> rounds and half a group.\<close>

lemma match20_first_full:
  assumes "a < 5"
  shows "length (about (bench_instruments 5 ! a) (map (match20_command (bench_instruments 5) f) [0..<50 * h + 5])) =
    10 * h + (if a = 1 then 5 else 0)"
proof -
  let ?is = "bench_instruments 5"
  have five: "length ?is = 5" "distinct ?is" by (simp_all add: bench_instruments_distinct)
  have n: "(50 * h + 5) div 10 = 5 * h" "(50 * h + 5) mod 10 = 5" "(5 * h + 1) mod 5 = 1" by presburger+
  have "?is \<noteq> []" "a < length ?is" using five(1) assms by auto
  from conjunct2 [OF match20_counts [OF five(2) this(1), of f "50 * h + 5"], rule_format, OF this(2)]
  show ?thesis unfolding n five(1) groups_of_five [OF assms] by simp
qed

lemma match20_few: "length (about x (map (match20_command (bench_instruments 5) f) [0..<50 * h + 5])) \<le> 10 * h + 5"
proof (cases "x \<in> set (bench_instruments 5)")
  case True
  then obtain a where "a < 5" "x = bench_instruments 5 ! a" using bench_instruments_distinct(2) [of 5] by (metis in_set_conv_nth)
  then show ?thesis using match20_first_full by simp
next
  case False
  have "bench_instruments 5 \<noteq> []" using bench_instruments_distinct(2) [of 5] by auto
  then have "about x (map (match20_command (bench_instruments 5) f) [0..<50 * h + 5]) = []"
    unfolding about_def filter_empty_conv using match20_command_facts(2) False by fastforce
  then show ?thesis by simp
qed

lemma match20_next:
  fixes f :: "nat \<Rightarrow> time_point" and h :: nat
  defines "cmd \<equiv> match20_command (bench_instruments 5) f (50 * h + 5)"
  shows "cmd_type cmd = ADD" "ord_instrument (cmd_order cmd) = bench_instruments 5 ! 1"
    "match20_accepts (bench_instruments 5 ! 1) (10 * h + 5) (cmd_order cmd)"
proof -
  have "((50 * h + 5) div 10 + 1) mod 5 = 1" "(50 * h + 5) mod 10 = 5" "(10 * h + 5) mod 10 = 5" by presburger+
  then show "cmd_type cmd = ADD" "ord_instrument (cmd_order cmd) = bench_instruments 5 ! 1"
    "match20_accepts (bench_instruments 5 ! 1) (10 * h + 5) (cmd_order cmd)"
    by (simp_all add: cmd_def match20_command_def order_command_of_def match20_order_def client_order_def
      match20_accepts_def bench_instruments_distinct(2))
qed

lemma match20_books_stuck:
  assumes "map fst books = bench_instruments 5"
    "match20.fed (10 * h + 5) (map (match20_command (bench_instruments 5) f) [0..<50 * h + 5]) [] books"
  shows "process_all mv alone k (match20_command (bench_instruments 5) f (50 * h + 5) # rest) (w, books) = Inl (Undefined DanglingPointer)"
proof -
  let ?x = "bench_instruments 5 ! 1"
  have "?x \<in> set (map fst books)" unfolding assms(1) by (rule nth_mem) (simp add: bench_instruments_distinct(2))
  then obtain ob where ob: "map_of books ?x = Some ob" by (metis list.set_map map_of_eq_None_iff not_Some_eq)
  have "match20_stage (10 * h + 5) ?x (10 * h + 5) 0 ob"
    using assms(2) [unfolded match20.fed_def, rule_format, OF ob] match20_first_full [of 1 f h] by (simp add: about_def)
  moreover have "(10 * h + 5) mod 10 = 5" by presburger
  ultimately show ?thesis using ob match20_stuck match20_next by (simp add: process_command_def)
qed

text \<open>
  C19: the size of the pool matters. When it leaves 5 by 10, the first book to fill its pool has a bid at 10
  waiting, the pool grows for the offer that meets it, and the bid is looked for where it was: the run in
  one thread ends in a dangling pointer, whatever the number of orders beyond that.
\<close>

theorem match20_pool_dangles:
  assumes "pool_size mod 10 = 5" "pool_size < 10 * g" "g < 100000"
  shows "bench_match20_s_sized pool_size (50 * g) mv visit clk = Inl (Undefined DanglingPointer)"
proof -
  let ?is = "bench_instruments 5" and ?mk = "\<lambda>instruments c. match20_commands instruments [0..<50 * g] (0, c)"
  obtain h where h: "pool_size = 10 * h + 5" using assms(1) by (metis mult_div_mod_eq)
  have "(5 :: nat) * 1000000 < 2 ^ 63" by simp
  from load_orders_loaded [of 5 1 pool_size ?mk "50 * g" mv clk] obtain sys w c where
      load: "load_orders pool_size 5 1 (50 * g) ?mk mv clk = Inr (sys, fst (?mk ?is c), w)"
      "loaded pool_size 1 ?is 1 (fst (?mk ?is c)) sys"
    using match20_made [where g = g] h by auto
  obtain f where f: "fst (?mk ?is c) = map (match20_command ?is f) [0..<50 * g]" by (rule match20_commands_made)
  let ?as = "map (match20_command ?is f) [0..<50 * h + 5]"
  let ?rest = "match20_command ?is f (50 * h + 5) # map (match20_command ?is f) [Suc (50 * h + 5)..<50 * g]"
  have m: "50 * h + 5 < 50 * g" using assms(2) h by simp
  have "[0..<50 * g] = [0..<50 * h + 5] @ (50 * h + 5) # [Suc (50 * h + 5)..<50 * g]"
    using upt_add_eq_append [of 0 "50 * h + 5" "50 * g - (50 * h + 5)"] upt_conv_Cons [OF m] m by simp
  then have cmds: "fst (?mk ?is c) = ?as @ ?rest" unfolding f by simp
  have made: "cmd_type cmd = ADD \<and> ord_instrument (cmd_order cmd) \<in> set ?is" if "cmd \<in> set (?as @ ?rest)" for cmd
    using that match20_made(3) [of cmd g c] unfolding cmds by blast
  have stop: "no_shutdown (?as @ ?rest)" unfolding no_shutdown_def
  proof
    fix cmd assume "cmd \<in> set (?as @ ?rest)"
    from made [OF this] show "cmd_type cmd \<noteq> SHUTDOWN" by simp
  qed
  have "?is \<noteq> []" using bench_instruments_distinct(2) [of 5] by auto
  from match20_counts [OF bench_instruments_distinct(1) this, of f "50 * h + 5"] have adm: "match20.admitted ?as" by (rule conjunct1)
  have fresh: "match20_stage pool_size x 0 (length (about x ?as)) ob" if "fresh_book pool_size 1000000 ob" for x ob
    by (rule match20_fresh [OF that, where g = g]) (use match20_few [of x f h] assms h in auto)
  obtain k w' books where run: "map fst books = ?is" "match20.fed pool_size ?as [] books"
      "run_alone mv visit (sys, fst (?mk ?is c), w) =
        rbind (process_all mv alone k ?rest (w', books)) (\<lambda>(_, books'). Inr (concat (map report_line (visit books'))))"
    using match20.run_alone_result [where mv = mv and visit = visit and rec = "fst (?mk ?is c)" and w = w,
        OF load(2) [unfolded cmds] bench_instruments_distinct(1) stop adm _ fresh] made by blast
  show ?thesis unfolding bench_match20_s_sized_def load(1) rbind_Inr run(3)
    unfolding match20_books_stuck [OF run(1) run(2) [unfolded h]] by simp
qed

theorem match20_pool_dangles_witness:
  "bench_match20_s_sized 99995 1000000 (\<lambda>x. x) rev (wd_clock ex_world) = Inl (Undefined DanglingPointer)"
  using match20_pool_dangles [of 99995 20000 "\<lambda>x. x" rev "wd_clock ex_world"] by simp

end
