(* ===== verification/Bench_Insert.thy ===== *)
theory Bench_Insert
  imports Driver_Threads
begin

text \<open>
  \<open>src/src/bench_insert_s.cpp\<close>: the orders go round ten instruments, and bids below 100 take turns with
  offers above. As ten is even and a multiple of five, every instrument only gets orders of one side, at
  one price: the benchmark of insertions without matching fills one level of one side of each book.
\<close>

section \<open>The orders\<close>

definition insert_price :: "nat \<Rightarrow> price" where
  "insert_price i =
     (let price_offset = dbl_div (dbl_of_int (int (i mod 5))) (dbl_of_int 100)
      in if i mod 2 = 0 then dbl_sub (dbl_of_ratio 9999 100) price_offset
         else dbl_add (dbl_of_ratio 10001 100) price_offset)"

definition insert_order :: "time_point \<Rightarrow> instrument list \<Rightarrow> nat \<Rightarrow> order" where
  "insert_order t instruments i =
     client_order t (instruments ! (i mod length instruments)) (if i mod 2 = 0 then BUY else SELL) (insert_price i) 200"

fun insert_commands :: "instrument list \<Rightarrow> nat list \<Rightarrow> clock \<Rightarrow> order_command list \<times> clock" where
  "insert_commands instruments [] clk = ([], clk)"
| "insert_commands instruments (i # is) clk =
     (let (cmds, clk') = insert_commands instruments is (later 1 clk)
      in (order_command_of ADD (insert_order (now clk) instruments i) # cmds, clk'))"

definition bench_insert_s_sized ::
    "nat \<Rightarrow> nat \<Rightarrow> (instrument \<Rightarrow> instrument) \<Rightarrow> (books \<Rightarrow> books) \<Rightarrow> clock \<Rightarrow> string result" where
  "bench_insert_s_sized pool_size num_orders mv visit clk =
     rbind (load_orders pool_size 10 1 num_orders (\<lambda>instruments. insert_commands instruments [0..<num_orders]) mv clk)
       (run_alone mv visit)"

section \<open>What they leave in a book\<close>

text \<open>
  The prices as the program computes them, rounded twice: 99.99 down to 99.95 for the bids, and 100.01
  up to 100.05 for the offers; \<open>99.99 - 0.04\<close> is not the double nearest to 99.95, for one.
\<close>

lemma insert_bits:
  "insert_price 0 = Double 0x4058FF5C28F5C28F"
  "insert_price 1 = Double 0x40590147AE147AE2"
  "insert_price 2 = Double 0x4058FE147AE147AE"
  "insert_price 3 = Double 0x4059028F5C28F5C3"
  "insert_price 4 = Double 0x4058FCCCCCCCCCCC"
  "insert_price 5 = Double 0x405900A3D70A3D71"
  "insert_price 6 = Double 0x4058FEB851EB851E"
  "insert_price 7 = Double 0x405901EB851EB852"
  "insert_price 8 = Double 0x4058FD70A3D70A3D"
  "insert_price 9 = Double 0x4059033333333334"
  by code_simp+

lemma insert_price_mod: "insert_price (i mod 10) = insert_price i"
proof -
  have "i mod 10 mod 5 = i mod 5" "i mod 10 mod 2 = i mod 2" by (simp_all add: mod_mod_cancel)
  then show ?thesis by (simp only: insert_price_def)
qed

lemma insert_price_number: "a < 10 \<Longrightarrow> \<not> is_nan (insert_price a)"
proof -
  have "\<forall>p \<in> {insert_price 0, insert_price 1, insert_price 2, insert_price 3, insert_price 4,
      insert_price 5, insert_price 6, insert_price 7, insert_price 8, insert_price 9}. \<not> is_nan p"
    unfolding insert_bits by code_simp
  moreover assume "a < 10"
  then have "a = 0 \<or> a = 1 \<or> a = 2 \<or> a = 3 \<or> a = 4 \<or> a = 5 \<or> a = 6 \<or> a = 7 \<or> a = 8 \<or> a = 9" by presburger
  ultimately show ?thesis by auto
qed

abbreviation ten_instruments :: "instrument list" where
  "ten_instruments \<equiv> bench_instruments 10"

definition insert_accepts :: "instrument \<Rightarrow> nat \<Rightarrow> order \<Rightarrow> bool" where
  "insert_accepts x c client \<longleftrightarrow>
     (\<exists>a < 10. x = ten_instruments ! a \<and> ord_side client = (if even a then BUY else SELL) \<and>
        ord_price client = insert_price a)"

definition insert_stage :: "instrument \<Rightarrow> nat \<Rightarrow> nat \<Rightarrow> orderbook \<Rightarrow> bool" where
  "insert_stage x c k ob \<longleftrightarrow> (\<forall>a < 10. x = ten_instruments ! a \<longrightarrow> ob_trades_completed ob = 0 \<and>
     (if even a then calm {insert_price a} {} c k ob \<and> orders_in (ob_bids ob) = c \<and> orders_in (ob_asks ob) = 0
      else calm {} {insert_price a} c k ob \<and> orders_in (ob_bids ob) = 0 \<and> orders_in (ob_asks ob) = c))"

lemma ten_instruments_inj: "a < 10 \<Longrightarrow> b < 10 \<Longrightarrow> ten_instruments ! a = ten_instruments ! b \<longleftrightarrow> a = b"
  using bench_instruments_distinct [of 10] by (simp add: nth_eq_iff_index_eq)

lemma insert_step:
  assumes stage: "insert_stage x c (Suc k) ob" and acc: "insert_accepts x c client"
  shows "\<exists>i w' ob'. add_order client (w, ob) = Inr (i, w', ob') \<and> insert_stage x (Suc c) k ob'"
proof -
  obtain a where a: "a < 10" "x = ten_instruments ! a" "ord_side client = (if even a then BUY else SELL)"
      "ord_price client = insert_price a" using acc by (auto simp: insert_accepts_def)
  let ?B = "if even a then {insert_price a} else {}" and ?A = "if even a then {} else {insert_price a}"
  have o: "calm ?B ?A c (Suc k) ob" "ob_trades_completed ob = 0" "orders_in (ob_bids ob) = (if even a then c else 0)"
      "orders_in (ob_asks ob) = (if even a then 0 else c)"
    using stage a(1,2) by (auto simp: insert_stage_def)
  have same: "widened (ord_side client) BUY (ord_price client) ?B = ?B" "widened (ord_side client) SELL (ord_price client) ?A = ?A"
    using a(3,4) by (simp_all add: widened_def)
  have apart: "apart (widened (ord_side client) BUY (ord_price client) ?B) (widened (ord_side client) SELL (ord_price client) ?A)"
    unfolding same by (simp add: apart_def)
  have nn: "\<not> is_nan (ord_price client)" using a(4) insert_price_number [OF a(1)] by simp
  obtain i p ord w' ob' where add: "add_order client (w, ob) = Inr (i, w', ob')"
      "entered_at client i p ord ob (ob'\<lparr>ob_try_match_flag := True\<rparr>)" "calm ?B ?A (Suc c) k ob'"
    by (rule add_apart [OF o(1) nn apart, of w, unfolded same]) (rule that)
  have "ob_trades_completed ob' = 0" "orders_in (ob_bids ob') = (if even a then Suc c else 0)"
      "orders_in (ob_asks ob') = (if even a then 0 else Suc c)"
    using add(2) a(3) o(2-4) by (cases "even a"; simp add: entered_at_def)+
  then have "insert_stage x (Suc c) k ob'" using add(3) a(1,2) ten_instruments_inj by (auto simp: insert_stage_def)
  then show ?thesis using add(1) by blast
qed

interpretation inserts: order_stream insert_accepts insert_stage
  by unfold_locales (rule insert_step)

section \<open>Who gets which order\<close>

definition insert_command :: "(nat \<Rightarrow> time_point) \<Rightarrow> nat \<Rightarrow> order_command" where
  "insert_command f i = order_command_of ADD (insert_order (f i) ten_instruments i)"

lemma insert_commands_map:
  "\<exists>f clk'. insert_commands ten_instruments [i..<n] clk = (map (insert_command f) [i..<n], clk')"
proof (induction "n - i" arbitrary: i clk)
  case 0
  then show ?case by simp
next
  case (Suc d)
  have shorter: "d = n - Suc i" using Suc.hyps(2) by simp
  obtain f clk' where f: "insert_commands ten_instruments [Suc i..<n] (later 1 clk) = (map (insert_command f) [Suc i..<n], clk')"
    using Suc.hyps(1) [OF shorter, of "later 1 clk"] by blast
  let ?f = "f(i := now clk)"
  have "[i..<n] = i # [Suc i..<n]" using Suc.hyps(2) by (simp add: upt_conv_Cons)
  moreover have "map (insert_command f) [Suc i..<n] = map (insert_command ?f) [Suc i..<n]" by (simp add: insert_command_def)
  ultimately have "insert_commands ten_instruments [i..<n] clk = (map (insert_command ?f) [i..<n], clk')"
    using f by (simp add: Let_def insert_command_def)
  then show ?case by blast
qed

lemma insert_command_facts:
  "cmd_type (insert_command f i) = ADD" "ord_instrument (cmd_order (insert_command f i)) = ten_instruments ! (i mod 10)"
  "insert_accepts (ten_instruments ! (i mod 10)) c (cmd_order (insert_command f i))"
proof -
  have ten: "length ten_instruments = 10" by (rule bench_instruments_distinct)
  show "cmd_type (insert_command f i) = ADD" by (simp add: insert_command_def order_command_of_def)
  show "ord_instrument (cmd_order (insert_command f i)) = ten_instruments ! (i mod 10)"
    by (simp add: insert_command_def order_command_of_def insert_order_def client_order_def ten)
  have "even (i mod 10) \<longleftrightarrow> i mod 2 = 0" by presburger
  then show "insert_accepts (ten_instruments ! (i mod 10)) c (cmd_order (insert_command f i))"
    unfolding insert_accepts_def
    by (intro exI [of _ "i mod 10"]) (simp add: insert_command_def order_command_of_def insert_order_def client_order_def insert_price_mod)
qed

lemma insert_counts:
  "inserts.admitted (map (insert_command f) [0..<n]) \<and>
   (\<forall>a < 10. length (about (ten_instruments ! a) (map (insert_command f) [0..<n])) = n div 10 + (if a < n mod 10 then 1 else 0))"
proof (induction n)
  case 0
  then show ?case by (simp add: inserts.admitted_def about_def)
next
  case (Suc n)
  let ?cmds = "map (insert_command f) [0..<n]" and ?cmd = "insert_command f n"
  have "inserts.admitted (?cmds @ [?cmd])"
    using Suc insert_command_facts by (intro inserts.admitted_snoc) simp_all
  moreover have "length (about (ten_instruments ! a) (?cmds @ [?cmd])) = Suc n div 10 + (if a < Suc n mod 10 then 1 else 0)"
    if a: "a < 10" for a
  proof -
    have "ten_instruments ! (n mod 10) = ten_instruments ! a \<longleftrightarrow> n mod 10 = a" using a by (intro ten_instruments_inj) simp_all
    then have "length (about (ten_instruments ! a) (?cmds @ [?cmd])) = length (about (ten_instruments ! a) ?cmds) + (if n mod 10 = a then 1 else 0)"
      using insert_command_facts(1,2) [of f n] by (auto simp: about_def)
    moreover have "Suc n div 10 = (if n mod 10 = 9 then Suc (n div 10) else n div 10)" "Suc n mod 10 = (if n mod 10 = 9 then 0 else Suc (n mod 10))"
      by (simp_all add: div_Suc mod_Suc)
    ultimately show ?thesis using Suc a by auto
  qed
  ultimately show ?case by simp
qed

section \<open>The run\<close>

definition bid_instrument :: "instrument \<Rightarrow> bool" where
  "bid_instrument x \<longleftrightarrow> x \<in> set (map (\<lambda>a. ten_instruments ! a) [0, 2, 4, 6, 8])"

definition insert_line :: "nat \<Rightarrow> instrument \<Rightarrow> string" where
  "insert_line g x =
     ''Instrument: '' @ x @ '', trades done: 0, total orders in ob: ('' @ decimal (if bid_instrument x then g else 0) @
     '', '' @ decimal (if bid_instrument x then 0 else g) @ '')'' @ [CHR 0x0A]"

lemma bid_instrument_even: "a < 10 \<Longrightarrow> bid_instrument (ten_instruments ! a) \<longleftrightarrow> even a"
proof -
  assume a: "a < 10"
  have "bid_instrument (ten_instruments ! a) \<longleftrightarrow> (\<exists>b \<in> {0, 2, 4, 6, 8}. ten_instruments ! a = ten_instruments ! b)"
    by (auto simp: bid_instrument_def)
  also have "\<dots> \<longleftrightarrow> a \<in> {0, 2, 4, 6, 8}" using ten_instruments_inj [OF a] by auto
  also have "\<dots> \<longleftrightarrow> even a" using a by (auto elim!: evenE)
  finally show ?thesis .
qed

lemma insert_done_line:
  assumes "x \<in> set ten_instruments" "insert_stage x g 0 ob"
  shows "report_line (x, ob) = insert_line g x"
proof -
  obtain a where a: "a < 10" "x = ten_instruments ! a"
    using assms(1) bench_instruments_distinct(2) [of 10] by (metis in_set_conv_nth)
  have "ob_trades_completed ob = 0" "orders_in (ob_bids ob) = (if even a then g else 0)" "orders_in (ob_asks ob) = (if even a then 0 else g)"
    using assms(2) a by (auto simp: insert_stage_def)
  moreover have "decimal 0 = ''0''" by code_simp
  ultimately show ?thesis using a bid_instrument_even by (simp add: report_line_def insert_line_def totals)
qed

lemma insert_fresh: "fresh_book pool_size 1000000 ob \<Longrightarrow> k \<le> 1000000 \<Longrightarrow> insert_stage x 0 k ob"
  by (auto simp: insert_stage_def fresh_book_def calm_def tidy_def map_sorted_def ids_for_def)

lemma insert_made:
  fixes c :: clock and g :: nat
  defines "cmds \<equiv> fst (insert_commands ten_instruments [0..<10 * g] c)"
  shows "length cmds = 10 * g" "inserts.admitted cmds"
    "\<And>cmd. cmd \<in> set cmds \<Longrightarrow> cmd_type cmd = ADD \<and> ord_instrument (cmd_order cmd) \<in> set ten_instruments"
    "\<And>x. x \<in> set ten_instruments \<Longrightarrow> length (about x cmds) = g"
proof -
  obtain f where f: "cmds = map (insert_command f) [0..<10 * g]"
    unfolding cmds_def using insert_commands_map [of 0 "10 * g" c] by fastforce
  show "length cmds = 10 * g" "inserts.admitted cmds" unfolding f using insert_counts [of f "10 * g"] by simp_all
  have "ten_instruments ! (i mod 10) \<in> set ten_instruments" for i
    by (rule nth_mem) (simp add: bench_instruments_distinct)
  then show "\<And>cmd. cmd \<in> set cmds \<Longrightarrow> cmd_type cmd = ADD \<and> ord_instrument (cmd_order cmd) \<in> set ten_instruments"
    unfolding f using insert_command_facts(1,2) by auto
  have "\<exists>a < 10. x = ten_instruments ! a" if "x \<in> set ten_instruments" for x
    using that bench_instruments_distinct(2) [of 10] by (metis in_set_conv_nth)
  then show "\<And>x. x \<in> set ten_instruments \<Longrightarrow> length (about x cmds) = g"
    unfolding f using insert_counts [of f "10 * g"] by fastforce
qed

text \<open>
  C29: the benchmark without matching, run to the end in one thread: after \<open>10 * g\<close> orders no book has
  traded, as the README says, and each holds the \<open>g\<close> orders of its instrument, all of them on one side:
  the bids are in the books of even number and the offers in those of odd number. It does not matter
  whether they outgrow the pools.
\<close>

theorem inserts_never_trade:
  fixes visit :: "books \<Rightarrow> books"
  assumes "0 < pool_size" "g \<le> 1000000" "\<forall>books. mset (visit books) = mset books"
  shows "\<exists>xs. mset xs = mset ten_instruments \<and>
    bench_insert_s_sized pool_size (10 * g) mv visit clk = Inr (concat (map (insert_line g) xs))"
  unfolding bench_insert_s_sized_def
  by (rule inserts.run_alone_lines [OF _ _ assms(1,3), where quota = g])
    (use insert_made [where g = g] insert_done_line insert_fresh assms(2) in simp_all)

theorem inserts_never_trade_witness:
  "\<exists>xs. mset xs = mset ten_instruments \<and>
     bench_insert_s_sized SPACE_RESERVE 500000 (\<lambda>x. x) rev (wd_clock ex_world) = Inr (concat (map (insert_line 50000) xs))"
  using inserts_never_trade [of SPACE_RESERVE 50000 rev "\<lambda>x. x" "wd_clock ex_world"] by (simp add: SPACE_RESERVE_def)

end
