(* ===== verification/Bench_Threads.thy ===== *)
theory Bench_Threads
  imports Bench_Match20 Bench_Insert
begin

text \<open>
  \<open>src/src/bench_match20_m.cpp\<close> and \<open>src/src/bench_insert_m.cpp\<close>: the same orders as in the drivers with one
  thread, spread over five workers that run in threads of their own.
\<close>

section \<open>The drivers\<close>

definition bench_match20_m_sized :: "nat \<Rightarrow> nat \<Rightarrow> (instrument \<Rightarrow> instrument) \<Rightarrow> clock \<Rightarrow> driver result" where
  "bench_match20_m_sized pool_size num_orders mv clk =
     rbind (load_orders pool_size 5 5 num_orders (\<lambda>instruments c. match20_commands instruments [0..<num_orders] (0, c)) mv clk)
       (\<lambda>s. Inr (launch s))"

definition bench_insert_m_sized :: "nat \<Rightarrow> nat \<Rightarrow> (instrument \<Rightarrow> instrument) \<Rightarrow> clock \<Rightarrow> driver result" where
  "bench_insert_m_sized pool_size num_orders mv clk =
     rbind (load_orders pool_size 10 5 num_orders (\<lambda>instruments. insert_commands instruments [0..<num_orders]) mv clk)
       (\<lambda>s. Inr (launch s))"

lemma five_shares:
  "list_all (\<lambda>k. share 5 k 0 (bench_instruments 5) = [''S'' @ decimal k]) [0..<5]"
  "list_all (\<lambda>k. share 5 k 0 (bench_instruments 10) = [''S'' @ decimal k, ''S'' @ decimal (k + 5)]) [0..<5]"
  by code_simp+

lemma share_five:
  assumes "k < 5"
  shows "share 5 k 0 (bench_instruments 5) = [''S'' @ decimal k]"
    "share 5 k 0 (bench_instruments 10) = [''S'' @ decimal k, ''S'' @ decimal (k + 5)]"
  using five_shares assms by (simp_all add: list_all_iff)

section \<open>Properties\<close>

text \<open>
  C17: the benchmark with matching, in threads: whatever interleaving of the main thread and the five
  workers has come about, no thread faults, and under every scheduler that is fair from there on, as is
  one that gives the threads their turns in a round, the workers stop and are joined; and a worker that
  has stopped has performed all of its orders, and reports \<open>g\<close> trades, \<open>4 * g\<close> bids and as many offers for
  its instrument, just as in one thread. The orders may outgrow the pools.
\<close>

theorem match20_threads:
  assumes "0 < pool_size" "pool_size mod 10 = 5 \<longrightarrow> 10 * g \<le> pool_size" "g < 100000"
  shows "\<exists>d0. bench_match20_m_sized pool_size (50 * g) mv clk = Inr d0 \<and>
    (\<forall>d. (driver_step mv)\<^sup>*\<^sup>* d0 d \<longrightarrow> runs_safely mv d \<and>
       (\<forall>k < 5. tr_stopped (dr_trading d) ! k \<longrightarrow> reports k [match20_line g (''S'' @ decimal k)] d))"
proof -
  have fresh: "match20_stage pool_size x 0 k ob" if "fresh_book pool_size 1000000 ob" "k \<le> 10 * g" for x k ob
    by (rule match20_fresh [OF that assms(3)]) (use assms(2) that(2) in auto)
  have "\<exists>d0. bench_match20_m_sized pool_size (50 * g) mv clk = Inr d0 \<and>
    (\<forall>d. (driver_step mv)\<^sup>*\<^sup>* d0 d \<longrightarrow> runs_safely mv d \<and> workers_number (dr_trading d) = 5 \<and>
       (\<forall>k < 5. tr_stopped (dr_trading d) ! k \<longrightarrow> reports k (map (match20_line g) (share 5 k 0 (bench_instruments 5))) d))"
    unfolding bench_match20_m_sized_def
    by (rule match20.threads_lines [OF _ _ _ assms(1), where P = pool_size and quota = "10 * g"])
      (use match20_made [where g = g] fresh match20_done_line [OF _ assms(3)] in simp_all)
  then show ?thesis by (auto simp: share_five(1))
qed

text \<open>All the orders of the driver, in books of the size that the code has.\<close>

theorem match20_threads_witness:
  "\<exists>d0. bench_match20_m_sized SPACE_RESERVE 1000000 (\<lambda>x. x) (wd_clock ex_world) = Inr d0 \<and> runs_safely (\<lambda>x. x) d0"
  using match20_threads [of SPACE_RESERVE 20000 "\<lambda>x. x" "wd_clock ex_world"] by (auto simp: SPACE_RESERVE_def)

text \<open>
  C28: the benchmark without matching, in threads: each of the five workers has the books of two of the
  ten instruments; in every interleaving no thread faults, every fair scheduler brings all threads to
  their end, and a worker that has stopped reports, for both of its instruments, no trade and all of
  their orders.
\<close>

theorem insert_threads:
  assumes "0 < pool_size" "g \<le> 1000000"
  shows "\<exists>d0. bench_insert_m_sized pool_size (10 * g) mv clk = Inr d0 \<and>
    (\<forall>d. (driver_step mv)\<^sup>*\<^sup>* d0 d \<longrightarrow> runs_safely mv d \<and>
       (\<forall>k < 5. tr_stopped (dr_trading d) ! k \<longrightarrow>
          reports k [insert_line g (''S'' @ decimal k), insert_line g (''S'' @ decimal (k + 5))] d))"
proof -
  have "\<exists>d0. bench_insert_m_sized pool_size (10 * g) mv clk = Inr d0 \<and>
    (\<forall>d. (driver_step mv)\<^sup>*\<^sup>* d0 d \<longrightarrow> runs_safely mv d \<and> workers_number (dr_trading d) = 5 \<and>
       (\<forall>k < 5. tr_stopped (dr_trading d) ! k \<longrightarrow> reports k (map (insert_line g) (share 5 k 0 ten_instruments)) d))"
    unfolding bench_insert_m_sized_def
    by (rule inserts.threads_lines [OF _ _ _ assms(1), where quota = g])
      (use insert_made [where g = g] insert_done_line insert_fresh assms(2) in simp_all)
  then show ?thesis by (auto simp: share_five(2))
qed

theorem insert_threads_witness:
  "\<exists>d0. bench_insert_m_sized SPACE_RESERVE 500000 (\<lambda>x. x) (wd_clock ex_world) = Inr d0 \<and> runs_safely (\<lambda>x. x) d0"
  using insert_threads [of SPACE_RESERVE 50000 "\<lambda>x. x" "wd_clock ex_world"] by (auto simp: SPACE_RESERVE_def)

end
