(* ===== verification/Unit_Tests.thy ===== *)
theory Unit_Tests
  imports Book_Example
begin

text \<open>
  \<open>tests/test_price_level.cpp\<close> and \<open>tests/test_orderbook.cpp\<close>, run on the model. A test comes to the list of
  what its \<open>EXPECT_EQ\<close>s find, in their order, or to a fault. The model passes all of them, whatever time the
  clock tells, with eight for \<open>SPACE_RESERVE\<close>, which is the size of the pool and the default size that the
  constructor of the book takes; no test adds more than six orders.
\<close>

definition d102 :: price where "d102 = Double 0x4059800000000000"
definition d103 :: price where "d103 = Double 0x4059C00000000000"
definition d104 :: price where "d104 = Double 0x405A000000000000"
definition d105 :: price where "d105 = Double 0x405A400000000000"

text \<open>
  The local variables of a test of the book: the orders and the ids are numbered from 1, and
  \<open>best_level\<close>, a reference to a node of the map of bids, is the key of that node.
\<close>

record book_test =
  bt_state :: state
  bt_orders :: "order list"
  bt_ids :: "order_id list"
  bt_best_level :: price
  bt_found :: "bool list"

definition start_test :: "nat \<Rightarrow> clock \<Rightarrow> book_test" where
  "start_test pool_size clk =
     (case new_orderbook_sized pool_size ''SPY'' pool_size \<lparr>wd_clock = clk, wd_ids = default_id_allocator\<rparr> of (ob, w) \<Rightarrow>
        \<lparr>bt_state = (w, ob), bt_orders = [], bt_ids = [], bt_best_level = minus_one, bt_found = []\<rparr>)"

type_synonym test_step = "book_test \<Rightarrow> book_test result"

fun steps :: "test_step list \<Rightarrow> test_step" where
  "steps [] t = Inr t"
| "steps (f # fs) t = (case f t of Inl e \<Rightarrow> Inl e | Inr t' \<Rightarrow> steps fs t')"

definition make_order :: "order_side \<Rightarrow> price \<Rightarrow> quantity \<Rightarrow> test_step" where
  "make_order sd p q t = (case bt_state t of (w, ob) \<Rightarrow>
     Inr (t\<lparr>bt_state := (wtick w, ob), bt_orders := bt_orders t @ [client_order (wnow w) ''SPY'' sd p q]\<rparr>))"

definition call_add :: "nat \<Rightarrow> test_step" where
  "call_add n t = (case add_order (bt_orders t ! (n - 1)) (bt_state t) of Inl e \<Rightarrow> Inl e
     | Inr (i, s) \<Rightarrow> Inr (t\<lparr>bt_state := s, bt_ids := bt_ids t @ [i]\<rparr>))"

definition call_modify :: "nat \<Rightarrow> price \<Rightarrow> quantity \<Rightarrow> test_step" where
  "call_modify n p q t = (case modify_order (bt_ids t ! (n - 1)) p q (bt_state t) of Inl e \<Rightarrow> Inl e
     | Inr (_, s) \<Rightarrow> Inr (t\<lparr>bt_state := s\<rparr>))"

definition call_cancel :: "nat \<Rightarrow> test_step" where
  "call_cancel n t = (case cancel_order (bt_ids t ! (n - 1)) (bt_state t) of Inl e \<Rightarrow> Inl e
     | Inr (_, s) \<Rightarrow> Inr (t\<lparr>bt_state := s\<rparr>))"

definition refer_best_level :: test_step where
  "refer_best_level t = (case ob_bids (snd (bt_state t)) of [] \<Rightarrow> Inl (Undefined EndIterator)
     | (k, _) # _ \<Rightarrow> Inr (t\<lparr>bt_best_level := k\<rparr>))"

definition best_level :: "book_test \<Rightarrow> price_level result" where
  "best_level t = (case level_at BUY (bt_best_level t) (ob_bids (snd (bt_state t))) of Inl e \<Rightarrow> Inl e | Inr (_, lv) \<Rightarrow> Inr lv)"

definition front_id :: "book_test \<Rightarrow> order_id result" where
  "front_id t = rbind (best_level t) (\<lambda>lv. rbind (level_front lv) (\<lambda>p.
     rbind (deref (store (snd (bt_state t))) p) (\<lambda>ord. Inr (ord_id ord))))"

definition expect :: "bool \<Rightarrow> test_step" where
  "expect b t = Inr (t\<lparr>bt_found := bt_found t @ [b]\<rparr>)"

definition expect_best_bid :: "price \<Rightarrow> test_step" where
  "expect_best_bid p t = expect (dbl_eq (get_best_bid (snd (bt_state t))) p) t"

definition expect_best_ask :: "price \<Rightarrow> test_step" where
  "expect_best_ask p t = expect (dbl_eq (get_best_ask (snd (bt_state t))) p) t"

definition expect_front :: "nat \<Rightarrow> test_step" where
  "expect_front n t = (case front_id t of Inl e \<Rightarrow> Inl e | Inr i \<Rightarrow> expect (i = bt_ids t ! (n - 1)) t)"

definition expect_size :: "nat \<Rightarrow> test_step" where
  "expect_size k t = (case best_level t of Inl e \<Rightarrow> Inl e | Inr lv \<Rightarrow> expect (level_size lv = k) t)"

definition expect_no_bids :: test_step where
  "expect_no_bids t = expect (ob_bids (snd (bt_state t)) = []) t"

section \<open>The book\<close>

definition test_orderbook_basic :: "nat \<Rightarrow> clock \<Rightarrow> book_test result" where
  "test_orderbook_basic pool_size clk = steps
     [make_order BUY d100 300, make_order BUY d103 200, make_order BUY d102 100,
      make_order SELL d105 3000, make_order SELL d104 200, make_order SELL d104 100,
      call_add 1, call_add 2, call_add 3, call_add 4, call_add 5, call_add 6,
      expect_best_bid d103, expect_best_ask d104] (start_test pool_size clk)"

definition test_orderbook_match :: "nat \<Rightarrow> clock \<Rightarrow> book_test result" where
  "test_orderbook_match pool_size clk = steps
     [make_order BUY d100 300, make_order SELL d100 200, call_add 1, call_add 2,
      expect_best_bid d100, expect_best_ask minus_one,
      make_order BUY d101 100, make_order SELL d100 200, call_add 3, expect_best_bid d101,
      call_add 4, expect_best_bid minus_one, expect_best_ask minus_one,
      make_order BUY d100 500, make_order SELL d101 500, call_add 5, call_add 6,
      expect_best_bid d100, expect_best_ask d101] (start_test pool_size clk)"

definition test_modify_order :: "nat \<Rightarrow> clock \<Rightarrow> book_test result" where
  "test_modify_order pool_size clk = steps
     [make_order BUY d100 300, call_add 1, call_modify 1 d99 300, expect_best_bid d99,
      make_order BUY d99 300, expect_best_bid d99, call_add 2,
      call_modify 1 d99 200, refer_best_level, expect_front 1,
      call_modify 1 d99 300, expect_front 2] (start_test pool_size clk)"

definition test_cancel_order :: "nat \<Rightarrow> clock \<Rightarrow> book_test result" where
  "test_cancel_order pool_size clk = steps
     [make_order BUY d100 300, make_order BUY d99 300, make_order BUY d99 500, make_order BUY d99 1000,
      call_add 1, call_add 2, call_add 3, call_add 4, expect_best_bid d100,
      call_cancel 3, expect_best_bid d100, call_cancel 1, expect_best_bid d99,
      refer_best_level, expect_front 2, expect_size 2,
      call_cancel 2, expect_best_bid d99, expect_front 4, expect_size 1,
      call_cancel 4, expect_best_bid minus_one, expect_no_bids] (start_test pool_size clk)"

section \<open>The price level\<close>

text \<open>The orders of these tests are local variables; their addresses are \<open>Slot 0 n\<close>.\<close>

definition local_order :: "nat \<Rightarrow> quantity \<Rightarrow> order_id \<Rightarrow> clock \<times> order_store \<Rightarrow> clock \<times> order_store" where
  "local_order n q i = (\<lambda>(clk, h).
     (later 1 clk, h(Slot 0 n \<mapsto> exchange_order (client_order (now clk) ''SPY'' BUY d100 q) i)))"

definition match_local :: "order_ptr \<Rightarrow> quantity \<Rightarrow> clock \<times> order_store \<Rightarrow> (clock \<times> order_store) result" where
  "match_local p q = (\<lambda>(clk, h). rbind (deref h p) (\<lambda>ord. rbind (match_order (now clk) q ord) (\<lambda>ord'.
     Inr (later 1 clk, h(p \<mapsto> ord')))))"

definition test_level_basic :: "clock \<Rightarrow> bool list result" where
  "test_level_basic clk =
     (let (clk, h) = local_order 1 200 1 (local_order 0 1000 0 (clk, Map.empty)) in
      rbind (level_add_order h (Slot 0 0) (new_price_level d100)) (\<lambda>lv.
      rbind (level_add_order h (Slot 0 1) lv) (\<lambda>lv. Inr [])))"

definition test_level_fill :: "clock \<Rightarrow> bool list result" where
  "test_level_fill clk =
     (let s = local_order 3 300 3 (local_order 2 2000 2 (local_order 1 1000 1 (clk, Map.empty))); h = snd s in
      rbind (level_add_order h (Slot 0 1) (new_price_level d100)) (\<lambda>lv.
      rbind (level_add_order h (Slot 0 2) lv) (\<lambda>lv. rbind (level_add_order h (Slot 0 3) lv) (\<lambda>lv.
      rbind (level_front lv) (\<lambda>order. rbind (deref h order) (\<lambda>ord.
      let found = [ord_id ord = 1] in
      rbind (match_local order 100 s) (\<lambda>s. rbind (pop_front_order_if_filled (snd s) lv) (\<lambda>lv.
      rbind (deref (snd s) order) (\<lambda>ord.
      let found = found @ [ord_status ord = PARTIALLY_FILLED, ord_quantity_filled ord = 100] in
      rbind (match_local order 900 s) (\<lambda>s. rbind (deref (snd s) order) (\<lambda>ord.
      let found = found @ [ord_status ord = FULLY_FILLED] in
      rbind (pop_front_order_if_filled (snd s) lv) (\<lambda>lv. rbind (level_front lv) (\<lambda>p. rbind (deref (snd s) p) (\<lambda>ord.
      Inr (found @ [ord_id ord = 2, ord_status ord = NEW])))))))))))))))"

section \<open>All tests pass\<close>

definition passed :: "bool list result \<Rightarrow> bool" where
  "passed r = (case r of Inl _ \<Rightarrow> False | Inr found \<Rightarrow> list_all id found)"

definition book_passed :: "book_test result \<Rightarrow> bool" where
  "book_passed r = (case r of Inl _ \<Rightarrow> False | Inr t \<Rightarrow> list_all id (bt_found t))"

lemma level_tests_pass: "passed (test_level_basic clk)" "passed (test_level_fill clk)"
  by code_simp+

lemma orderbook_basic_passes: "book_passed (test_orderbook_basic 8 clk)"
  by code_simp

lemma orderbook_match_passes: "book_passed (test_orderbook_match 8 clk)"
  by code_simp

lemma modify_order_passes: "book_passed (test_modify_order 8 clk)"
  by code_simp

lemma cancel_order_passes: "book_passed (test_cancel_order 8 clk)"
  by code_simp

end
