(* ===== verification/Spec2Isabelle.thy ===== *)
theory Spec2Isabelle
  imports Prelude Core Order_Pool Order_Queue Price_Level_V2 Ordered_Map Id_Allocator Order_Book Book_Side
    Book_Invariant Book_Spec Book_Refinement Book_Modify Book_Queries Book_Trace Book_Example
    Book_Properties Book_Limits Book_Crossing Book_Growth Book_Requeue
    Spsc_Queue Spsc_Threads Book_Group Order_Routing
    Text_Output Worker Producer Trading_System Price_Level_V1 Book_Table Book_Layout
    Order_Output Double_Arith Workload Drivers Driver_Threads Bench_Match20 Bench_Insert Bench_Threads Unit_Tests
begin

text \<open>
  A verification library for a limit order book engine in C++: the headers under \<open>include/\<close> and the
  drivers under \<open>src/\<close>.

  \<^bold>\<open>The program.\<close> A \<open>Producer\<close> takes order commands (add, modify, cancel, shutdown) and pushes each into the
  queue of the worker that has the book of the command's instrument. A worker polls its queue and
  performs the commands on its books until it meets a SHUTDOWN. A book keeps two maps of price levels,
  bids and asks, from the best price on; a level is a queue of orders in order of arrival; an order lives
  in the pool of its book and is pointed at from its level and from the registry of ids. Each book draws
  its order ids from blocks that the one \<open>IdAllocator\<close> hands out. The drivers build such a system,
  submit the orders that they make up, and run the workers, in the main thread or in threads.

  \<^bold>\<open>Conventions.\<close> A class is a record, an enumeration a datatype, and an operation a function from the
  state to a \<open>result\<close>: \<open>Inr\<close> the new state and what is returned, or \<open>Inl\<close> a fault. A fault is an exception
  of the code, or behaviour that C++ leaves undefined (a dangling pointer, an index out of range, an
  iterator past the end, a division by zero, a key without an order), or \<open>Diverges\<close> for a loop that does
  not return. Ids, quantities and counters are 64-bit words that wrap around, and sizes are natural
  numbers; a price is the bit pattern of an IEEE double, compared as the processor does. Time comes from
  a \<open>clock\<close> with arbitrary readings, one for each time that the code reads it.
  Loops that may not return are \<open>partial_function (option)\<close>; no model runs on fuel.

  \<^bold>\<open>Theories.\<close>
  \<^item> \<open>Prelude\<close>, \<open>Core\<close> (\<open>core.h\<close>): results, generic lemmas, doubles, the basic types.
  \<^item> \<open>Order\<close> (\<open>order.h\<close>), \<open>Order_Pool\<close> (\<open>order_pool.h\<close>), \<open>Id_Allocator\<close> (\<open>id_allocator.h\<close>): orders and
    commands with the life cycle of an order; the pool as a vector whose storage moves when it grows, so
    that pointers into the old storage dangle; blocks of ids, disjoint until the counter wraps around.
  \<^item> \<open>Order_Queue\<close>: the locales \<open>order_queue\<close> and \<open>matching_queue\<close>, what a book needs of a price level.
    \<open>Price_Level_V2\<close> (\<open>price_level_v2.h\<close>, an array with tombstones) is an interpretation of both,
    \<open>Price_Level_V1\<close> (\<open>price_level.h\<close>, a linked list) of the first. The two are related step by step, over
    additions, removals, pops and fills (\<open>versions_agree\<close>), up to the removal of an id that was popped, which
    the first version does not survive (\<open>popped_id_is_stale\<close>).
  \<^item> \<open>Ordered_Map\<close>: what \<open>std::map\<close> does for the comparisons on doubles. \<open>Order_Book\<close> (\<open>orderbook.h\<close>): the
    book and every operation of it.
  \<^item> \<open>Book_Side\<close>, \<open>Book_Invariant\<close>: the invariant of a side and of a book. \<open>Book_Spec\<close>: the abstract book,
    two sorted lists of resting orders, with price-time matching; \<open>Book_Refinement\<close>, \<open>Book_Modify\<close>,
    \<open>Book_Queries\<close>: the operations refine it. \<open>Book_Trace\<close>: sequences of requests, and which of them a
    book is prepared for (\<open>admissible\<close>: room in the pool, ids left, a price that is a number, and no
    increase of an order that is alone at its price). \<open>Book_Properties\<close>: the properties of a book;
    \<open>Book_Limits\<close>: what happens without these conditions; \<open>Book_Crossing\<close>: the modification that leaves
    a book crossed; \<open>Book_Growth\<close>: adding orders to a book whose pool has moved; \<open>Book_Requeue\<close>: from the
    increase of a lone order to the undefined erase that it leads to. \<open>Book_Group\<close>: several books on one allocator.
  \<^item> \<open>Text_Output\<close>, \<open>Book_Table\<close>, \<open>Book_Layout\<close>, \<open>Order_Output\<close>: the stream operators, for the table of a
    book, for orders, commands and levels, down to the digits of a price.
  \<^item> \<open>Spsc_Queue\<close> (\<open>spsc_queue.h\<close>): the ring buffer as an interpretation of the locale \<open>bounded_fifo\<close>;
    \<open>Spsc_Threads\<close>: its two threads, one atomic access at a time, with loads that may be stale.
  \<^item> \<open>Order_Routing\<close> (\<open>order_routing_system.h\<close>), \<open>Worker\<close> (\<open>worker.h\<close>), \<open>Producer\<close> (\<open>producer.h\<close>): the
    construction of the system, the loop of a worker, submission and shutdown. \<open>poll_turn\<close> is one turn of
    that loop; \<open>worker_loop\<close> repeats it in one thread.
  \<^item> \<open>Trading_System\<close>: the producer and the workers as a state machine, in any interleaving; a step of worker
    \<open>k\<close> (\<open>worker_turn\<close>) is the same \<open>poll_turn\<close>, on its own queue and books.
  \<^item> \<open>Double_Arith\<close>, \<open>Workload\<close>, \<open>Drivers\<close>, \<open>Driver_Threads\<close>, \<open>Bench_Match20\<close>, \<open>Bench_Insert\<close>,
    \<open>Bench_Threads\<close> (\<open>src/bench_*.cpp\<close>): the drivers, from the prices that they compute to the lines that
    the workers print. The locale \<open>order_stream\<close> says what orders a driver gives to a book, and what the
    book has come to by then; it is interpreted for both families of drivers.
  \<^item> \<open>Unit_Tests\<close> (\<open>tests/\<close>): the tests of the book and of the price level, run on the model, which passes
    them.

  \<^bold>\<open>What is shown.\<close> A book answers every admissible request without a fault, keeps its invariant, and does
  what the abstract book does: orders are matched by price and then time, every fill is accounted for on
  both sides, and the book is never left crossed unless a price was modified. The threads of the queue
  lose, double or reorder nothing and never touch one slot at once. In the whole system the commands of
  an instrument are performed in the order of their submission, ids are unique among all books, workers
  make progress and stop after what was accepted before their SHUTDOWN. The drivers come to the number
  of trades that they announce, in one thread as in several, where no interleaving faults and every fair
  scheduler (round robin is shown to be one) brings all threads to their end. And the limits are theorems
  as well: the full pool, the lone increase, the crossing modification, the NaN, the queue that stays full.

  \<^bold>\<open>Parameters.\<close> The functions \<open>_sized\<close> take the size of the order pool, for which the code has the constant
  \<open>SPACE_RESERVE\<close>, so that small books can be evaluated. \<open>mv\<close> is what a moved-from string holds, which the
  standard leaves open. \<open>taken\<close> and \<open>sur\<close> (\<open>surroundings\<close>) are what the other threads do in the meantime,
  where a function models one thread; \<open>visit\<close> is the order in which the hash map of a worker is visited.
  The number of orders of a driver is a parameter, too. The theorems on the drivers hold for the numbers
  of the code: \<open>bench_match20_*\<close> sends 200000 orders to each book, twice what its pool holds, so that the
  pointers to the first half of them dangle; the run gets through since the orders that it matches have
  not moved, and \<open>match20_pool_dangles\<close> shows that this hangs on the last digit of \<open>SPACE_RESERVE\<close>.

  \<^bold>\<open>Readings of the standard.\<close> \<open>vector::reserve(n)\<close> gives the capacity \<open>n\<close>, as libstdc++ does, where the
  standard says at least \<open>n\<close>. A NaN as key of an ordered map is taken to be undefined whatever else the map
  holds, also where there is at most one other key, on which the comparison still is an order. The queues that \<open>submit_all_shutdown_commands\<close> leaves
  are those right after the last attempt on each; workers may go on from there.

  \<^bold>\<open>Not modelled.\<close> Alignment and padding; \<open>print_time\<close>, which prints a duration that nothing ever sets;
  exceptions for want of memory; in the drivers the measurement of time and its lines, pinning, sleeping,
  and the handler of SIGINT, whose flag is never read; \<open>benchmark/main.cpp\<close>, which includes a header that
  does not exist; the runner of the tests. Calls of the producer and turns of a worker are whole steps in
  \<open>Trading_System\<close>, which \<open>Spsc_Threads\<close> justifies for the queues; the atomic counter of \<open>IdAllocator\<close> is
  read and advanced in one step, and the books of different workers share nothing else.
\<close>

end
